(* ===== verification/Prelude.thy ===== *)
theory Prelude
  imports Main "HOL-Library.Word" "HOL-Library.Sublist" "HOL-Library.Multiset"
begin

text \<open>
  Shared material of the development: the machine integers of the code, Rust
  panics as values, counting and updating of indexed lists, and the generic notion of
  a transition system with its reachable states and its invariant rule.

  The collections \<open>step_defs\<close> (the unfolded steps of a state machine) and
  \<open>law_simps\<close> (the laws of the third-party crates in rewriting form) are filled by
  the component theories.
\<close>

named_theorems step_defs
named_theorems law_simps

section \<open>Machine integers and panics\<close>

text \<open>\<open>u64\<close> counters and \<open>usize\<close> counters are words, since the code's atomics wrap.\<close>

type_synonym u64 = "64 word"
type_synonym usize = "64 word"

text \<open>A Rust panic that the source can raise by itself, as a value.\<close>

datatype panic = IndexOutOfBounds | SubtractOverflow | DivideByZero

type_synonym 'a outcome = "panic + 'a"

text \<open>\<open>xs[i]\<close> and \<open>xs[i] = x\<close> on a \<open>Vec\<close>: both panic out of range.\<close>

definition vec_get :: "'a list \<Rightarrow> nat \<Rightarrow> 'a outcome" where
  "vec_get xs i = (if i < length xs then Inr (xs ! i) else Inl IndexOutOfBounds)"

definition vec_set :: "'a list \<Rightarrow> nat \<Rightarrow> 'a \<Rightarrow> 'a list outcome" where
  "vec_set xs i x = (if i < length xs then Inr (xs[i := x]) else Inl IndexOutOfBounds)"

definition usize_sub :: "nat \<Rightarrow> nat \<Rightarrow> nat outcome" where
  "usize_sub a b = (if b \<le> a then Inr (a - b) else Inl SubtractOverflow)"

text \<open>\<open>Vec::pop\<close>: the last element, and the vector without it.\<close>

definition vec_pop :: "'a list \<Rightarrow> ('a \<times> 'a list) option" where
  "vec_pop xs = (if xs = [] then None else Some (last xs, butlast xs))"

lemma vec_pop_snoc [simp]: "vec_pop (xs @ [x]) = Some (x, xs)"
  by (simp add: vec_pop_def)

lemma vec_pop_Nil [simp]: "vec_pop [] = None"
  by (simp add: vec_pop_def)

lemma vec_pop_SomeD: "vec_pop xs = Some (x, ys) \<Longrightarrow> xs = ys @ [x]"
  by (auto simp: vec_pop_def split: if_splits)

lemma vec_pop_NoneD: "vec_pop xs = None \<Longrightarrow> xs = []"
  by (auto simp: vec_pop_def split: if_splits)

lemma nth_upd: "xs[i := x] ! j = (if i = j \<and> j < length xs then x else xs ! j)"
  by (cases "i = j") (auto simp: list_update_beyond)

text \<open>An element of an updated list is still there unless it was the one replaced.\<close>

lemma set_update_keep: "x \<in> set xs \<Longrightarrow> x \<in> set (xs[i := y]) \<or> i < length xs \<and> x = xs ! i"
  by (metis in_set_conv_nth length_list_update nth_list_update_neq)

section \<open>Counting in lists\<close>

definition count_if :: "('a \<Rightarrow> bool) \<Rightarrow> 'a list \<Rightarrow> nat" where
  "count_if P xs = length (filter P xs)"

lemma count_if_Nil [simp]: "count_if P [] = 0"
  by (simp add: count_if_def)

lemma count_if_Cons [simp]: "count_if P (x # xs) = of_bool (P x) + count_if P xs"
  by (simp add: count_if_def)

lemma count_if_append [simp]: "count_if P (xs @ ys) = count_if P xs + count_if P ys"
  by (simp add: count_if_def)

lemma count_if_update:
  "i < length xs \<Longrightarrow>
     count_if P (xs[i := y]) + of_bool (P (xs ! i)) = count_if P xs + of_bool (P y)"
proof (induction xs arbitrary: i)
  case Nil
  then show ?case by simp
next
  case (Cons x xs)
  then show ?case by (cases i) auto
qed

lemma count_if_update_same:
  "i < length xs \<Longrightarrow> P y = P (xs ! i) \<Longrightarrow> count_if P (xs[i := y]) = count_if P xs"
  using count_if_update [of i xs P y] by simp

lemma count_if_update_gain:
  "i < length xs \<Longrightarrow> P y \<Longrightarrow> \<not> P (xs ! i) \<Longrightarrow> count_if P (xs[i := y]) = Suc (count_if P xs)"
  using count_if_update [of i xs P y] by simp

lemma count_if_update_lose:
  "i < length xs \<Longrightarrow> \<not> P y \<Longrightarrow> P (xs ! i) \<Longrightarrow> Suc (count_if P (xs[i := y])) = count_if P xs"
  using count_if_update [of i xs P y] by simp

lemma count_if_le_length: "count_if P xs \<le> length xs"
  by (simp add: count_if_def)

lemma count_if_pos: "i < length xs \<Longrightarrow> P (xs ! i) \<Longrightarrow> 0 < count_if P xs"
  by (auto simp: count_if_def filter_empty_conv intro: nth_mem)

lemma count_if_compl: "count_if P xs + count_if (\<lambda>x. \<not> P x) xs = length xs"
  by (simp add: count_if_def sum_length_filter_compl)

lemma count_if_zero_iff: "count_if P xs = 0 \<longleftrightarrow> (\<forall>x\<in>set xs. \<not> P x)"
  by (simp add: count_if_def filter_empty_conv)

lemma count_if_mono: "(\<And>x. x \<in> set xs \<Longrightarrow> P x \<Longrightarrow> Q x) \<Longrightarrow> count_if P xs \<le> count_if Q xs"
  by (induction xs) auto

lemma count_if_card: "count_if P xs = card {i. i < length xs \<and> P (xs ! i)}"
  by (simp add: count_if_def length_filter_conv_card)

lemma sum_list_update_nat:
  "i < length xs \<Longrightarrow> sum_list (xs[i := y]) + xs ! i = sum_list xs + (y :: nat)"
proof (induction xs arbitrary: i)
  case Nil
  then show ?case by simp
next
  case (Cons x xs)
  from Cons.prems Cons.IH [of "i - 1"] show ?case by (cases i) auto
qed

lemma mset_concat_update_append:
  "i < length xss \<Longrightarrow> mset (concat (xss[i := xss ! i @ ys])) = mset (concat xss) + mset ys"
proof (induction xss arbitrary: i)
  case Nil
  then show ?case by simp
next
  case (Cons x xs)
  from Cons.prems Cons.IH [of "i - 1"] show ?case by (cases i) (auto simp: ac_simps)
qed

lemma subseq_drop_last: "subseq (xs @ ys) zs \<Longrightarrow> subseq xs zs"
  by (meson list_emb_append2 subseq_order.order_trans subseq_rev_drop_many subseq_order.order_refl)

lemma subseq_set: "subseq xs ys \<Longrightarrow> set xs \<subseteq> set ys"
  by (induction rule: list_emb.induct) auto

lemma subseq_distinct: "subseq xs ys \<Longrightarrow> distinct ys \<Longrightarrow> distinct xs"
  by (induction rule: list_emb.induct) (auto dest: subseq_set)

lemma count_if_map: "count_if P (map f xs) = count_if (P \<circ> f) xs"
  by (induction xs) auto

text \<open>An update of one element, seen through a function and a predicate.\<close>

lemma map_id_update: "i < length xs \<Longrightarrow> f y = f (xs ! i) \<Longrightarrow> map f (xs[i := y]) = map f xs"
  by (metis list_update_id map_update)

lemma filter_nth_distinct:
  assumes "distinct (map f xs)" "i < length xs" "f y = f (xs ! i)" "P (xs ! i)" "\<not> P y"
  shows "f ` set (filter P (xs[i := y])) = f ` set (filter P xs) - {f (xs ! i)}"
proof -
  have inj: "j < length xs \<Longrightarrow> f (xs ! j) = f (xs ! i) \<Longrightarrow> j = i" for j
    using assms(1,2) nth_eq_iff_index_eq [of "map f xs" j i] by simp
  show ?thesis
  proof (intro set_eqI iffI)
    fix v assume "v \<in> f ` set (filter P (xs[i := y]))"
    then obtain j where j: "j < length xs" "P (xs[i := y] ! j)" "v = f (xs[i := y] ! j)"
      by (auto simp: in_set_conv_nth)
    then have "j \<noteq> i" using assms(5) by auto
    with j inj [of j] show "v \<in> f ` set (filter P xs) - {f (xs ! i)}"
      by (auto intro: nth_mem)
  next
    fix v assume "v \<in> f ` set (filter P xs) - {f (xs ! i)}"
    then obtain j where j: "j < length xs" "P (xs ! j)" "v = f (xs ! j)" "v \<noteq> f (xs ! i)"
      by (auto simp: in_set_conv_nth)
    then have "j \<noteq> i" by auto
    with j have "xs[i := y] ! j = xs ! j" "j < length (xs[i := y])" by auto
    then have "xs ! j \<in> set (xs[i := y])" by (metis nth_mem)
    with j show "v \<in> f ` set (filter P (xs[i := y]))" by simp
  qed
qed

lemma filter_image_same:
  assumes "i < length xs" "f y = f (xs ! i)" "P y = P (xs ! i)"
  shows "f ` set (filter P (xs[i := y])) = f ` set (filter P xs)"
proof -
  have "map (\<lambda>x. (f x, P x)) (xs[i := y]) = map (\<lambda>x. (f x, P x)) xs"
    by (rule map_id_update) (use assms in auto)
  then have "set (map (\<lambda>x. (f x, P x)) (xs[i := y])) = set (map (\<lambda>x. (f x, P x)) xs)" by simp
  moreover have "f ` set (filter P zs) = {a. (a, True) \<in> set (map (\<lambda>x. (f x, P x)) zs)}" for zs
    by auto
  ultimately show ?thesis by simp
qed

section \<open>Transition systems\<close>

text \<open>
  A machine is an initial predicate and a deterministic event function that returns
  \<open>None\<close> where an event is not enabled. All the choice (which thread moves, which timer
  fires) is in the list of events.
\<close>

inductive reach :: "('p \<Rightarrow> bool) \<Rightarrow> ('e \<Rightarrow> 'p \<Rightarrow> 'p option) \<Rightarrow> 'p \<Rightarrow> bool"
  for init step where
  reach_init: "init p \<Longrightarrow> reach init step p"
| reach_step: "reach init step p \<Longrightarrow> step e p = Some q \<Longrightarrow> reach init step q"

fun run :: "('e \<Rightarrow> 'p \<Rightarrow> 'p option) \<Rightarrow> 'e list \<Rightarrow> 'p \<Rightarrow> 'p option" where
  "run step [] p = Some p"
| "run step (e # es) p = (case step e p of None \<Rightarrow> None | Some q \<Rightarrow> run step es q)"

lemma run_stutter: "\<exists>es. run step es p = Some p"
  by (rule exI [of _ "[]"]) simp

lemma run_append:
  "run step (es @ fs) p = (case run step es p of None \<Rightarrow> None | Some q \<Rightarrow> run step fs q)"
  by (induction es arbitrary: p) (auto split: option.splits)

lemma reach_run: "reach init step p \<Longrightarrow> run step es p = Some q \<Longrightarrow> reach init step q"
  by (induction es arbitrary: p) (auto split: option.splits intro: reach_step)

lemma run_keeps:
  assumes "\<And>p e q. reach init step p \<Longrightarrow> I p \<Longrightarrow> step e p = Some q \<Longrightarrow> I q"
  shows "reach init step p \<Longrightarrow> I p \<Longrightarrow> run step es p = Some q \<Longrightarrow> I q"
proof (induction es arbitrary: p)
  case Nil
  then show ?case by simp
next
  case (Cons e es)
  then obtain m where m: "step e p = Some m" "run step es m = Some q" by (auto split: option.splits)
  from Cons.IH [OF reach_step [OF Cons.prems(1) m(1)] assms [OF Cons.prems(1,2) m(1)] m(2)] show ?case .
qed

lemma reach_iff_run: "reach init step q \<longleftrightarrow> (\<exists>p es. init p \<and> run step es p = Some q)"
proof
  assume "reach init step q"
  then show "\<exists>p es. init p \<and> run step es p = Some q"
  proof induction
    case (reach_init p)
    then show ?case by (intro exI [of _ p] exI [of _ "[]"]) simp
  next
    case (reach_step p e q)
    then obtain p0 es where "init p0" "run step es p0 = Some p" by blast
    with reach_step.hyps(2) have "init p0 \<and> run step (es @ [e]) p0 = Some q"
      by (simp add: run_append)
    then show ?case by blast
  qed
qed (auto intro: reach_run reach.reach_init)

text \<open>
  The invariant rule, once and for all. An invariant may be proved relative to the reachable
  states, whose other invariants are then at hand, or on its own, which gives the former.
\<close>

locale relative_invariant =
  fixes init :: "'p \<Rightarrow> bool" and step :: "'e \<Rightarrow> 'p \<Rightarrow> 'p option" and inv :: "'p \<Rightarrow> bool"
  assumes rel_init: "init p \<Longrightarrow> inv p"
    and rel_step: "reach init step p \<Longrightarrow> inv p \<Longrightarrow> step e p = Some q \<Longrightarrow> inv q"
begin

lemma reach_inv: "reach init step p \<Longrightarrow> inv p"
  by (induction rule: reach.induct) (auto intro: rel_init rel_step)

end

locale invariant =
  fixes init :: "'p \<Rightarrow> bool" and step :: "'e \<Rightarrow> 'p \<Rightarrow> 'p option" and inv :: "'p \<Rightarrow> bool"
  assumes inv_init: "init p \<Longrightarrow> inv p"
    and inv_step: "inv p \<Longrightarrow> step e p = Some q \<Longrightarrow> inv q"
begin

lemma run_inv: "inv p \<Longrightarrow> run step es p = Some q \<Longrightarrow> inv q"
  by (induction es arbitrary: p) (auto split: option.splits intro: inv_step)

end

sublocale invariant \<subseteq> relative_invariant
  by unfold_locales (auto intro: inv_init inv_step)

text \<open>
  A component of a machine: a projection of the state that each step of the machine moves by
  steps of the component's own machine. What holds in the component's reachable states then
  holds inside the machine.
\<close>

locale component =
  fixes init :: "'p \<Rightarrow> bool" and step :: "'e \<Rightarrow> 'p \<Rightarrow> 'p option" and proj :: "'p \<Rightarrow> 'c"
    and cinit :: "'c \<Rightarrow> bool" and cstep :: "'f \<Rightarrow> 'c \<Rightarrow> 'c option"
  assumes proj_init: "init p \<Longrightarrow> cinit (proj p)"
    and proj_step: "reach init step p \<Longrightarrow> step e p = Some q \<Longrightarrow> \<exists>fs. run cstep fs (proj p) = Some (proj q)"
begin

lemma reach_proj: "reach init step p \<Longrightarrow> reach cinit cstep (proj p)"
proof (induction rule: reach.induct)
  case (reach_init p)
  then show ?case by (intro reach.reach_init proj_init)
next
  case (reach_step p e q)
  from proj_step [OF reach_step.hyps] obtain fs where "run cstep fs (proj p) = Some (proj q)" ..
  with reach_step.IH show ?case by (rule reach_run)
qed

lemma run_proj:
  "reach init step p \<Longrightarrow> run step es p = Some q \<Longrightarrow> \<exists>fs. run cstep fs (proj p) = Some (proj q)"
proof (induction es arbitrary: p)
  case Nil
  then show ?case by (auto intro: exI [of _ "[]"])
next
  case (Cons e es)
  then obtain m where m: "step e p = Some m" "run step es m = Some q"
    by (auto split: option.splits)
  from proj_step [OF Cons.prems(1) m(1)] Cons.IH [OF reach_step [OF Cons.prems(1) m(1)] m(2)]
  obtain fs gs where "run cstep fs (proj p) = Some (proj m)" "run cstep gs (proj m) = Some (proj q)"
    by blast
  then have "run cstep (fs @ gs) (proj p) = Some (proj q)" by (simp add: run_append)
  then show ?case by blast
qed

end

text \<open>A rank of one activity along a run of all of them.\<close>

locale ranked =
  fixes step :: "'e \<Rightarrow> 'p \<Rightarrow> 'p option" and ev :: 'e and pre :: "'p \<Rightarrow> bool" and rank :: "'p \<Rightarrow> nat"
  assumes keep: "pre p \<Longrightarrow> step e p = Some q \<Longrightarrow> pre q"
    and other: "pre p \<Longrightarrow> step e p = Some q \<Longrightarrow> e \<noteq> ev \<Longrightarrow> rank q \<le> rank p"
    and own: "pre p \<Longrightarrow> step ev p = Some q \<Longrightarrow> rank q < rank p"
    and enabled: "pre p \<Longrightarrow> 0 < rank p \<Longrightarrow> step ev p \<noteq> None"
begin

lemma steps_bounded:
  "pre p \<Longrightarrow> run step es p = Some q \<Longrightarrow> pre q \<and> rank q + count_list es ev \<le> rank p"
proof (induction es arbitrary: p)
  case Nil
  then show ?case by simp
next
  case (Cons e es)
  then obtain m where m: "step e p = Some m" "run step es m = Some q" by (auto split: option.splits)
  have "pre m" using Cons.prems(1) m(1) by (rule keep)
  from Cons.IH [OF this m(2)] other [OF Cons.prems(1) m(1)] own [OF Cons.prems(1), of m] m(1)
  show ?case by (cases "e = ev") auto
qed

lemma progress:
  assumes "pre p" "run step es p = Some q"
  shows "rank q + count_list es ev \<le> rank p \<and> (rank q = 0 \<or> step ev q \<noteq> None)"
  using steps_bounded [OF assms] enabled by blast

end

text \<open>An activity that can finish on its own, if it is let to take its own steps only.\<close>

locale solo =
  fixes step :: "'e \<Rightarrow> 'p \<Rightarrow> 'p option" and own :: "'p \<Rightarrow> 'e" and pre :: "'p \<Rightarrow> bool" and rank :: "'p \<Rightarrow> nat"
    and over :: "'p \<Rightarrow> bool"
  assumes advance: "pre p \<Longrightarrow> \<not> over p \<Longrightarrow> \<exists>q. step (own p) p = Some q \<and> pre q \<and> rank q < rank p"
begin

lemma finishes:
  assumes "pre p"
  shows "\<exists>es q. set es \<subseteq> range own \<and> length es \<le> rank p \<and> run step es p = Some q \<and> over q"
  using assms
proof (induction "rank p" arbitrary: p rule: less_induct)
  case less
  show ?case
  proof (cases "over p")
    case True
    then show ?thesis by (intro exI [of _ "[]"]) simp
  next
    case False
    from advance [OF less.prems False] obtain m where m: "step (own p) p = Some m" "pre m" "rank m < rank p" by blast
    from less.hyps [OF m(3,2)] obtain es q where "set es \<subseteq> range own" "length es \<le> rank m"
      "run step es m = Some q" "over q" by blast
    with m(1,3) show ?thesis by (intro exI [of _ "own p # es"] exI [of _ q]) auto
  qed
qed

end

text \<open>What an observer of a run writes down: at each step, what \<open>f\<close> reads off the event and the state before it.\<close>

fun run_log :: "('e \<Rightarrow> 'p \<Rightarrow> 'x list) \<Rightarrow> ('e \<Rightarrow> 'p \<Rightarrow> 'p option) \<Rightarrow> 'e list \<Rightarrow> 'p \<Rightarrow> 'x list" where
  "run_log f step [] p = []"
| "run_log f step (e # es) p = f e p @ (case step e p of None \<Rightarrow> [] | Some q \<Rightarrow> run_log f step es q)"

locale logged =
  fixes init :: "'p \<Rightarrow> bool" and step :: "'e \<Rightarrow> 'p \<Rightarrow> 'p option" and log :: "'e \<Rightarrow> 'p \<Rightarrow> 'x list"
    and inv :: "'x list \<Rightarrow> 'p \<Rightarrow> bool"
  assumes log_init: "init p \<Longrightarrow> inv [] p"
    and log_step: "reach init step p \<Longrightarrow> inv xs p \<Longrightarrow> step e p = Some q \<Longrightarrow> inv (xs @ log e p) q"
begin

lemma run_extends:
  "reach init step p \<Longrightarrow> inv xs p \<Longrightarrow> run step es p = Some q \<Longrightarrow> inv (xs @ run_log log step es p) q"
proof (induction es arbitrary: p xs)
  case Nil
  then show ?case by simp
next
  case (Cons e es)
  then obtain m where m: "step e p = Some m" "run step es m = Some q" by (auto split: option.splits)
  from Cons.IH [OF reach_step [OF Cons.prems(1) m(1)] log_step [OF Cons.prems(1,2) m(1)] m(2)] m(1)
  show ?case by simp
qed

lemma run_logged: "init p \<Longrightarrow> run step es p = Some q \<Longrightarrow> inv (run_log log step es p) q"
  using run_extends [of p "[]" es q] by (simp add: reach_init log_init)

end

text \<open>An update seen through the multiset of what each element contributes.\<close>

lemma mset_concat_update:
  "i < length xs \<Longrightarrow> mset (concat (map f (xs[i := y]))) + mset (f (xs ! i)) = mset (concat (map f xs)) + mset (f y)"
proof (induction xs arbitrary: i)
  case Nil
  then show ?case by simp
next
  case (Cons x xs)
  from Cons.prems Cons.IH [of "i - 1"] show ?case by (cases i) (auto simp: ac_simps)
qed

text \<open>Reading a list through its indices.\<close>

lemma map_through_indices: "map (\<lambda>i. f (xs ! i)) [0..<length xs] = map f xs"
  by (rule nth_equalityI) simp_all

end
