(* ===== verification/Externals.thy ===== *)
theory Externals
  imports Prelude
begin

text \<open>
  The crates the pool is built on. Their code is not part of the repository, so each is a
  parameter: a record of the operations the pool calls, and a predicate with the documented
  laws the pool relies on. A law speaks through an observer of the record
  (\<open>sem_permits\<close>, \<open>ch_items\<close>, \<open>os_value\<close>, \<open>nt_enabled\<close>, \<open>nt_fired\<close>).

  \<^item> \<open>sem_ops\<close>: \<open>futures_intrusive::sync::Semaphore\<close>. A poll of the future of
    \<open>acquire(1)\<close> either resolves and takes a permit or leaves the caller \<open>w\<close> waiting; dropping
    a waiting future takes nothing.
  \<^item> \<open>chan_ops\<close>: \<open>fibre::mpsc::unbounded_async\<close>, used for tasks and for completions.
  \<^item> \<open>oneshot_ops\<close>: \<open>fibre::oneshot::exclusive\<close>. The laws promise that a received value is
    the one that was sent, and never that a sent value is received.
  \<^item> \<open>notify_ops\<close>: \<open>tokio::sync::Notify\<close> with numbered \<open>Notified\<close> futures.
\<close>

section \<open>Semaphore\<close>

record 's sem_ops =
  sem_new :: "bool \<Rightarrow> nat \<Rightarrow> 's"
  sem_poll_acquire :: "nat \<Rightarrow> 's \<Rightarrow> bool \<times> 's"
  sem_drop_acquire :: "nat \<Rightarrow> 's \<Rightarrow> 's"
  sem_try_acquire :: "'s \<Rightarrow> 's option"
  sem_release :: "nat \<Rightarrow> 's \<Rightarrow> 's"
  sem_permits :: "'s \<Rightarrow> nat"

definition sem_laws :: "'s sem_ops \<Rightarrow> bool" where
  "sem_laws S \<longleftrightarrow>
     (\<forall>f n. sem_permits S (sem_new S f n) = n) \<and>
     (\<forall>w s s'. sem_poll_acquire S w s = (True, s') \<longrightarrow> sem_permits S s = Suc (sem_permits S s')) \<and>
     (\<forall>w s s'. sem_poll_acquire S w s = (False, s') \<longrightarrow> sem_permits S s' = sem_permits S s) \<and>
     (\<forall>w s. sem_permits S (sem_drop_acquire S w s) = sem_permits S s) \<and>
     (\<forall>s s'. sem_try_acquire S s = Some s' \<longrightarrow> sem_permits S s = Suc (sem_permits S s')) \<and>
     (\<forall>n s. sem_permits S (sem_release S n s) = sem_permits S s + n)"

lemma sem_lawD:
  assumes "sem_laws S"
  shows sem_new_permits: "sem_permits S (sem_new S f n) = n"
    and sem_poll_True: "sem_poll_acquire S w s = (True, s') \<Longrightarrow> sem_permits S s = Suc (sem_permits S s')"
    and sem_poll_False: "sem_poll_acquire S w s = (False, s') \<Longrightarrow> sem_permits S s' = sem_permits S s"
    and sem_drop_permits: "sem_permits S (sem_drop_acquire S w s) = sem_permits S s"
    and sem_try_Some: "sem_try_acquire S s = Some s' \<Longrightarrow> sem_permits S s = Suc (sem_permits S s')"
    and sem_release_permits: "sem_permits S (sem_release S n s) = sem_permits S s + n"
  using assms unfolding sem_laws_def by blast+

section \<open>Multi-producer single-consumer channel\<close>

datatype 'm recv = RecvPending | RecvOk 'm | RecvDisconnected

record ('m, 'q) chan_ops =
  ch_new :: 'q
  ch_send :: "'m \<Rightarrow> 'q \<Rightarrow> bool \<times> 'q"
  ch_recv :: "'q \<Rightarrow> 'm recv \<times> 'q"
  ch_close :: "'q \<Rightarrow> 'q"
  ch_is_closed :: "'q \<Rightarrow> bool"
  ch_len :: "'q \<Rightarrow> nat"
  ch_clone_tx :: "'q \<Rightarrow> 'q"
  ch_drop_tx :: "'q \<Rightarrow> 'q"
  ch_drop_rx :: "'q \<Rightarrow> 'm list \<times> 'q"
  ch_items :: "'q \<Rightarrow> 'm list"
  ch_senders :: "'q \<Rightarrow> nat"

text \<open>
  \<open>ch_drop_rx\<close> returns the messages that dropping the receiver drops; the laws allow any
  prefix of the queue. No law speaks of \<open>ch_is_closed\<close>, nor of what \<open>close\<close> does to later
  operations. \<open>Disconnected\<close> is promised for an empty channel without senders.
\<close>

definition chan_laws :: "('m, 'q) chan_ops \<Rightarrow> bool" where
  "chan_laws C \<longleftrightarrow>
     ch_items C (ch_new C) = [] \<and> ch_senders C (ch_new C) = 1 \<and>
     (\<forall>m q q'. ch_send C m q = (True, q') \<longrightarrow> ch_items C q' = ch_items C q @ [m]) \<and>
     (\<forall>m q q'. ch_send C m q = (False, q') \<longrightarrow> ch_items C q' = ch_items C q) \<and>
     (\<forall>m q q'. ch_recv C q = (RecvOk m, q') \<longrightarrow> ch_items C q = m # ch_items C q') \<and>
     (\<forall>q q'. ch_recv C q = (RecvPending, q') \<longrightarrow> ch_items C q = [] \<and> ch_items C q' = []) \<and>
     (\<forall>q q'. ch_recv C q = (RecvDisconnected, q') \<longrightarrow> ch_items C q = [] \<and> ch_items C q' = []) \<and>
     (\<forall>q. ch_items C (ch_close C q) = ch_items C q) \<and>
     (\<forall>q. ch_items C (ch_clone_tx C q) = ch_items C q) \<and>
     (\<forall>q. ch_items C (ch_drop_tx C q) = ch_items C q) \<and>
     (\<forall>ms q q'. ch_drop_rx C q = (ms, q') \<longrightarrow> ch_items C q = ms @ ch_items C q') \<and>
     (\<forall>q. ch_len C q = length (ch_items C q)) \<and>
     (\<forall>b m q q'. ch_send C m q = (b, q') \<longrightarrow> ch_senders C q' = ch_senders C q) \<and>
     (\<forall>r q q'. ch_recv C q = (r, q') \<longrightarrow> ch_senders C q' = ch_senders C q) \<and>
     (\<forall>q. ch_senders C (ch_clone_tx C q) = Suc (ch_senders C q)) \<and>
     (\<forall>q. ch_senders C (ch_drop_tx C q) = ch_senders C q - 1) \<and>
     (\<forall>q. ch_items C q = [] \<longrightarrow> ch_senders C q = 0 \<longrightarrow> fst (ch_recv C q) = RecvDisconnected)"

lemma chan_lawD:
  assumes "chan_laws C"
  shows ch_new_items: "ch_items C (ch_new C) = []"
    and ch_new_senders: "ch_senders C (ch_new C) = 1"
    and ch_send_True: "ch_send C m q = (True, q') \<Longrightarrow> ch_items C q' = ch_items C q @ [m]"
    and ch_send_False: "ch_send C m q = (False, q') \<Longrightarrow> ch_items C q' = ch_items C q"
    and ch_recv_Ok: "ch_recv C q = (RecvOk m, q') \<Longrightarrow> ch_items C q = m # ch_items C q'"
    and ch_recv_Pending: "ch_recv C q = (RecvPending, q') \<Longrightarrow> ch_items C q = [] \<and> ch_items C q' = []"
    and ch_recv_Disconnected:
      "ch_recv C q = (RecvDisconnected, q') \<Longrightarrow> ch_items C q = [] \<and> ch_items C q' = []"
    and ch_close_items: "ch_items C (ch_close C q) = ch_items C q"
    and ch_clone_items: "ch_items C (ch_clone_tx C q) = ch_items C q"
    and ch_drop_items: "ch_items C (ch_drop_tx C q) = ch_items C q"
    and ch_drop_rx_items: "ch_drop_rx C q = (ms, q') \<Longrightarrow> ch_items C q = ms @ ch_items C q'"
    and ch_len_items: "ch_len C q = length (ch_items C q)"
    and ch_send_senders: "ch_send C m q = (b, q') \<Longrightarrow> ch_senders C q' = ch_senders C q"
    and ch_recv_senders: "ch_recv C q = (r, q') \<Longrightarrow> ch_senders C q' = ch_senders C q"
    and ch_clone_senders: "ch_senders C (ch_clone_tx C q) = Suc (ch_senders C q)"
    and ch_drop_senders: "ch_senders C (ch_drop_tx C q) = ch_senders C q - 1"
    and ch_recv_disconnects:
      "ch_items C q = [] \<Longrightarrow> ch_senders C q = 0 \<Longrightarrow> fst (ch_recv C q) = RecvDisconnected"
  using assms unfolding chan_laws_def by simp_all

section \<open>Oneshot\<close>

record ('v, 'o) oneshot_ops =
  os_new :: 'o
  os_send :: "'v \<Rightarrow> 'o \<Rightarrow> bool \<times> 'o"
  os_recv :: "'o \<Rightarrow> 'v recv \<times> 'o"
  os_drop_tx :: "'o \<Rightarrow> 'o"
  os_drop_rx :: "'o \<Rightarrow> 'o"
  os_value :: "'o \<Rightarrow> 'v option"

definition oneshot_laws :: "('v, 'o) oneshot_ops \<Rightarrow> bool" where
  "oneshot_laws O1 \<longleftrightarrow>
     os_value O1 (os_new O1) = None \<and>
     (\<forall>v c c'. os_send O1 v c = (True, c') \<longrightarrow> os_value O1 c' = Some v) \<and>
     (\<forall>v c c'. os_send O1 v c = (False, c') \<longrightarrow> os_value O1 c' = os_value O1 c) \<and>
     (\<forall>v c c'. os_recv O1 c = (RecvOk v, c') \<longrightarrow> os_value O1 c = Some v) \<and>
     (\<forall>r c c'. os_recv O1 c = (r, c') \<longrightarrow> os_value O1 c' = os_value O1 c) \<and>
     (\<forall>c. os_value O1 (os_drop_tx O1 c) = os_value O1 c) \<and>
     (\<forall>c. os_value O1 (os_drop_rx O1 c) = os_value O1 c)"

lemma oneshot_lawD:
  assumes "oneshot_laws O1"
  shows os_new_value: "os_value O1 (os_new O1) = None"
    and os_send_True: "os_send O1 v c = (True, c') \<Longrightarrow> os_value O1 c' = Some v"
    and os_send_False: "os_send O1 v c = (False, c') \<Longrightarrow> os_value O1 c' = os_value O1 c"
    and os_recv_Ok: "os_recv O1 c = (RecvOk v, c') \<Longrightarrow> os_value O1 c = Some v"
    and os_recv_keeps: "os_recv O1 c = (r, c') \<Longrightarrow> os_value O1 c' = os_value O1 c"
    and os_drop_tx_value: "os_value O1 (os_drop_tx O1 c) = os_value O1 c"
    and os_drop_rx_value: "os_value O1 (os_drop_rx O1 c) = os_value O1 c"
  using assms unfolding oneshot_laws_def by blast+

text \<open>
  What the docs promise of waiting: once the sender was consumed by \<open>send\<close> or dropped, a poll of
  the receiver is never pending again. It finds the value or reports the disconnect.
\<close>

definition os_settled :: "('v, 'o) oneshot_ops \<Rightarrow> 'o \<Rightarrow> bool" where
  "os_settled O1 c \<longleftrightarrow> fst (os_recv O1 c) \<noteq> RecvPending"

definition oneshot_resolves :: "('v, 'o) oneshot_ops \<Rightarrow> bool" where
  "oneshot_resolves O1 \<longleftrightarrow>
     (\<forall>v c. os_settled O1 (snd (os_send O1 v c))) \<and> (\<forall>c. os_settled O1 (os_drop_tx O1 c)) \<and>
     (\<forall>c. os_settled O1 c \<longrightarrow> os_settled O1 (snd (os_recv O1 c))) \<and>
     (\<forall>c. os_settled O1 c \<longrightarrow> os_settled O1 (os_drop_rx O1 c))"

lemma oneshot_resolvesD:
  assumes "oneshot_resolves O1"
  shows os_send_settles: "os_settled O1 (snd (os_send O1 v c))"
    and os_drop_tx_settles: "os_settled O1 (os_drop_tx O1 c)"
    and os_recv_settled: "os_settled O1 c \<Longrightarrow> os_settled O1 (snd (os_recv O1 c))"
    and os_drop_rx_settled: "os_settled O1 c \<Longrightarrow> os_settled O1 (os_drop_rx O1 c)"
  using assms unfolding oneshot_resolves_def by blast+

section \<open>Notify\<close>

record 'n notify_ops =
  nt_new :: 'n
  nt_notified :: "nat \<Rightarrow> 'n \<Rightarrow> 'n"
  nt_enable :: "nat \<Rightarrow> 'n \<Rightarrow> 'n"
  nt_poll :: "nat \<Rightarrow> 'n \<Rightarrow> bool \<times> 'n"
  nt_drop :: "nat \<Rightarrow> 'n \<Rightarrow> 'n"
  nt_notify_waiters :: "'n \<Rightarrow> 'n"
  nt_enabled :: "nat \<Rightarrow> 'n \<Rightarrow> bool"
  nt_fired :: "nat \<Rightarrow> 'n \<Rightarrow> bool"

text \<open>
  \<open>notify_waiters\<close> fires every enabled future; a future stays enabled, and a fired one stays
  fired, whatever the others do; a poll of a fired future resolves.
\<close>

definition notify_laws :: "'n notify_ops \<Rightarrow> bool" where
  "notify_laws N \<longleftrightarrow>
     (\<forall>w n. nt_enabled N w (nt_enable N w n)) \<and>
     (\<forall>w n. nt_enabled N w n \<longrightarrow> nt_fired N w (nt_notify_waiters N n)) \<and>
     (\<forall>w n. nt_fired N w n \<longrightarrow> fst (nt_poll N w n)) \<and>
     (\<forall>w n. nt_enabled N w n \<longrightarrow> nt_enabled N w (nt_notify_waiters N n)) \<and>
     (\<forall>w n. nt_fired N w n \<longrightarrow> nt_fired N w (nt_notify_waiters N n)) \<and>
     (\<forall>w n n'. nt_enabled N w n \<longrightarrow> nt_poll N w n = (False, n') \<longrightarrow> nt_enabled N w n') \<and>
     (\<forall>w n. nt_fired N w n \<longrightarrow> nt_fired N w (nt_enable N w n)) \<and>
     (\<forall>v w n. v \<noteq> w \<longrightarrow> nt_enabled N w n \<longrightarrow>
        nt_enabled N w (nt_notified N v n) \<and> nt_enabled N w (nt_enable N v n) \<and>
        nt_enabled N w (snd (nt_poll N v n)) \<and> nt_enabled N w (nt_drop N v n)) \<and>
     (\<forall>v w n. v \<noteq> w \<longrightarrow> nt_fired N w n \<longrightarrow>
        nt_fired N w (nt_notified N v n) \<and> nt_fired N w (nt_enable N v n) \<and>
        nt_fired N w (snd (nt_poll N v n)) \<and> nt_fired N w (nt_drop N v n))"

lemma notify_lawD:
  assumes "notify_laws N"
  shows nt_enable_enabled: "nt_enabled N w (nt_enable N w n)"
    and nt_notify_fires: "nt_enabled N w n \<Longrightarrow> nt_fired N w (nt_notify_waiters N n)"
    and nt_fired_ready: "nt_fired N w n \<Longrightarrow> fst (nt_poll N w n)"
    and nt_notify_enabled: "nt_enabled N w n \<Longrightarrow> nt_enabled N w (nt_notify_waiters N n)"
    and nt_notify_fired: "nt_fired N w n \<Longrightarrow> nt_fired N w (nt_notify_waiters N n)"
    and nt_poll_enabled: "nt_enabled N w n \<Longrightarrow> nt_poll N w n = (False, n') \<Longrightarrow> nt_enabled N w n'"
    and nt_enable_fired: "nt_fired N w n \<Longrightarrow> nt_fired N w (nt_enable N w n)"
    and nt_other_enabled: "v \<noteq> w \<Longrightarrow> nt_enabled N w n \<Longrightarrow>
        nt_enabled N w (nt_notified N v n) \<and> nt_enabled N w (nt_enable N v n) \<and>
        nt_enabled N w (snd (nt_poll N v n)) \<and> nt_enabled N w (nt_drop N v n)"
    and nt_other_fired: "v \<noteq> w \<Longrightarrow> nt_fired N w n \<Longrightarrow>
        nt_fired N w (nt_notified N v n) \<and> nt_fired N w (nt_enable N v n) \<and>
        nt_fired N w (snd (nt_poll N v n)) \<and> nt_fired N w (nt_drop N v n)"
  using assms by (simp_all add: notify_laws_def)

section \<open>Channels that accept\<close>

text \<open>
  What the pool may rely on for a channel whose receiver is neither closed nor dropped: an
  unbounded channel refuses nothing. \<open>open_chan\<close> are the states reached without \<open>close\<close> and
  without dropping the receiver. The laws above do not state it; the theorems on exact reporting name it.
\<close>

inductive open_chan :: "('m, 'q) chan_ops \<Rightarrow> 'q \<Rightarrow> bool" for C where
  open_new: "open_chan C (ch_new C)"
| open_send: "open_chan C q \<Longrightarrow> open_chan C (snd (ch_send C m q))"
| open_recv: "open_chan C q \<Longrightarrow> open_chan C (snd (ch_recv C q))"
| open_clone: "open_chan C q \<Longrightarrow> open_chan C (ch_clone_tx C q)"
| open_drop: "open_chan C q \<Longrightarrow> open_chan C (ch_drop_tx C q)"

definition chan_accepts :: "('m, 'q) chan_ops \<Rightarrow> bool" where
  "chan_accepts C \<longleftrightarrow> (\<forall>q m. open_chan C q \<longrightarrow> fst (ch_send C m q))"

section \<open>Concrete instances\<close>

text \<open>
  One lawful instance of each interface, on which the witnesses are evaluated: a counting
  semaphore, a list with a closed flag and a sender count, an optional value, and two sets of futures.
\<close>

definition counting_sem :: "nat sem_ops" where
  "counting_sem = \<lparr>sem_new = (\<lambda>_ n. n),
     sem_poll_acquire = (\<lambda>_ s. if 0 < s then (True, s - 1) else (False, s)),
     sem_drop_acquire = (\<lambda>_ s. s),
     sem_try_acquire = (\<lambda>s. if 0 < s then Some (s - 1) else None),
     sem_release = (\<lambda>n s. s + n), sem_permits = (\<lambda>s. s)\<rparr>"

definition list_chan :: "('m, 'm list \<times> bool \<times> nat) chan_ops" where
  "list_chan = \<lparr>ch_new = ([], False, 1),
     ch_send = (\<lambda>m (q, c, k). if c then (False, (q, c, k)) else (True, (q @ [m], c, k))),
     ch_recv = (\<lambda>(q, c, k). case q of
        [] \<Rightarrow> (if c \<or> k = 0 then RecvDisconnected else RecvPending, (q, c, k))
      | m # q' \<Rightarrow> (RecvOk m, (q', c, k))),
     ch_close = (\<lambda>(q, c, k). (q, True, k)), ch_is_closed = (\<lambda>(q, c, k). c),
     ch_len = (\<lambda>(q, c, k). length q),
     ch_clone_tx = (\<lambda>(q, c, k). (q, c, Suc k)), ch_drop_tx = (\<lambda>(q, c, k). (q, c, k - 1)),
     ch_drop_rx = (\<lambda>(q, c, k). (q, ([], True, k))),
     ch_items = (\<lambda>(q, c, k). q), ch_senders = (\<lambda>(q, c, k). k)\<rparr>"

definition option_oneshot :: "('v, 'v option \<times> bool) oneshot_ops" where
  "option_oneshot = \<lparr>os_new = (None, True),
     os_send = (\<lambda>v _. (True, (Some v, False))),
     os_recv = (\<lambda>(x, b). case x of
        None \<Rightarrow> (if b then RecvPending else RecvDisconnected, (x, b))
      | Some v \<Rightarrow> (RecvOk v, (x, b))),
     os_drop_tx = (\<lambda>(x, b). (x, False)), os_drop_rx = id, os_value = fst\<rparr>"

definition set_notify :: "(nat set \<times> nat set) notify_ops" where
  "set_notify = \<lparr>nt_new = ({}, {}),
     nt_notified = (\<lambda>w (e, f). (e - {w}, f - {w})),
     nt_enable = (\<lambda>w (e, f). (insert w e, f)),
     nt_poll = (\<lambda>w (e, f). (w \<in> f, (e, f))),
     nt_drop = (\<lambda>w (e, f). (e - {w}, f - {w})),
     nt_notify_waiters = (\<lambda>(e, f). (e, f \<union> e)),
     nt_enabled = (\<lambda>w (e, f). w \<in> e), nt_fired = (\<lambda>w (e, f). w \<in> f)\<rparr>"

lemma counting_sem_laws [law_simps]: "sem_laws counting_sem"
  by (auto simp: sem_laws_def counting_sem_def split: if_splits)

lemma list_chan_laws [law_simps]: "chan_laws list_chan"
  unfolding chan_laws_def split_paired_All
  by (intro conjI allI; simp add: list_chan_def split: list.split)

lemma list_chan_open: "open_chan list_chan q \<Longrightarrow> \<not> fst (snd q)"
  by (induction rule: open_chan.induct) (auto simp: list_chan_def split: prod.splits list.splits if_splits)

lemma list_chan_accepts: "chan_accepts list_chan"
  unfolding chan_accepts_def
proof (intro allI impI)
  fix q :: "'a list \<times> bool \<times> nat" and m
  assume "open_chan list_chan q"
  then have "\<not> fst (snd q)" by (rule list_chan_open)
  then show "fst (ch_send list_chan m q)" by (cases q) (simp add: list_chan_def)
qed

lemma option_oneshot_laws [law_simps]: "oneshot_laws option_oneshot"
  by (auto simp: oneshot_laws_def option_oneshot_def split: option.splits)

lemma option_oneshot_resolves: "oneshot_resolves option_oneshot"
  by (auto simp: oneshot_resolves_def os_settled_def option_oneshot_def split: option.splits)

lemma set_notify_laws [law_simps]: "notify_laws set_notify"
  by (auto simp: notify_laws_def set_notify_def)

end
