(* ===== verification/Token.thy ===== *)
theory Token
  imports Externals
begin

text \<open>
  \<open>token.rs\<close>: \<open>CancelState\<close> with its two flags, and the future \<open>CancelState::cancelled\<close>.
  The future's loop is a program counter per waiter, one step per shared access of the
  source, so that every interleaving with \<open>cancel\<close> (a store, then \<open>notify_waiters\<close>) is a run.
  The development shows that no interleaving loses a wakeup. \<open>CancellationToken\<close> is an
  \<open>Arc\<close> of the same state and delegates every operation to it.
\<close>

section \<open>The state and its atomic operations\<close>

record 'n cancel_state =
  cancelled :: bool
  finished :: bool
  notify :: 'n

definition cancel_state_new :: "'n notify_ops \<Rightarrow> 'n cancel_state" where
  "cancel_state_new N = \<lparr>cancelled = False, finished = False, notify = nt_new N\<rparr>"

definition is_cancelled :: "'n cancel_state \<Rightarrow> bool" where
  "is_cancelled c = cancelled c"

definition is_finished :: "'n cancel_state \<Rightarrow> bool" where
  "is_finished c = finished c"

definition mark_finished :: "'n cancel_state \<Rightarrow> 'n cancel_state" where
  "mark_finished c = c\<lparr>finished := True\<rparr>"

text \<open>\<open>cancel\<close> as its two halves, and as a whole.\<close>

definition cancel_store :: "'n cancel_state \<Rightarrow> 'n cancel_state" where
  "cancel_store c = c\<lparr>cancelled := True\<rparr>"

definition cancel_notify :: "'n notify_ops \<Rightarrow> 'n cancel_state \<Rightarrow> 'n cancel_state" where
  "cancel_notify N c = c\<lparr>notify := nt_notify_waiters N (notify c)\<rparr>"

definition cancel :: "'n notify_ops \<Rightarrow> 'n cancel_state \<Rightarrow> 'n cancel_state" where
  "cancel N c = cancel_notify N (cancel_store c)"

lemmas cancel_state_defs = cancel_state_new_def is_cancelled_def is_finished_def
  mark_finished_def cancel_store_def cancel_notify_def cancel_def

lemma cancel_state_simps [simp]:
  "\<not> is_cancelled (cancel_state_new N)" "\<not> is_finished (cancel_state_new N)"
  "is_cancelled (cancel N c)" "is_finished (cancel N c) = is_finished c"
  "is_cancelled (mark_finished c) = is_cancelled c" "is_finished (mark_finished c)"
  by (simp_all add: cancel_state_defs)

section \<open>The future \<open>cancelled()\<close>\<close>

datatype waiter_pc =
    WCheckFirst   \<comment> \<open>about to read the flag at the top of the loop\<close>
  | WCreate       \<comment> \<open>about to create the \<open>Notified\<close> future\<close>
  | WEnable       \<comment> \<open>about to register it\<close>
  | WCheckSecond  \<comment> \<open>registered, about to read the flag again\<close>
  | WAwait        \<comment> \<open>awaiting the notification\<close>
  | WResolved     \<comment> \<open>returned\<close>
  | WDropped      \<comment> \<open>dropped by a \<open>select!\<close>\<close>

fun waiter_step ::
  "'n notify_ops \<Rightarrow> nat \<Rightarrow> 'n cancel_state \<Rightarrow> waiter_pc \<Rightarrow> ('n cancel_state \<times> waiter_pc) option" where
  "waiter_step N w c WCheckFirst = Some (c, if is_cancelled c then WResolved else WCreate)"
| "waiter_step N w c WCreate = Some (c\<lparr>notify := nt_notified N w (notify c)\<rparr>, WEnable)"
| "waiter_step N w c WEnable = Some (c\<lparr>notify := nt_enable N w (notify c)\<rparr>, WCheckSecond)"
| "waiter_step N w c WCheckSecond =
     (if is_cancelled c then Some (c\<lparr>notify := nt_drop N w (notify c)\<rparr>, WResolved)
      else Some (c, WAwait))"
| "waiter_step N w c WAwait =
     (case nt_poll N w (notify c) of
        (True, n) \<Rightarrow> Some (c\<lparr>notify := nt_drop N w n\<rparr>, WCheckFirst)
      | (False, n) \<Rightarrow> Some (c\<lparr>notify := n\<rparr>, WAwait))"
| "waiter_step N w c WResolved = None"
| "waiter_step N w c WDropped = None"

datatype canceller_pc = CStore | CNotify | CDone

fun canceller_step ::
  "'n notify_ops \<Rightarrow> 'n cancel_state \<Rightarrow> canceller_pc \<Rightarrow> ('n cancel_state \<times> canceller_pc) option" where
  "canceller_step N c CStore = Some (cancel_store c, CNotify)"
| "canceller_step N c CNotify = Some (cancel_notify N c, CDone)"
| "canceller_step N c CDone = None"

section \<open>Any number of waiters and cancellers\<close>

record 'n token_sys =
  tok :: "'n cancel_state"
  waiters :: "waiter_pc list"
  cancellers :: "canceller_pc list"

datatype token_event =
    NewWaiter | StepWaiter nat | DropWaiter nat | NewCanceller | StepCanceller nat | MarkFinished

definition token_init :: "'n notify_ops \<Rightarrow> 'n token_sys \<Rightarrow> bool" where
  "token_init N s \<longleftrightarrow> s = \<lparr>tok = cancel_state_new N, waiters = [], cancellers = []\<rparr>"

fun token_step :: "'n notify_ops \<Rightarrow> token_event \<Rightarrow> 'n token_sys \<Rightarrow> 'n token_sys option" where
  "token_step N NewWaiter s = Some (s\<lparr>waiters := waiters s @ [WCheckFirst]\<rparr>)"
| "token_step N (StepWaiter w) s =
     (if w < length (waiters s) then
        (case waiter_step N w (tok s) (waiters s ! w) of
           None \<Rightarrow> None
         | Some (c, pc) \<Rightarrow> Some (s\<lparr>tok := c, waiters := (waiters s)[w := pc]\<rparr>))
      else None)"
| "token_step N (DropWaiter w) s =
     (if w < length (waiters s) \<and> waiters s ! w \<noteq> WResolved then
        Some (s\<lparr>tok := (tok s)\<lparr>notify := nt_drop N w (notify (tok s))\<rparr>,
                waiters := (waiters s)[w := WDropped]\<rparr>)
      else None)"
| "token_step N NewCanceller s = Some (s\<lparr>cancellers := cancellers s @ [CStore]\<rparr>)"
| "token_step N (StepCanceller i) s =
     (if i < length (cancellers s) then
        (case canceller_step N (tok s) (cancellers s ! i) of
           None \<Rightarrow> None
         | Some (c, pc) \<Rightarrow> Some (s\<lparr>tok := c, cancellers := (cancellers s)[i := pc]\<rparr>))
      else None)"
| "token_step N MarkFinished s = Some (s\<lparr>tok := mark_finished (tok s)\<rparr>)"

fun_cases token_step_NewWaiterE: "token_step N NewWaiter s = Some t"
fun_cases token_step_StepWaiterE: "token_step N (StepWaiter w) s = Some t"
fun_cases token_step_StepCancellerE: "token_step N (StepCanceller i) s = Some t"

section \<open>No wakeup is lost\<close>

text \<open>
  What a waiter may rely on at each point: once registered it is enabled, and while it
  awaits with the flag already set, it has been fired or a canceller is still about to
  call \<open>notify_waiters\<close>.
\<close>

definition waiter_ok ::
  "'n notify_ops \<Rightarrow> nat \<Rightarrow> 'n cancel_state \<Rightarrow> bool \<Rightarrow> waiter_pc \<Rightarrow> bool" where
  "waiter_ok N w c notifying pc \<longleftrightarrow>
     (case pc of
        WCheckSecond \<Rightarrow> nt_enabled N w (notify c)
      | WAwait \<Rightarrow>
          (nt_enabled N w (notify c) \<or> nt_fired N w (notify c)) \<and>
          (cancelled c \<longrightarrow> nt_fired N w (notify c) \<or> notifying)
      | WResolved \<Rightarrow> cancelled c
      | _ \<Rightarrow> True)"

definition token_inv :: "'n notify_ops \<Rightarrow> 'n token_sys \<Rightarrow> bool" where
  "token_inv N s \<longleftrightarrow>
     (\<forall>w < length (waiters s). waiter_ok N w (tok s) (CNotify \<in> set (cancellers s)) (waiters s ! w)) \<and>
     (\<forall>pc \<in> set (cancellers s). pc \<noteq> CStore \<longrightarrow> cancelled (tok s))"

lemma waiter_step_flag: "waiter_step N v c pc = Some (c', pc') \<Longrightarrow> cancelled c' = cancelled c"
  by (cases pc) (auto split: if_splits prod.splits bool.splits)

lemma waiter_step_other:
  assumes "notify_laws N" "waiter_step N v c pc = Some (c', pc')" "v \<noteq> w"
  shows "nt_enabled N w (notify c) \<Longrightarrow> nt_enabled N w (notify c')"
    and "nt_fired N w (notify c) \<Longrightarrow> nt_fired N w (notify c')"
proof -
  obtain b n where p: "nt_poll N v (notify c) = (b, n)" by (cases "nt_poll N v (notify c)")
  note oe = nt_other_enabled [OF assms(1,3), of "notify c"] nt_other_enabled [OF assms(1,3), of n]
    and of = nt_other_fired [OF assms(1,3), of "notify c"] nt_other_fired [OF assms(1,3), of n]
  show "nt_enabled N w (notify c) \<Longrightarrow> nt_enabled N w (notify c')"
    using assms(2) oe p by (cases pc) (auto split: if_splits bool.splits)
  show "nt_fired N w (notify c) \<Longrightarrow> nt_fired N w (notify c')"
    using assms(2) of p by (cases pc) (auto split: if_splits bool.splits)
qed

lemma waiter_ok_other:
  assumes "notify_laws N" "waiter_step N v c pc = Some (c', pc')" "v \<noteq> w"
    and "waiter_ok N w c b q"
  shows "waiter_ok N w c' b q"
  using assms(4) waiter_step_flag [OF assms(2)] waiter_step_other [OF assms(1-3)]
  by (auto simp: waiter_ok_def split: waiter_pc.splits)

lemma waiter_ok_self:
  assumes N: "notify_laws N" and st: "waiter_step N w c pc = Some (c', pc')"
    and ok: "waiter_ok N w c b pc"
  shows "waiter_ok N w c' b pc'"
proof (cases pc)
  case WAwait
  show ?thesis
    using st ok WAwait nt_fired_ready [OF N, of w "notify c"]
      nt_poll_enabled [OF N, of w "notify c"]
    by (auto simp: waiter_ok_def split: prod.splits bool.splits)
qed (use st ok nt_enable_enabled [OF N] in
      \<open>auto simp: waiter_ok_def is_cancelled_def split: if_splits\<close>)

lemma canceller_step_cases:
  assumes "canceller_step N c pc = Some (c', pc')"
  obtains "pc = CStore" "c' = cancel_store c" "pc' = CNotify"
    | "pc = CNotify" "c' = cancel_notify N c" "pc' = CDone"
  using assms by (cases pc) auto

lemma waiter_ok_store: "waiter_ok N w c b pc \<Longrightarrow> waiter_ok N w (cancel_store c) True pc"
  by (auto simp: waiter_ok_def cancel_store_def split: waiter_pc.splits)

lemma waiter_ok_notify:
  assumes N: "notify_laws N" and ok: "waiter_ok N w c b pc"
  shows "waiter_ok N w (cancel_notify N c) b' pc"
  using ok nt_notify_fires [OF N, of w "notify c"] nt_notify_enabled [OF N, of w "notify c"]
    nt_notify_fired [OF N, of w "notify c"]
  by (auto simp: waiter_ok_def cancel_notify_def split: waiter_pc.splits)

lemma waiter_ok_drop_other:
  assumes N: "notify_laws N" and ok: "waiter_ok N w c b pc" and vw: "v \<noteq> w"
  shows "waiter_ok N w (c\<lparr>notify := nt_drop N v (notify c)\<rparr>) b pc"
  using ok nt_other_enabled [OF N vw, of "notify c"] nt_other_fired [OF N vw, of "notify c"]
  by (auto simp: waiter_ok_def split: waiter_pc.splits)

lemma waiter_ok_trivial [simp]:
  "waiter_ok N w c b WDropped" "waiter_ok N w c b WCheckFirst"
  by (simp_all add: waiter_ok_def)

lemma waiter_ok_finished [simp]: "waiter_ok N w (mark_finished c) b pc = waiter_ok N w c b pc"
  by (auto simp: waiter_ok_def mark_finished_def split: waiter_pc.splits)

lemma canceller_step_inv:
  assumes N: "notify_laws N" and inv: "token_inv N s" and i: "i < length (cancellers s)"
    and cs: "canceller_step N (tok s) (cancellers s ! i) = Some (c, pc)"
  shows "token_inv N (s\<lparr>tok := c, cancellers := (cancellers s)[i := pc]\<rparr>)"
  using cs
proof (cases rule: canceller_step_cases)
  case 1
  have "CNotify \<in> set ((cancellers s)[i := CNotify])" using i by (rule set_update_memI)
  then show ?thesis using inv 1
    by (auto simp: token_inv_def cancel_store_def intro: waiter_ok_store [unfolded cancel_store_def])
next
  case 2
  have "CNotify \<in> set (cancellers s)" using i 2(1) nth_mem [OF i] by simp
  then have "cancelled (tok s)" using inv by (auto simp: token_inv_def)
  then show ?thesis using inv 2
    by (auto simp: token_inv_def cancel_notify_def intro: waiter_ok_notify [OF N, unfolded cancel_notify_def])
qed

lemma token_step_inv:
  assumes N: "notify_laws N" and inv: "token_inv N s" and st: "token_step N e s = Some t"
  shows "token_inv N t"
proof (cases e)
  case NewWaiter
  then show ?thesis using st inv by (auto simp: token_inv_def nth_append less_Suc_eq)
next
  case (StepWaiter v)
  with st obtain c pc where v: "v < length (waiters s)"
    and ws: "waiter_step N v (tok s) (waiters s ! v) = Some (c, pc)"
    and t: "t = s\<lparr>tok := c, waiters := (waiters s)[v := pc]\<rparr>"
    by (auto split: if_splits option.splits)
  show ?thesis using inv v waiter_ok_self [OF N ws] waiter_ok_other [OF N ws]
      waiter_step_flag [OF ws]
    by (auto simp: t token_inv_def nth_list_update)
next
  case (DropWaiter v)
  then show ?thesis using st inv waiter_ok_drop_other [OF N]
    by (auto simp: token_inv_def nth_list_update split: if_splits)
next
  case NewCanceller
  then show ?thesis using st inv by (auto simp: token_inv_def)
next
  case (StepCanceller i)
  then show ?thesis using st canceller_step_inv [OF N inv]
    by (auto split: if_splits option.splits)
next
  case MarkFinished
  then show ?thesis using st inv by (auto simp: token_inv_def) (auto simp: mark_finished_def)
qed

interpretation token: invariant "token_init N" "token_step N"
  "\<lambda>s. notify_laws N \<longrightarrow> token_inv N s" for N
proof unfold_locales
  show "token_init N p \<Longrightarrow> notify_laws N \<longrightarrow> token_inv N p" for p
    by (simp add: token_init_def token_inv_def)
  show "notify_laws N \<longrightarrow> token_inv N p \<Longrightarrow> token_step N e p = Some q \<Longrightarrow>
      notify_laws N \<longrightarrow> token_inv N q" for p e q
    by (blast intro: token_step_inv)
qed


section \<open>A cancelled token resolves every waiter\<close>

text \<open>The number of its own steps a waiter still needs once the flag is set.\<close>

fun waiter_rank :: "waiter_pc \<Rightarrow> nat" where
  "waiter_rank WCreate = 3"
| "waiter_rank WEnable = 2"
| "waiter_rank WAwait = 2"
| "waiter_rank WCheckFirst = 1"
| "waiter_rank WCheckSecond = 1"
| "waiter_rank WResolved = 0"
| "waiter_rank WDropped = 0"

text \<open>The flag is set, and a waiter that awaits has already been fired.\<close>

definition settled :: "'n notify_ops \<Rightarrow> nat \<Rightarrow> 'n token_sys \<Rightarrow> bool" where
  "settled N w s \<longleftrightarrow>
     cancelled (tok s) \<and> w < length (waiters s) \<and> waiters s ! w \<noteq> WDropped \<and>
     (waiters s ! w = WAwait \<longrightarrow> nt_fired N w (notify (tok s)))"

lemma token_inv_settled:
  "token_inv N s \<Longrightarrow> cancelled (tok s) \<Longrightarrow> CNotify \<notin> set (cancellers s) \<Longrightarrow>
     w < length (waiters s) \<Longrightarrow> waiters s ! w \<noteq> WDropped \<Longrightarrow> settled N w s"
  by (fastforce simp: settled_def token_inv_def waiter_ok_def)

lemma settled_progress:
  assumes "notify_laws N" "settled N w s" "waiters s ! w \<noteq> WResolved"
  shows "\<exists>t. token_step N (StepWaiter w) s = Some t"
  using assms nt_fired_ready [OF assms(1), of w "notify (tok s)"]
  by (cases "waiters s ! w") (auto simp: settled_def split: prod.splits bool.splits)

lemma settled_step_self:
  assumes N: "notify_laws N" and s: "settled N w s" and st: "token_step N (StepWaiter w) s = Some t"
  shows "settled N w t \<and> waiter_rank (waiters t ! w) < waiter_rank (waiters s ! w)"
proof (cases "waiters s ! w")
  case WAwait
  with s have "fst (nt_poll N w (notify (tok s)))"
    by (auto simp: settled_def intro: nt_fired_ready [OF N])
  with WAwait s st show ?thesis
    by (auto simp: settled_def split: prod.splits bool.splits)
qed (use s st in \<open>auto simp: settled_def is_cancelled_def\<close>)

lemma settled_step_other:
  assumes N: "notify_laws N" and s: "settled N w s" and st: "token_step N e s = Some t"
    and e: "e \<noteq> StepWaiter w" "e \<noteq> DropWaiter w"
  shows "settled N w t \<and> waiters t ! w = waiters s ! w"
proof (cases e)
  case (StepWaiter v)
  with st obtain c pc where ws: "waiter_step N v (tok s) (waiters s ! v) = Some (c, pc)"
    and t: "t = s\<lparr>tok := c, waiters := (waiters s)[v := pc]\<rparr>"
    by (auto split: if_splits option.splits)
  show ?thesis
    using StepWaiter e(1) s waiter_step_flag [OF ws] waiter_step_other(2) [OF N ws, of w]
    by (auto simp: t settled_def)
next
  case (DropWaiter v)
  with st s e(2) show ?thesis using nt_other_fired [OF N, of v w "notify (tok s)"]
    by (auto simp: settled_def split: if_splits)
next
  case (StepCanceller i)
  with st obtain c pc where cs: "canceller_step N (tok s) (cancellers s ! i) = Some (c, pc)"
    and t: "t = s\<lparr>tok := c, cancellers := (cancellers s)[i := pc]\<rparr>"
    by (auto split: if_splits option.splits)
  from cs show ?thesis using s nt_notify_fired [OF N, of w "notify (tok s)"]
    by (cases rule: canceller_step_cases)
      (auto simp: t settled_def cancel_store_def cancel_notify_def)
qed (use st s in \<open>auto simp: settled_def nth_append mark_finished_def\<close>)

lemma settled_run:
  assumes "notify_laws N" "settled N w s" "run (token_step N) es s = Some t"
    and "DropWaiter w \<notin> set es"
  shows "settled N w t \<and>
     waiter_rank (waiters t ! w) + count_list es (StepWaiter w) \<le> waiter_rank (waiters s ! w)"
  using assms(2-4)
proof (induction es arbitrary: s)
  case Nil
  then show ?case by simp
next
  case (Cons e es)
  then obtain u where u: "token_step N e s = Some u" "run (token_step N) es u = Some t"
    by (auto split: option.splits)
  show ?case
  proof (cases "e = StepWaiter w")
    case True
    with settled_step_self [OF assms(1) Cons.prems(1)] u Cons.IH [of u] Cons.prems(3)
    show ?thesis by fastforce
  next
    case False
    with settled_step_other [OF assms(1) Cons.prems(1) u(1)] u Cons.IH [of u] Cons.prems(3)
    show ?thesis by auto
  qed
qed

lemma waiter_rank_le: "waiter_rank pc \<le> 3"
  by (cases pc) auto

lemma waiter_rank_zero: "waiter_rank pc = 0 \<longleftrightarrow> pc = WResolved \<or> pc = WDropped"
  by (cases pc) auto

section \<open>Properties\<close>

text \<open>
  C5. No wakeup is lost. From any reachable state in which the flag is set and no caller of
  \<open>cancel\<close> is between its store and its \<open>notify_waiters\<close>, a future \<open>cancelled()\<close> that is not
  dropped takes at most three more steps of its own, whatever the other waiters and
  cancellers do in between, and until it has resolved its next step is enabled.
\<close>

theorem cancelled_never_hangs:
  assumes "notify_laws N" "reach (token_init N) (token_step N) s"
    and "cancelled (tok s)" "CNotify \<notin> set (cancellers s)"
    and "w < length (waiters s)" "waiters s ! w \<noteq> WDropped"
    and "run (token_step N) es s = Some t" "DropWaiter w \<notin> set es"
  shows "count_list es (StepWaiter w) \<le> 3 \<and>
    (waiters t ! w = WResolved \<or> (\<exists>u. token_step N (StepWaiter w) t = Some u)) \<and>
    (count_list es (StepWaiter w) = 3 \<longrightarrow> waiters t ! w = WResolved)"
proof -
  have "token_inv N s" using token.reach_inv [OF assms(2)] assms(1) by blast
  then have s: "settled N w s" using assms(3-6) by (rule token_inv_settled)
  from settled_run [OF assms(1) s assms(7,8)]
  have t: "settled N w t"
    and r: "waiter_rank (waiters t ! w) + count_list es (StepWaiter w) \<le> 3"
    using waiter_rank_le [of "waiters s ! w"] by auto
  show ?thesis
    using r settled_progress [OF assms(1) t] waiter_rank_zero [of "waiters t ! w"] t
    by (auto simp: settled_def)
qed

lemma cancelled_never_hangs_witness:
  "\<exists>s t. reach (token_init set_notify) (token_step set_notify) s \<and> waiters s ! 0 = WAwait \<and>
     run (token_step set_notify) [StepWaiter 0, NewCanceller, StepWaiter 0] s = Some t \<and>
     waiters t ! 0 = WResolved"
proof -
  let ?p = "\<lparr>tok = cancel_state_new set_notify, waiters = [], cancellers = []\<rparr>"
  let ?es = "[NewWaiter, StepWaiter 0, StepWaiter 0, StepWaiter 0, StepWaiter 0,
              NewCanceller, StepCanceller 0, StepCanceller 0]"
  let ?s = "\<lparr>tok = \<lparr>cancelled = True, finished = False, notify = ({0::nat}, {0})\<rparr>,
             waiters = [WAwait], cancellers = [CDone]\<rparr>"
  let ?t = "\<lparr>tok = \<lparr>cancelled = True, finished = False, notify = ({}, {})\<rparr>,
             waiters = [WResolved], cancellers = [CDone, CStore]\<rparr>"
  have "run (token_step set_notify) ?es ?p = Some ?s"
    by (simp add: set_notify_def cancel_state_defs)
  then have s: "reach (token_init set_notify) (token_step set_notify) ?s"
    by (rule reach_run [OF reach_init, rotated]) (simp add: token_init_def)
  have t: "run (token_step set_notify) [StepWaiter 0, NewCanceller, StepWaiter 0] ?s = Some ?t"
    by (simp add: set_notify_def cancel_state_defs)
  have "waiters ?t ! 0 = WResolved \<or> (\<exists>u. token_step set_notify (StepWaiter 0) ?t = Some u)"
    using cancelled_never_hangs [OF set_notify_laws s _ _ _ _ t, of 0] by simp
  then show ?thesis using s t by (intro exI [of _ ?s] exI [of _ ?t]) simp
qed

text \<open>
  The future \<open>cancelled()\<close> resolves only if the token has been cancelled, so no
  \<open>select!\<close> of the pool takes a cancellation arm spuriously.
\<close>

theorem cancelled_resolves_only_if_set:
  assumes "notify_laws N" "reach (token_init N) (token_step N) s"
    and "w < length (waiters s)" "waiters s ! w = WResolved"
  shows "is_cancelled (tok s)"
  using token.reach_inv [OF assms(2)] assms(1,3,4)
  by (auto simp: token_inv_def waiter_ok_def is_cancelled_def)

lemma cancelled_resolves_only_if_set_witness:
  "\<exists>s. reach (token_init set_notify) (token_step set_notify) s \<and> waiters s ! 0 = WResolved \<and>
     is_cancelled (tok s)"
proof -
  let ?p = "\<lparr>tok = cancel_state_new set_notify, waiters = [], cancellers = []\<rparr>"
  let ?es = "[NewCanceller, StepCanceller 0, NewWaiter, StepWaiter 0]"
  let ?s = "\<lparr>tok = \<lparr>cancelled = True, finished = False, notify = ({}, {})\<rparr>,
             waiters = [WResolved], cancellers = [CNotify]\<rparr>"
  have "run (token_step set_notify) ?es ?p = Some ?s"
    by (simp add: set_notify_def cancel_state_defs)
  then have s: "reach (token_init set_notify) (token_step set_notify) ?s"
    by (rule reach_run [OF reach_init, rotated]) (simp add: token_init_def)
  from cancelled_resolves_only_if_set [OF set_notify_laws s, of 0] s show ?thesis by auto
qed

end
