(* ===== verification/Errors.thy ===== *)
theory Errors
  imports Prelude
begin

text \<open>
  \<open>error.rs\<close>, and \<open>TaskCompletionStatus\<close> of \<open>notifier.rs\<close> with its conversion from a task's
  result. A Rust \<open>Result<R, PoolError>\<close> is the sum \<open>pool_error + 'r\<close>, \<open>Inl\<close> for \<open>Err\<close>.
\<close>

datatype pool_error =
    ResultChannelError string
  | ResultUnavailable
  | SemaphoreClosed
  | QueueSendChannelClosed
  | QueueReceiveChannelClosed
  | TaskPanicked
  | TaskCancelled
  | PoolShuttingDown

type_synonym 'r task_result = "pool_error + 'r"

datatype task_completion_status = Success | Cancelled | Panicked | PoolErrorOccurred

fun status_from :: "'r task_result \<Rightarrow> task_completion_status" where
  "status_from (Inr _) = Success"
| "status_from (Inl TaskCancelled) = Cancelled"
| "status_from (Inl TaskPanicked) = Panicked"
| "status_from (Inl _) = PoolErrorOccurred"

lemma status_from_Success_iff: "status_from res = Success \<longleftrightarrow> (\<exists>v. res = Inr v)"
  by (cases res rule: status_from.cases) auto

lemma status_from_Cancelled_iff: "status_from res = Cancelled \<longleftrightarrow> res = Inl TaskCancelled"
  by (cases res rule: status_from.cases) auto

lemma status_from_Panicked_iff: "status_from res = Panicked \<longleftrightarrow> res = Inl TaskPanicked"
  by (cases res rule: status_from.cases) auto

lemmas status_from_iffs =
  status_from_Success_iff status_from_Cancelled_iff status_from_Panicked_iff

text \<open>The outcomes a run of a task can have: a value, a cancellation or a panic.\<close>

definition task_outcome :: "'r task_result \<Rightarrow> bool" where
  "task_outcome res \<longleftrightarrow> (case res of Inr _ \<Rightarrow> True | Inl e \<Rightarrow> e = TaskCancelled \<or> e = TaskPanicked)"

lemma task_outcome_simps [simp]:
  "task_outcome (Inr v)" "task_outcome (Inl TaskCancelled)" "task_outcome (Inl TaskPanicked)"
  by (simp_all add: task_outcome_def)

lemma task_outcome_status: "task_outcome res \<Longrightarrow> status_from res \<noteq> PoolErrorOccurred"
  by (cases res rule: status_from.cases) (auto simp: task_outcome_def)

end
