(* ===== verification/Task.thy ===== *)
theory Task
  imports Token Errors
begin

text \<open>
  \<open>task.rs\<close>: the control block \<open>TaskCore\<close> of a task, its submitted future and
  \<open>ManagedTaskInternal\<close>. An \<open>Arc<TaskCore>\<close> is shared by the handle, the running task and the
  registry, so the cores live in a heap (a list) and every owner holds an index into it;
  a write through one owner is seen by all. The heap only grows: the address of a core is
  the number of cores allocated before it.
\<close>

type_synonym task_label = string
type_synonym core_ref = nat

section \<open>Futures\<close>

text \<open>
  A submitted future is an arbitrary trait object. All the pool observes of it is what its
  polls return: the \<open>k\<close>-th poll is pending, ready with a value, or panics.
\<close>

datatype 'r poll = Pending | Ready 'r | Panics

type_synonym 'r task_to_execute = "nat \<Rightarrow> 'r poll"

section \<open>The control block\<close>

record 'n task_core =
  task_id :: u64
  core_state :: "'n cancel_state"
  labels :: "task_label set"

type_synonym 'n heap = "'n task_core list"

definition core_new :: "'n notify_ops \<Rightarrow> u64 \<Rightarrow> task_label set \<Rightarrow> 'n task_core" where
  "core_new N i ls = \<lparr>task_id = i, core_state = cancel_state_new N, labels = ls\<rparr>"

definition core_is_cancelled :: "'n task_core \<Rightarrow> bool" where
  "core_is_cancelled c = is_cancelled (core_state c)"

definition core_is_finished :: "'n task_core \<Rightarrow> bool" where
  "core_is_finished c = is_finished (core_state c)"

definition core_cancel :: "'n notify_ops \<Rightarrow> 'n task_core \<Rightarrow> 'n task_core" where
  "core_cancel N c = c\<lparr>core_state := cancel N (core_state c)\<rparr>"

definition core_mark_finished :: "'n task_core \<Rightarrow> 'n task_core" where
  "core_mark_finished c = c\<lparr>core_state := mark_finished (core_state c)\<rparr>"

lemma core_simps [simp]:
  "task_id (core_new N i ls) = i" "labels (core_new N i ls) = ls"
  "\<not> core_is_cancelled (core_new N i ls)" "\<not> core_is_finished (core_new N i ls)"
  "task_id (core_cancel N c) = task_id c" "labels (core_cancel N c) = labels c"
  "core_is_cancelled (core_cancel N c)" "core_is_finished (core_cancel N c) = core_is_finished c"
  "task_id (core_mark_finished c) = task_id c" "labels (core_mark_finished c) = labels c"
  "core_is_cancelled (core_mark_finished c) = core_is_cancelled c"
  "core_is_finished (core_mark_finished c)"
  by (simp_all add: core_new_def core_is_cancelled_def core_is_finished_def core_cancel_def
      core_mark_finished_def)

section \<open>Writes through a shared reference\<close>

definition heap_cancel :: "'n notify_ops \<Rightarrow> core_ref \<Rightarrow> 'n heap \<Rightarrow> 'n heap" where
  "heap_cancel N r h = h[r := core_cancel N (h ! r)]"

definition heap_mark_finished :: "core_ref \<Rightarrow> 'n heap \<Rightarrow> 'n heap" where
  "heap_mark_finished r h = h[r := core_mark_finished (h ! r)]"

text \<open>\<open>for core in cores { core.cancel(); }\<close>\<close>

fun cancel_all :: "'n notify_ops \<Rightarrow> core_ref list \<Rightarrow> 'n heap \<Rightarrow> 'n heap" where
  "cancel_all N [] h = h"
| "cancel_all N (r # rs) h = cancel_all N rs (heap_cancel N r h)"

lemma length_heap_writes [simp]:
  "length (heap_cancel N r h) = length h" "length (heap_mark_finished r h) = length h"
  by (simp_all add: heap_cancel_def heap_mark_finished_def)

lemma length_cancel_all [simp]: "length (cancel_all N rs h) = length h"
  by (induction rs arbitrary: h) auto

lemma heap_cancel_nth:
  "i < length h \<Longrightarrow> heap_cancel N r h ! i = (if i = r then core_cancel N (h ! i) else h ! i)"
  by (cases "r = i") (simp_all add: heap_cancel_def)

lemma heap_cancel_fields [simp]:
  assumes "i < length h"
  shows "task_id (heap_cancel N r h ! i) = task_id (h ! i)"
    and "labels (heap_cancel N r h ! i) = labels (h ! i)"
    and "core_is_cancelled (heap_cancel N r h ! i) \<longleftrightarrow> core_is_cancelled (h ! i) \<or> i = r"
    and "core_is_finished (heap_cancel N r h ! i) = core_is_finished (h ! i)"
  using assms by (auto simp: heap_cancel_nth)

lemma heap_mark_finished_fields [simp]:
  assumes "i < length h"
  shows "task_id (heap_mark_finished r h ! i) = task_id (h ! i)"
    and "labels (heap_mark_finished r h ! i) = labels (h ! i)"
    and "core_is_cancelled (heap_mark_finished r h ! i) = core_is_cancelled (h ! i)"
    and "core_is_finished (heap_mark_finished r h ! i) \<longleftrightarrow> core_is_finished (h ! i) \<or> i = r"
  using assms by (cases "r = i"; simp add: heap_mark_finished_def)+

lemma cancel_all_fields [simp]:
  assumes "i < length h"
  shows "task_id (cancel_all N rs h ! i) = task_id (h ! i)"
    and "labels (cancel_all N rs h ! i) = labels (h ! i)"
    and "core_is_cancelled (cancel_all N rs h ! i) \<longleftrightarrow> core_is_cancelled (h ! i) \<or> i \<in> set rs"
    and "core_is_finished (cancel_all N rs h ! i) = core_is_finished (h ! i)"
  using assms by (induction rs arbitrary: h) auto

section \<open>Managed tasks and their outcome\<close>

record 'r managed_task =
  mt_core :: core_ref
  mt_future :: "'r task_to_execute"

text \<open>
  \<open>result_sender\<close> is the sending half of the task's oneshot. Every task is created with
  one, and the oneshots are kept in a list indexed like the heap, so \<open>mt_core\<close> names it.

  \<open>AssertUnwindSafe(future).catch_unwind()\<close> turns a panic of a poll into an \<open>Err\<close>.
\<close>

fun catch_unwind :: "'r poll \<Rightarrow> (unit + 'r) option" where
  "catch_unwind Pending = None"
| "catch_unwind (Ready v) = Some (Inr v)"
| "catch_unwind Panics = Some (Inl ())"

text \<open>
  The body of the productive arm of the execution \<open>select!\<close>, the same in both managers: a
  task that finished although it was cancelled counts as cancelled.
\<close>

fun ready_outcome :: "bool \<Rightarrow> unit + 'r \<Rightarrow> 'r task_result" where
  "ready_outcome True _ = Inl TaskCancelled"
| "ready_outcome False (Inr v) = Inr v"
| "ready_outcome False (Inl _) = Inl TaskPanicked"

lemma ready_outcome_ok [simp]: "task_outcome (ready_outcome c p)"
  by (cases "(c, p)" rule: ready_outcome.cases) auto

lemma ready_outcome_Inr: "ready_outcome c p = Inr v \<longleftrightarrow> \<not> c \<and> p = Inr v"
  by (cases "(c, p)" rule: ready_outcome.cases) auto

lemma ready_outcome_cancelled: "ready_outcome c p = Inl TaskCancelled \<longleftrightarrow> c"
  by (cases "(c, p)" rule: ready_outcome.cases) auto

lemma ready_outcome_panicked: "ready_outcome c p = Inl TaskPanicked \<longleftrightarrow> \<not> c \<and> p = Inl ()"
  by (cases "(c, p)" rule: ready_outcome.cases) auto

lemma catch_unwind_iffs:
  "catch_unwind p = None \<longleftrightarrow> p = Pending"
  "catch_unwind p = Some (Inr v) \<longleftrightarrow> p = Ready v"
  "catch_unwind p = Some (Inl u) \<longleftrightarrow> p = Panics"
  by (cases p; auto)+

end
