(* ===== verification/Active.thy ===== *)
theory Active
  imports Task
begin

text \<open>
  \<open>active.rs\<close>: the dense slot array of running tasks (\<open>ActiveSlots\<close>) and the registry with
  deferred removal (\<open>DeferredRegistry\<close>). An entry is the address of the task's core. The
  indexed writes and the subtraction of \<open>len\<close> can panic in Rust; here they return
  \<open>Inl\<close>, and the invariant \<open>slots_wf\<close> shows that they never do.
\<close>

section \<open>ActiveSlots\<close>

record active_slots =
  slots :: "core_ref option list"
  free :: "nat list"

definition slots_with_capacity :: "nat \<Rightarrow> active_slots" where
  "slots_with_capacity _ = \<lparr>slots = [], free = []\<rparr>"

definition slots_insert :: "core_ref \<Rightarrow> active_slots \<Rightarrow> (nat \<times> active_slots) outcome" where
  "slots_insert core a =
     (case vec_pop (free a) of
        Some (slot, fr) \<Rightarrow>
          (case vec_set (slots a) slot (Some core) of
             Inl p \<Rightarrow> Inl p
           | Inr xs \<Rightarrow> Inr (slot, \<lparr>slots = xs, free = fr\<rparr>))
      | None \<Rightarrow> Inr (length (slots a), a\<lparr>slots := slots a @ [Some core]\<rparr>))"

definition slots_remove :: "nat \<Rightarrow> active_slots \<Rightarrow> active_slots" where
  "slots_remove slot a =
     (if slot < length (slots a) \<and> slots a ! slot \<noteq> None
      then \<lparr>slots = (slots a)[slot := None], free = free a @ [slot]\<rparr> else a)"

definition slots_len :: "active_slots \<Rightarrow> nat outcome" where
  "slots_len a = usize_sub (length (slots a)) (length (free a))"

fun flatten :: "'a option list \<Rightarrow> 'a list" where
  "flatten [] = []"
| "flatten (None # xs) = flatten xs"
| "flatten (Some x # xs) = x # flatten xs"

definition slots_all_tokens :: "active_slots \<Rightarrow> core_ref list" where
  "slots_all_tokens a = flatten (slots a)"

definition slots_tokens_matching ::
  "'n heap \<Rightarrow> task_label set \<Rightarrow> active_slots \<Rightarrow> core_ref list" where
  "slots_tokens_matching h ls a = filter (\<lambda>r. labels (h ! r) \<inter> ls \<noteq> {}) (flatten (slots a))"

text \<open>The loop of \<open>sweep_finished\<close>: the swept array and the indices it frees, in order.\<close>

fun sweep_from :: "'n heap \<Rightarrow> nat \<Rightarrow> core_ref option list \<Rightarrow> core_ref option list \<times> nat list" where
  "sweep_from h i [] = ([], [])"
| "sweep_from h i (x # xs) =
     (let (ys, fr) = sweep_from h (Suc i) xs in
      (case x of
         Some r \<Rightarrow> if core_is_finished (h ! r) then (None # ys, i # fr) else (Some r # ys, fr)
       | None \<Rightarrow> (None # ys, fr)))"

definition sweep_finished :: "'n heap \<Rightarrow> active_slots \<Rightarrow> active_slots" where
  "sweep_finished h a =
     (let (ys, fr) = sweep_from h 0 (slots a) in \<lparr>slots = ys, free = free a @ fr\<rparr>)"

section \<open>The invariant and the abstract view\<close>

text \<open>The free list holds exactly the indices of the empty slots, each once.\<close>

definition slots_wf :: "active_slots \<Rightarrow> bool" where
  "slots_wf a \<longleftrightarrow>
     distinct (free a) \<and>
     (\<forall>i \<in> set (free a). i < length (slots a) \<and> slots a ! i = None) \<and>
     (\<forall>i < length (slots a). slots a ! i = None \<longrightarrow> i \<in> set (free a))"

lemma slots_wf_set: "slots_wf a \<Longrightarrow> set (free a) = {i. i < length (slots a) \<and> slots a ! i = None}"
  by (auto simp: slots_wf_def)

text \<open>What the registry stands for: a finite map from slot numbers to tasks.\<close>

definition slot_map :: "active_slots \<Rightarrow> nat \<rightharpoonup> core_ref" where
  "slot_map a i = (if i < length (slots a) then slots a ! i else None)"

definition occupied :: "active_slots \<Rightarrow> nat" where
  "occupied a = count_if (\<lambda>x. x \<noteq> None) (slots a)"

lemma occupied_card: "occupied a = card (dom (slot_map a))"
  by (auto simp: occupied_def count_if_card slot_map_def dom_def intro: arg_cong [where f = card])

lemma slots_wf_free_length:
  assumes "slots_wf a"
  shows "length (free a) = count_if (\<lambda>x. x = None) (slots a)"
proof -
  have "length (free a) = card (set (free a))"
    using assms distinct_card [of "free a"] by (simp add: slots_wf_def)
  also have "\<dots> = count_if (\<lambda>x. x = None) (slots a)"
    using assms by (simp add: slots_wf_set count_if_card)
  finally show ?thesis .
qed

lemma slots_wf_lengths: "slots_wf a \<Longrightarrow> length (free a) + occupied a = length (slots a)"
  using count_if_compl [of "\<lambda>x. x = None" "slots a"]
  by (simp add: slots_wf_free_length occupied_def)

lemma slots_len_occupied: "slots_wf a \<Longrightarrow> slots_len a = Inr (occupied a)"
  using slots_wf_lengths [of a] by (simp add: slots_len_def usize_sub_def)

lemma slots_wf_new [simp]: "slots_wf (slots_with_capacity n)" "occupied (slots_with_capacity n) = 0"
  "slot_map (slots_with_capacity n) = Map.empty" "slots (slots_with_capacity n) = []"
  by (auto simp: slots_with_capacity_def slots_wf_def occupied_def slot_map_def)

text \<open>Insertion: no panic, and a fresh slot number is mapped to the task.\<close>

lemma slots_insert_cases:
  assumes "slots_wf a"
  obtains slot fr where "free a = fr @ [slot]" "slot < length (slots a)" "slots a ! slot = None"
      "slots_insert core a = Inr (slot, \<lparr>slots = (slots a)[slot := Some core], free = fr\<rparr>)"
    | "free a = []" "slots_insert core a = Inr (length (slots a), a\<lparr>slots := slots a @ [Some core]\<rparr>)"
proof (cases "free a" rule: rev_cases)
  case Nil
  then show ?thesis using that(2) by (simp add: slots_insert_def)
next
  case (snoc fr slot)
  then have "slot \<in> set (free a)" by simp
  then have "slot < length (slots a)" "slots a ! slot = None"
    using assms unfolding slots_wf_def by blast+
  then show ?thesis using that(1) snoc by (simp add: slots_insert_def vec_set_def)
qed

lemma slot_map_snoc: "slot_map (a\<lparr>slots := slots a @ [x]\<rparr>) = (slot_map a)(length (slots a) := x)"
  by (rule ext) (simp add: slot_map_def nth_append)

lemma slot_map_update:
  "i < length (slots a) \<Longrightarrow> slot_map \<lparr>slots = (slots a)[i := x], free = fr\<rparr> = (slot_map a)(i := x)"
  by (rule ext) (simp add: slot_map_def)

lemma slots_insert_spec:
  assumes "slots_wf a"
  shows "\<exists>i a'. slots_insert core a = Inr (i, a') \<and> slots_wf a' \<and> slot_map a i = None \<and>
           slot_map a' = (slot_map a)(i \<mapsto> core) \<and> occupied a' = Suc (occupied a)"
  using assms
proof (cases rule: slots_insert_cases [where core = core])
  case (1 slot fr)
  let ?a = "\<lparr>slots = (slots a)[slot := Some core], free = fr\<rparr>"
  have "slots_wf ?a" using assms 1(1,2) by (auto simp: slots_wf_def nth_upd split: if_splits)
  moreover have "occupied ?a = Suc (occupied a)"
    using 1(2,3) by (simp add: occupied_def count_if_update_gain)
  moreover have "slot_map a slot = None" using 1(3) by (simp add: slot_map_def)
  ultimately show ?thesis using 1(4) slot_map_update [OF 1(2)] by blast
next
  case 2
  let ?a = "a\<lparr>slots := slots a @ [Some core]\<rparr>"
  have "slots_wf ?a" using assms 2(1) by (auto simp: slots_wf_def nth_append less_Suc_eq)
  moreover have "occupied ?a = Suc (occupied a)" by (simp add: occupied_def)
  moreover have "slot_map a (length (slots a)) = None" by (simp add: slot_map_def)
  ultimately show ?thesis using 2(2) slot_map_snoc by blast
qed

lemma slots_remove_spec:
  assumes "slots_wf a"
  shows "slots_wf (slots_remove i a)" and "slot_map (slots_remove i a) = (slot_map a)(i := None)"
proof -
  show "slots_wf (slots_remove i a)"
  proof (cases "i < length (slots a) \<and> slots a ! i \<noteq> None")
    case True
    then have "i \<notin> set (free a)" using assms by (auto simp: slots_wf_def)
    moreover have "(slots a)[i := None] ! j = None \<longleftrightarrow> j = i \<or> slots a ! j = None"
      if "j < length (slots a)" for j
      using that True by (simp add: nth_upd)
    ultimately show ?thesis using assms True
      by (simp add: slots_wf_def slots_remove_def ball_Un)
  next
    case False
    then show ?thesis using assms by (auto simp: slots_remove_def)
  qed
  show "slot_map (slots_remove i a) = (slot_map a)(i := None)"
    by (auto simp: slot_map_def slots_remove_def fun_eq_iff nth_upd)
qed

lemma occupied_remove: "slot_map a i \<noteq> None \<Longrightarrow> Suc (occupied (slots_remove i a)) = occupied a"
  using count_if_update_lose [of i "slots a" "\<lambda>x. x \<noteq> None" None]
  by (auto simp: occupied_def slots_remove_def slot_map_def split: if_splits)

lemma set_flatten: "set (flatten xs) = {r. Some r \<in> set xs}"
  by (induction xs rule: flatten.induct) auto

lemma length_flatten: "length (flatten xs) = count_if (\<lambda>x. x \<noteq> None) xs"
  by (induction xs rule: flatten.induct) auto

lemma ran_slot_map: "ran (slot_map a) = {r. Some r \<in> set (slots a)}"
  by (auto simp: ran_def slot_map_def in_set_conv_nth split: if_splits)

lemma set_slots_all_tokens: "set (slots_all_tokens a) = ran (slot_map a)"
  by (simp add: slots_all_tokens_def set_flatten ran_slot_map)

lemma set_slots_tokens_matching:
  "set (slots_tokens_matching h ls a) = {r \<in> ran (slot_map a). labels (h ! r) \<inter> ls \<noteq> {}}"
  by (auto simp: slots_tokens_matching_def set_flatten ran_slot_map)

section \<open>Sweeping\<close>

lemma sweep_from_length: "length (fst (sweep_from h i xs)) = length xs"
  by (induction h i xs rule: sweep_from.induct)
    (auto simp: Let_def split: prod.splits option.splits)

lemma sweep_from_nth:
  "j < length xs \<Longrightarrow> fst (sweep_from h i xs) ! j =
     (case xs ! j of Some r \<Rightarrow> if core_is_finished (h ! r) then None else Some r | None \<Rightarrow> None)"
proof (induction h i xs arbitrary: j rule: sweep_from.induct)
  case (1 h i)
  then show ?case by simp
next
  case (2 h i x xs)
  then show ?case
    by (cases j) (auto simp: Let_def split: prod.splits option.splits)
qed

lemma index_set_Cons:
  "{i + j | j. j < length (x # xs) \<and> P ((x # xs) ! j)} =
     (if P x then {i} else {}) \<union> {Suc i + j | j. j < length xs \<and> P (xs ! j)}" (is "?L = ?R")
proof (rule set_eqI)
  fix k
  show "k \<in> ?L \<longleftrightarrow> k \<in> ?R"
  proof
    assume "k \<in> ?L"
    then obtain j where "k = i + j" "j < length (x # xs)" "P ((x # xs) ! j)" by blast
    then show "k \<in> ?R" by (cases j) auto
  next
    assume "k \<in> ?R"
    then consider "P x" "k = i" | j where "k = Suc i + j" "j < length xs" "P (xs ! j)"
      by (auto split: if_splits)
    then show "k \<in> ?L"
    proof cases
      case 1
      then show ?thesis by (auto intro: exI [of _ 0])
    next
      case (2 j)
      then show ?thesis by (auto intro: exI [of _ "Suc j"])
    qed
  qed
qed

lemma sweep_from_freed:
  "distinct (snd (sweep_from h i xs)) \<and>
   set (snd (sweep_from h i xs)) =
     {i + j | j. j < length xs \<and> (\<exists>r. xs ! j = Some r \<and> core_is_finished (h ! r))}"
proof (induction h i xs rule: sweep_from.induct)
  case (1 h i)
  then show ?case by simp
next
  case (2 h i x xs)
  then show ?case
    unfolding index_set_Cons [where P = "\<lambda>x. \<exists>r. x = Some r \<and> core_is_finished (h ! r)"]
    by (cases x) (auto simp: Let_def case_prod_beta)
qed

lemma sweep_finished_spec:
  assumes "slots_wf a"
  shows "slots_wf (sweep_finished h a)"
    and "slot_map (sweep_finished h a) i =
      (case slot_map a i of Some r \<Rightarrow> if core_is_finished (h ! r) then None else Some r | None \<Rightarrow> None)"
    and "length (slots (sweep_finished h a)) = length (slots a)"
proof -
  let ?ys = "fst (sweep_from h 0 (slots a))" and ?fr = "snd (sweep_from h 0 (slots a))"
  have eq: "sweep_finished h a = \<lparr>slots = ?ys, free = free a @ ?fr\<rparr>"
    by (simp add: sweep_finished_def case_prod_beta)
  have fr: "distinct ?fr" "set ?fr = {j. j < length (slots a) \<and>
      (\<exists>r. slots a ! j = Some r \<and> core_is_finished (h ! r))}"
    using sweep_from_freed [of h 0 "slots a"] by auto
  show "slots_wf (sweep_finished h a)"
    using assms fr unfolding slots_wf_def eq
    by (auto simp: sweep_from_length sweep_from_nth split: option.splits if_splits)
  show "length (slots (sweep_finished h a)) = length (slots a)"
    by (simp add: eq sweep_from_length)
  show "slot_map (sweep_finished h a) i =
      (case slot_map a i of Some r \<Rightarrow> if core_is_finished (h ! r) then None else Some r | None \<Rightarrow> None)"
    by (simp add: eq slot_map_def sweep_from_length sweep_from_nth)
qed


section \<open>DeferredRegistry\<close>

text \<open>
  \<open>in_flight\<close> is an \<open>AtomicUsize\<close>: \<open>fetch_add\<close> and \<open>fetch_sub\<close> wrap. \<open>insert\<close> first counts the
  task, then takes the lock; the two halves are separate definitions.
\<close>

record deferred_registry =
  in_flight :: usize
  entries :: active_slots

definition deferred_with_capacity :: "nat \<Rightarrow> deferred_registry" where
  "deferred_with_capacity n = \<lparr>in_flight = 0, entries = slots_with_capacity n\<rparr>"

definition deferred_count :: "deferred_registry \<Rightarrow> deferred_registry" where
  "deferred_count d = d\<lparr>in_flight := in_flight d + 1\<rparr>"

definition deferred_store ::
  "'n heap \<Rightarrow> core_ref \<Rightarrow> deferred_registry \<Rightarrow> deferred_registry outcome" where
  "deferred_store h core d =
     (let a = (if free (entries d) = [] then sweep_finished h (entries d) else entries d) in
      case slots_insert core a of
        Inl p \<Rightarrow> Inl p
      | Inr (_, a') \<Rightarrow> Inr (d\<lparr>entries := a'\<rparr>))"

definition deferred_insert ::
  "'n heap \<Rightarrow> core_ref \<Rightarrow> deferred_registry \<Rightarrow> deferred_registry outcome" where
  "deferred_insert h core d = deferred_store h core (deferred_count d)"

definition deferred_finish :: "deferred_registry \<Rightarrow> deferred_registry" where
  "deferred_finish d = d\<lparr>in_flight := in_flight d - 1\<rparr>"

definition deferred_len :: "deferred_registry \<Rightarrow> usize" where
  "deferred_len d = in_flight d"

definition deferred_all_tokens :: "'n heap \<Rightarrow> deferred_registry \<Rightarrow> core_ref list" where
  "deferred_all_tokens h d = filter (\<lambda>r. \<not> core_is_finished (h ! r)) (flatten (slots (entries d)))"

definition deferred_tokens_matching ::
  "'n heap \<Rightarrow> task_label set \<Rightarrow> deferred_registry \<Rightarrow> core_ref list" where
  "deferred_tokens_matching h ls d =
     filter (\<lambda>r. \<not> core_is_finished (h ! r) \<and> labels (h ! r) \<inter> ls \<noteq> {}) (flatten (slots (entries d)))"

text \<open>The live entries: what a reader of the registry may see.\<close>

definition live :: "'n heap \<Rightarrow> active_slots \<Rightarrow> core_ref set" where
  "live h a = {r \<in> ran (slot_map a). \<not> core_is_finished (h ! r)}"

lemma live_sweep: "slots_wf a \<Longrightarrow> live h (sweep_finished h a) = live h a"
  by (auto simp: live_def ran_def sweep_finished_spec split: option.splits if_splits)

lemma live_mark: "live (heap_mark_finished x h) a = live h a - (if x < length h then {x} else {})"
  by (auto simp: live_def heap_mark_finished_def nth_upd)

lemma live_insert:
  "slot_map a' = (slot_map a)(i \<mapsto> r) \<Longrightarrow> slot_map a i = None \<Longrightarrow> \<not> core_is_finished (h ! r) \<Longrightarrow>
     live h a' = insert r (live h a)"
  by (auto simp: live_def)

lemma deferred_store_spec:
  assumes wf: "slots_wf (entries d)" and r: "\<not> core_is_finished (h ! r)"
  shows "\<exists>d'. deferred_store h r d = Inr d' \<and> slots_wf (entries d') \<and>
           in_flight d' = in_flight d \<and> live h (entries d') = insert r (live h (entries d))"
proof -
  let ?a = "if free (entries d) = [] then sweep_finished h (entries d) else entries d"
  have a: "slots_wf ?a" "live h ?a = live h (entries d)"
    using wf by (simp_all add: sweep_finished_spec live_sweep)
  from slots_insert_spec [OF a(1), of r] obtain i a' where
    "slots_insert r ?a = Inr (i, a')" "slots_wf a'" "slot_map ?a i = None"
    "slot_map a' = (slot_map ?a)(i \<mapsto> r)" by blast
  then show ?thesis using a(2) live_insert [of a' ?a i r h] r
    by (simp add: deferred_store_def Let_def)
qed

section \<open>The interface of a registry\<close>

text \<open>
  What the managers need of a registry when they cancel by label or cancel everything: the
  listed tasks are the visible ones. Both registries, and a list of registry shards, provide
  it; the effect of the cancellation loops is proved once.
\<close>

locale registry =
  fixes visible :: "'n heap \<Rightarrow> 'g \<Rightarrow> core_ref set"
    and all_tokens :: "'n heap \<Rightarrow> 'g \<Rightarrow> core_ref list"
    and tokens_matching :: "'n heap \<Rightarrow> task_label set \<Rightarrow> 'g \<Rightarrow> core_ref list"
  assumes set_all: "set (all_tokens h g) = visible h g"
    and set_matching: "set (tokens_matching h ls g) = {r \<in> visible h g. labels (h ! r) \<inter> ls \<noteq> {}}"
begin

lemma cancel_matching:
  "i < length h \<Longrightarrow>
     core_is_cancelled (cancel_all N (tokens_matching h ls g) h ! i) \<longleftrightarrow>
       core_is_cancelled (h ! i) \<or> i \<in> visible h g \<and> labels (h ! i) \<inter> ls \<noteq> {}"
  by (auto simp: set_matching)

lemma cancel_every:
  "i < length h \<Longrightarrow>
     core_is_cancelled (cancel_all N (all_tokens h g) h ! i) \<longleftrightarrow>
       core_is_cancelled (h ! i) \<or> i \<in> visible h g"
  by (simp add: set_all)

lemma cancel_matching_no_label [simp]: "cancel_all N (tokens_matching h {} g) h = h"
proof -
  have "tokens_matching h {} g = []" using set_matching [of h "{}" g] by simp
  then show ?thesis by simp
qed

end

interpretation strict_registry: registry "\<lambda>_ a. ran (slot_map a)" "\<lambda>_. slots_all_tokens"
    slots_tokens_matching
  by unfold_locales (simp_all add: set_slots_all_tokens set_slots_tokens_matching)

interpretation deferred_registry: registry "\<lambda>h d. live h (entries d)" deferred_all_tokens
    deferred_tokens_matching
  by unfold_locales
    (auto simp: deferred_all_tokens_def deferred_tokens_matching_def live_def set_flatten ran_slot_map)

text \<open>The relaxed manager keeps one shard per lane and reads them all, in order.\<close>

definition shards_all_tokens :: "'n heap \<Rightarrow> deferred_registry list \<Rightarrow> core_ref list" where
  "shards_all_tokens h ds = concat (map (deferred_all_tokens h) ds)"

definition shards_tokens_matching ::
  "'n heap \<Rightarrow> task_label set \<Rightarrow> deferred_registry list \<Rightarrow> core_ref list" where
  "shards_tokens_matching h ls ds = concat (map (deferred_tokens_matching h ls) ds)"

interpretation sharded_registry: registry "\<lambda>h ds. \<Union>d \<in> set ds. live h (entries d)"
    shards_all_tokens shards_tokens_matching
  by unfold_locales
    (auto simp: shards_all_tokens_def shards_tokens_matching_def deferred_registry.set_all
      deferred_registry.set_matching)


section \<open>Properties\<close>

text \<open>
  A run of a registry: insertions and removals in any order, with the largest number of
  tasks held at once as it goes.
\<close>

datatype slot_op = Insert core_ref | Remove nat

fun slots_run :: "slot_op list \<Rightarrow> active_slots \<times> nat \<Rightarrow> (active_slots \<times> nat) outcome" where
  "slots_run [] ak = Inr ak"
| "slots_run (Insert r # ops) (a, k) =
     (case slots_insert r a of
        Inl p \<Rightarrow> Inl p
      | Inr (_, a') \<Rightarrow> slots_run ops (a', max k (occupied a')))"
| "slots_run (Remove i # ops) (a, k) = slots_run ops (slots_remove i a, k)"

lemma slots_insert_length:
  assumes "slots_wf a" "slots_insert r a = Inr (i, a')"
  shows "length (slots a') = max (length (slots a)) (occupied a')"
  using assms(1)
proof (cases rule: slots_insert_cases [where core = r])
  case (1 slot fr)
  moreover have "occupied a' \<le> length (slots a')"
    using count_if_le_length by (simp add: occupied_def)
  ultimately show ?thesis using assms(2) by auto
next
  case 2
  then have "length (slots a) = occupied a" using slots_wf_lengths [OF assms(1)] by simp
  with 2 assms(2) show ?thesis by (auto simp: occupied_def)
qed

lemma slots_run_spec:
  assumes "slots_wf a" "length (slots a) = k"
  shows "\<exists>a' k'. slots_run ops (a, k) = Inr (a', k') \<and> slots_wf a' \<and> length (slots a') = k'"
  using assms
proof (induction ops arbitrary: a k)
  case Nil
  then show ?case by simp
next
  case (Cons op ops)
  show ?case
  proof (cases op)
    case (Insert r)
    from slots_insert_spec [OF Cons.prems(1), of r] obtain i b
      where b: "slots_insert r a = Inr (i, b)" "slots_wf b" by blast
    with slots_insert_length [OF Cons.prems(1) b(1)] Cons.prems(2) Insert Cons.IH [OF b(2)]
    show ?thesis by simp
  next
    case (Remove i)
    have "length (slots (slots_remove i a)) = k"
      using Cons.prems(2) by (simp add: slots_remove_def)
    from Cons.IH [OF slots_remove_spec(1) [OF Cons.prems(1)] this] Remove show ?thesis by simp
  qed
qed

text \<open>
  C33. The slot array never panics and never leaks: after any sequence of insertions and
  removals (removals of empty, stale or out-of-range slots included) on a new registry, no
  index was out of bounds, \<open>len\<close> does not underflow and is the number of registered tasks,
  and the array is exactly as long as the largest number of tasks ever registered at once.
\<close>

theorem active_slots_total:
  "\<exists>a k. slots_run ops (slots_with_capacity n, 0) = Inr (a, k) \<and>
     slots_len a = Inr (card (dom (slot_map a))) \<and> length (slots a) = k"
  using slots_run_spec [of "slots_with_capacity n" 0 ops]
  by (auto simp: slots_len_occupied occupied_card)

text \<open>
  C32. \<open>ActiveSlots\<close> refines a finite map with fresh keys: on a well-formed registry an
  insertion returns a slot no registered task holds and maps it to the task, a removal
  forgets exactly that slot, and listings by label are the mapped tasks that share a label.
\<close>

theorem active_slots_refine_map:
  assumes "slots_wf a"
  shows "(\<exists>i a'. slots_insert r a = Inr (i, a') \<and> slots_wf a' \<and> slot_map a i = None \<and>
            slot_map a' = (slot_map a)(i \<mapsto> r)) \<and>
         slots_wf (slots_remove j a) \<and> slot_map (slots_remove j a) = (slot_map a)(j := None) \<and>
         set (slots_all_tokens a) = ran (slot_map a) \<and>
         set (slots_tokens_matching h ls a) = {c \<in> ran (slot_map a). labels (h ! c) \<inter> ls \<noteq> {}}"
  using slots_insert_spec [OF assms, of r] slots_remove_spec [OF assms]
    strict_registry.set_all strict_registry.set_matching by blast

lemma active_slots_refine_map_witness:
  "slots_wf \<lparr>slots = [Some 4, None, Some 6], free = [1]\<rparr> \<and>
   slot_map (slots_remove 2 \<lparr>slots = [Some 4, None, Some 6], free = [1]\<rparr>) 2 = None"
proof -
  let ?a = "\<lparr>slots = [Some 4, None, Some 6], free = [1]\<rparr>"
  have wf: "slots_wf ?a" by (auto simp: slots_wf_def less_Suc_eq numeral_3_eq_3)
  have "slot_map (slots_remove 2 ?a) = (slot_map ?a)(2 := None)"
    using active_slots_refine_map [OF wf, of 9 2 "[]" "{}"] by blast
  with wf show ?thesis by simp
qed

text \<open>The entries whose task has not finished.\<close>

definition unfinished :: "'n heap \<Rightarrow> active_slots \<Rightarrow> nat" where
  "unfinished h a =
     count_if (\<lambda>x. case x of Some r \<Rightarrow> \<not> core_is_finished (h ! r) | None \<Rightarrow> False) (slots a)"

lemma occupied_sweep: "slots_wf a \<Longrightarrow> occupied (sweep_finished h a) = unfinished h a"
proof -
  assume wf: "slots_wf a"
  let ?s = "sweep_finished h a"
  have len: "length (slots ?s) = length (slots a)" using wf by (rule sweep_finished_spec)
  have nth: "i < length (slots a) \<Longrightarrow> slots ?s ! i =
      (case slots a ! i of Some r \<Rightarrow> if core_is_finished (h ! r) then None else Some r | None \<Rightarrow> None)" for i
    using sweep_finished_spec(2) [OF wf, of h i] len by (simp add: slot_map_def)
  show ?thesis
    unfolding occupied_def unfinished_def count_if_card len
    by (rule arg_cong [where f = card]) (auto simp: nth split: option.splits if_splits)
qed

text \<open>
  C34. Lazy reclamation is sound and bounded. \<open>DeferredRegistry::insert\<close> never panics, counts
  the task, keeps the array well-formed and makes exactly the new task visible besides those
  that were: a sweep never hides an unfinished task. The array grows only past the number of
  unfinished entries: a slot of a finished task is reused first.
\<close>

theorem deferred_insert_sound:
  assumes "slots_wf (entries d)" "\<not> core_is_finished (h ! r)"
  shows "\<exists>d'. deferred_insert h r d = Inr d' \<and> deferred_len d' = deferred_len d + 1 \<and>
           slots_wf (entries d') \<and>
           set (deferred_all_tokens h d') = insert r (set (deferred_all_tokens h d)) \<and>
           length (slots (entries d')) \<le> max (length (slots (entries d))) (Suc (unfinished h (entries d)))"
proof -
  let ?d = "deferred_count d"
  have wf: "slots_wf (entries ?d)" using assms(1) by (simp add: deferred_count_def)
  from deferred_store_spec [OF wf assms(2)] obtain d' where
    d': "deferred_store h r ?d = Inr d'" "slots_wf (entries d')" "in_flight d' = in_flight ?d"
      "live h (entries d') = insert r (live h (entries ?d))" by blast
  let ?a = "if free (entries d) = [] then sweep_finished h (entries d) else entries d"
  from d'(1) obtain i where i: "slots_insert r ?a = Inr (i, entries d')"
    by (auto simp: deferred_store_def deferred_count_def Let_def split: sum.splits if_splits)
  have "slots_wf ?a" using assms(1) by (simp add: sweep_finished_spec)
  from this have "length (slots (entries d')) \<le>
      max (length (slots (entries d))) (Suc (unfinished h (entries d)))"
  proof (cases rule: slots_insert_cases [where core = r])
    case (1 slot fr)
    have "(Inr (i, entries d') :: (nat \<times> active_slots) outcome) =
        Inr (slot, \<lparr>slots = (slots ?a)[slot := Some r], free = fr\<rparr>)"
      using i 1(4) by (rule subst)
    then have "slots (entries d') = (slots ?a)[slot := Some r]" by simp
    then show ?thesis using sweep_finished_spec(3) [OF assms(1), of h] by (simp split: if_splits)
  next
    case 2
    then have "free (entries d) = []" "free (sweep_finished h (entries d)) = []"
      by (auto split: if_splits)
    then have "length (slots ?a) = unfinished h (entries d)"
      using slots_wf_lengths [OF \<open>slots_wf ?a\<close>] occupied_sweep [OF assms(1), of h] by simp
    moreover have "(Inr (i, entries d') :: (nat \<times> active_slots) outcome) =
        Inr (length (slots ?a), ?a\<lparr>slots := slots ?a @ [Some r]\<rparr>)"
      using i 2(2) by (rule subst)
    then have "slots (entries d') = slots ?a @ [Some r]" by simp
    ultimately show ?thesis by simp
  qed
  then show ?thesis using d'
    by (auto simp: deferred_insert_def deferred_len_def deferred_count_def deferred_registry.set_all)
qed

lemma deferred_insert_sound_witness:
  "\<exists>d'. deferred_insert [(core_new set_notify 1 {}), core_new set_notify 2 {}] 1
     \<lparr>in_flight = 1, entries = \<lparr>slots = [Some 0], free = []\<rparr>\<rparr> = Inr d' \<and> deferred_len d' = 2"
proof -
  let ?h = "[core_new set_notify 1 {}, core_new set_notify 2 {}]"
  let ?d = "\<lparr>in_flight = 1, entries = \<lparr>slots = [Some 0], free = []\<rparr>\<rparr>"
  have "slots_wf (entries ?d)" by (simp add: slots_wf_def)
  from deferred_insert_sound [OF this, of ?h 1] show ?thesis
    by (auto simp: deferred_len_def)
qed

end
