(* ===== verification/Notifier.thy ===== *)
theory Notifier
  imports Task
begin

text \<open>
  \<open>notifier.rs\<close>: completion messages, the \<open>CompletionSink\<close> in its \<open>OnceLock\<close>, the handler list
  and the notification worker. A handler is user code; what the pool observes of a call is
  whether it panics, the parameter \<open>P\<close>. The worker's loop is a program counter with one step
  per poll, per lock and per handler call.
\<close>

section \<open>Messages and state\<close>

record internal_completion_message =
  cm_pool_name :: string
  cm_core :: core_ref
  cm_status :: task_completion_status

record task_completion_info =
  ci_task_id :: u64
  ci_pool_name :: string
  ci_labels :: "task_label set"
  ci_status :: task_completion_status
  ci_completion_time :: nat

datatype 'h notifier_pc =
    NAbsent                          \<comment> \<open>not spawned\<close>
  | NPollQueue                       \<comment> \<open>at the \<open>select!\<close>, polling the queue\<close>
  | NGot internal_completion_message \<comment> \<open>received, about to read the handler list\<close>
  | NRun task_completion_info "'h list" \<comment> \<open>in the handler loop, these handlers left\<close>
  | NPollShutdown                    \<comment> \<open>at the \<open>select!\<close>, polling the shutdown arm\<close>
  | NStopped

text \<open>
  \<open>sink\<close> is the \<open>OnceLock\<close>: \<open>None\<close> while unset, then \<open>Some True\<close> while the sink holds the
  pool-wide sender and \<open>Some False\<close> after \<open>close\<close>. \<open>nchan\<close> means something only once it is set.
  \<open>clones\<close> counts the sender clones alive in tasks; \<open>posted\<close>, \<open>processed\<close> (with the info and the
  handlers of the moment) and \<open>calls\<close> are histories.
\<close>

record ('c, 'h) notifier =
  sink :: "bool option"
  nchan :: 'c
  handlers :: "'h list"
  nworker :: "'h notifier_pc"
  shutdown_signaled_once :: bool
  has_join_handle :: bool
  errors_logged :: nat
  clones :: nat
  posted :: "internal_completion_message list"
  processed :: "(internal_completion_message \<times> task_completion_info \<times> 'h list) list"
  calls :: "('h \<times> task_completion_info) list"

type_synonym 'c note_ops = "(internal_completion_message, 'c) chan_ops"

definition notifier_new :: "'c note_ops \<Rightarrow> ('c, 'h) notifier" where
  "notifier_new K = \<lparr>sink = None, nchan = ch_new K, handlers = [], nworker = NAbsent,
     shutdown_signaled_once = False, has_join_handle = False, errors_logged = 0, clones = 0,
     posted = [], processed = [], calls = []\<rparr>"

section \<open>Registration and the sink\<close>

definition ensure_worker_initialized :: "'c note_ops \<Rightarrow> ('c, 'h) notifier \<Rightarrow> ('c, 'h) notifier" where
  "ensure_worker_initialized K n =
     (case sink n of
        None \<Rightarrow> n\<lparr>sink := Some True, nchan := ch_new K, nworker := NPollQueue, has_join_handle := True\<rparr>
      | Some _ \<Rightarrow> n)"

text \<open>
  \<open>add_handler\<close> is this and then the push under the write lock, which waits while the worker
  holds the read lock in its handler loop.
\<close>

definition push_handler :: "'h \<Rightarrow> ('c, 'h) notifier \<Rightarrow> ('c, 'h) notifier option" where
  "push_handler h n =
     (case nworker n of
        NRun _ _ \<Rightarrow> None
      | _ \<Rightarrow> if sink n = None then None else Some (n\<lparr>handlers := handlers n @ [h]\<rparr>))"

text \<open>\<open>notification_sink.get().and_then(CompletionSink::sender)\<close>: a clone of the sender, if any.\<close>

definition sink_sender :: "'c note_ops \<Rightarrow> ('c, 'h) notifier \<Rightarrow> bool \<times> ('c, 'h) notifier" where
  "sink_sender K n =
     (if sink n = Some True
      then (True, n\<lparr>nchan := ch_clone_tx K (nchan n), clones := Suc (clones n)\<rparr>)
      else (False, n))"

text \<open>A send over a clone, which is dropped afterwards.\<close>

definition send_completion ::
  "'c note_ops \<Rightarrow> internal_completion_message \<Rightarrow> ('c, 'h) notifier \<Rightarrow> ('c, 'h) notifier" where
  "send_completion K m n =
     (let (ok, c) = ch_send K m (nchan n) in
      n\<lparr>nchan := ch_drop_tx K c, clones := clones n - 1,
        posted := posted n @ (if ok then [m] else [])\<rparr>)"

definition sink_close :: "'c note_ops \<Rightarrow> ('c, 'h) notifier \<Rightarrow> ('c, 'h) notifier" where
  "sink_close K n =
     (if sink n = Some True then n\<lparr>sink := Some False, nchan := ch_drop_tx K (nchan n)\<rparr> else n)"

section \<open>The notification worker\<close>

definition completion_info ::
  "(core_ref \<Rightarrow> u64 \<times> task_label set) \<Rightarrow> nat \<Rightarrow> internal_completion_message \<Rightarrow> task_completion_info" where
  "completion_info look now m =
     \<lparr>ci_task_id = fst (look (cm_core m)), ci_pool_name = cm_pool_name m,
      ci_labels = snd (look (cm_core m)), ci_status = cm_status m, ci_completion_time = now\<rparr>"

text \<open>
  One step of the loop; \<open>look\<close> reads the id and the labels of a core, \<open>sd\<close> is the shutdown token's
  flag and \<open>now\<close> the clock. A panic of
  a handler is caught and logged, and the loop goes on with the next handler.
\<close>

definition notifier_worker_step ::
  "'c note_ops \<Rightarrow> ('h \<Rightarrow> task_completion_info \<Rightarrow> bool) \<Rightarrow> (core_ref \<Rightarrow> u64 \<times> task_label set) \<Rightarrow>
     bool \<Rightarrow> nat \<Rightarrow> ('c, 'h) notifier \<Rightarrow> ('c, 'h) notifier option" where
  "notifier_worker_step K P look sd now n =
     (case nworker n of
        NAbsent \<Rightarrow> None
      | NPollQueue \<Rightarrow>
          (case ch_recv K (nchan n) of
             (RecvOk m, c) \<Rightarrow> Some (n\<lparr>nchan := c, nworker := NGot m\<rparr>)
           | (RecvDisconnected, c) \<Rightarrow> Some (n\<lparr>nchan := c, nworker := NStopped\<rparr>)
           | (RecvPending, c) \<Rightarrow> Some (n\<lparr>nchan := c, nworker := NPollShutdown\<rparr>))
      | NGot m \<Rightarrow>
          (let info = completion_info look now m in
           Some (n\<lparr>nworker := (if handlers n = [] then NPollQueue else NRun info (handlers n)),
                   processed := processed n @ [(m, info, handlers n)]\<rparr>))
      | NRun info [] \<Rightarrow> Some (n\<lparr>nworker := NPollQueue\<rparr>)
      | NRun info (h # hs) \<Rightarrow>
          Some (n\<lparr>nworker := NRun info hs, calls := calls n @ [(h, info)],
                  errors_logged := errors_logged n + of_bool (P h info)\<rparr>)
      | NPollShutdown \<Rightarrow>
          Some (n\<lparr>nworker := NPollQueue, shutdown_signaled_once := shutdown_signaled_once n \<or> sd\<rparr>)
      | NStopped \<Rightarrow> None)"

text \<open>\<open>await_shutdown\<close> first takes the join handle; what it then waits for is the worker.\<close>

definition take_join_handle :: "('c, 'h) notifier \<Rightarrow> bool \<times> ('c, 'h) notifier" where
  "take_join_handle n = (has_join_handle n, n\<lparr>has_join_handle := False\<rparr>)"

lemmas notifier_op_defs = ensure_worker_initialized_def push_handler_def sink_sender_def
  send_completion_def sink_close_def take_join_handle_def notifier_worker_step_def

section \<open>The notifier on its own\<close>

datatype 'h notifier_event =
    EnsureWorker | PushHandler 'h | TakeSender | SendCompletion internal_completion_message
  | CloseSink | WorkerStep "core_ref \<Rightarrow> u64 \<times> task_label set" bool nat | TakeJoinHandle

fun notifier_step ::
  "'c note_ops \<Rightarrow> ('h \<Rightarrow> task_completion_info \<Rightarrow> bool) \<Rightarrow> 'h notifier_event \<Rightarrow>
     ('c, 'h) notifier \<Rightarrow> ('c, 'h) notifier option" where
  "notifier_step K P EnsureWorker n = Some (ensure_worker_initialized K n)"
| "notifier_step K P (PushHandler h) n = push_handler h n"
| "notifier_step K P TakeSender n = Some (snd (sink_sender K n))"
| "notifier_step K P (SendCompletion m) n =
     (if 0 < clones n then Some (send_completion K m n) else None)"
| "notifier_step K P CloseSink n = Some (sink_close K n)"
| "notifier_step K P (WorkerStep look sd now) n = notifier_worker_step K P look sd now n"
| "notifier_step K P TakeJoinHandle n = Some (snd (take_join_handle n))"

section \<open>Invariant\<close>

text \<open>The messages the worker holds, and the calls it still owes for the current one.\<close>

fun in_hand :: "'h notifier_pc \<Rightarrow> internal_completion_message list" where
  "in_hand (NGot m) = [m]"
| "in_hand _ = []"

fun owed :: "'h notifier_pc \<Rightarrow> ('h \<times> task_completion_info) list" where
  "owed (NRun info hs) = map (\<lambda>h. (h, info)) hs"
| "owed _ = []"

definition due_calls ::
  "(internal_completion_message \<times> task_completion_info \<times> 'h list) list \<Rightarrow>
     ('h \<times> task_completion_info) list" where
  "due_calls ps = concat (map (\<lambda>(m, info, hs). map (\<lambda>h. (h, info)) hs) ps)"

text \<open>
  Every accepted message is processed, in hand or queued, in order; every handler of
  the moment has been called, or is owed a call, for every processed message; and the channel's
  senders are the sink's and the clones.
\<close>

definition notifier_inv ::
  "'c note_ops \<Rightarrow> ('h \<Rightarrow> task_completion_info \<Rightarrow> bool) \<Rightarrow> ('c, 'h) notifier \<Rightarrow> bool" where
  "notifier_inv K P n \<longleftrightarrow>
     posted n = map fst (processed n) @ in_hand (nworker n) @ ch_items K (nchan n) \<and>
     calls n @ owed (nworker n) = due_calls (processed n) \<and>
     errors_logged n = count_if (\<lambda>(h, info). P h info) (calls n) \<and>
     (sink n = None \<longleftrightarrow> nworker n = NAbsent) \<and>
     (sink n = None \<longrightarrow> clones n = 0 \<and> posted n = []) \<and>
     (sink n \<noteq> None \<longrightarrow> ch_senders K (nchan n) = of_bool (sink n = Some True) + clones n)"

lemma due_calls_simps [simp]:
  "due_calls [] = []"
  "due_calls (ps @ [(m, info, hs)]) = due_calls ps @ map (\<lambda>h. (h, info)) hs"
  by (simp_all add: due_calls_def)

lemma ensure_worker_inv:
  assumes K: "chan_laws K" and inv: "notifier_inv K P n"
  shows "notifier_inv K P (ensure_worker_initialized K n)"
proof (cases "sink n")
  case None
  then have "nworker n = NAbsent" "posted n = []" "clones n = 0" "processed n = []"
    "ch_items K (nchan n) = []"
    using inv by (auto simp: notifier_inv_def)
  with None inv show ?thesis
    by (simp add: notifier_inv_def ensure_worker_initialized_def ch_new_items [OF K] ch_new_senders [OF K])
next
  case (Some b)
  with inv show ?thesis by (simp add: ensure_worker_initialized_def)
qed

lemma push_handler_inv:
  "notifier_inv K P n \<Longrightarrow> push_handler h n = Some n' \<Longrightarrow> notifier_inv K P n'"
  by (auto simp: push_handler_def notifier_inv_def split: notifier_pc.splits if_splits)

lemma sink_sender_inv:
  assumes K: "chan_laws K" and inv: "notifier_inv K P n"
  shows "notifier_inv K P (snd (sink_sender K n))"
  using inv by (auto simp: notifier_inv_def sink_sender_def ch_clone_items [OF K] ch_clone_senders [OF K])

lemma send_completion_inv:
  assumes K: "chan_laws K" and inv: "notifier_inv K P n" and c: "0 < clones n"
  shows "notifier_inv K P (send_completion K m n)"
proof -
  obtain ok c where s: "ch_send K m (nchan n) = (ok, c)" by (cases "ch_send K m (nchan n)")
  have items: "ch_items K c = ch_items K (nchan n) @ (if ok then [m] else [])"
    using s ch_send_True [OF K] ch_send_False [OF K] by (cases ok) auto
  have sink: "sink n \<noteq> None" using inv c by (auto simp: notifier_inv_def)
  have senders: "ch_senders K c = ch_senders K (nchan n)" by (rule ch_send_senders [OF K s])
  show ?thesis using inv c s sink
    by (auto simp: notifier_inv_def send_completion_def Let_def items senders
        ch_drop_items [OF K] ch_drop_senders [OF K])
qed

lemma sink_close_inv:
  assumes K: "chan_laws K" and inv: "notifier_inv K P n"
  shows "notifier_inv K P (sink_close K n)"
  using inv by (auto simp: notifier_inv_def sink_close_def ch_drop_items [OF K] ch_drop_senders [OF K])

lemma notifier_worker_inv:
  assumes K: "chan_laws K" and inv: "notifier_inv K P n"
    and st: "notifier_worker_step K P look sd now n = Some n'"
  shows "notifier_inv K P n'"
proof (cases "nworker n")
  case NPollQueue
  obtain r c where r: "ch_recv K (nchan n) = (r, c)" by (cases "ch_recv K (nchan n)")
  from NPollQueue inv have "sink n \<noteq> None" by (auto simp: notifier_inv_def)
  with NPollQueue st r inv show ?thesis
    using ch_recv_Ok [OF K] ch_recv_Pending [OF K] ch_recv_Disconnected [OF K] ch_recv_senders [OF K r]
    by (cases r) (auto simp: notifier_inv_def notifier_worker_step_def)
next
  case (NRun info hs)
  with st inv show ?thesis
    by (cases hs) (auto simp: notifier_inv_def notifier_worker_step_def)
qed (use st inv in \<open>auto simp: notifier_inv_def notifier_worker_step_def Let_def split: if_splits\<close>)

lemma take_join_handle_inv: "notifier_inv K P n \<Longrightarrow> notifier_inv K P (snd (take_join_handle n))"
  by (auto simp: notifier_inv_def take_join_handle_def)

lemma notifier_step_inv:
  assumes K: "chan_laws K" and inv: "notifier_inv K P n" and st: "notifier_step K P e n = Some n'"
  shows "notifier_inv K P n'"
  using st inv
  by (cases e) (auto split: if_splits
      intro: ensure_worker_inv [OF K] push_handler_inv sink_sender_inv [OF K]
        send_completion_inv [OF K] sink_close_inv [OF K] notifier_worker_inv [OF K]
        take_join_handle_inv)

lemma notifier_new_inv: "chan_laws K \<Longrightarrow> notifier_inv K P (notifier_new K)"
  by (simp add: notifier_inv_def notifier_new_def ch_new_items)

interpretation notifier: invariant "\<lambda>n. n = notifier_new K" "notifier_step K P"
    "\<lambda>n. chan_laws K \<longrightarrow> notifier_inv K P n" for K P
proof unfold_locales
  show "n = notifier_new K \<Longrightarrow> chan_laws K \<longrightarrow> notifier_inv K P n" for n
    by (simp add: notifier_new_inv)
  show "chan_laws K \<longrightarrow> notifier_inv K P n \<Longrightarrow> notifier_step K P e n = Some n' \<Longrightarrow>
      chan_laws K \<longrightarrow> notifier_inv K P n'" for e n n'
    by (blast intro: notifier_step_inv)
qed


lemma reach_notifier_inv:
  "chan_laws K \<Longrightarrow> reach (\<lambda>n. n = notifier_new K) (notifier_step K P) n \<Longrightarrow> notifier_inv K P n"
  using notifier.reach_inv by blast

section \<open>The worker drains the queue and stops\<close>

text \<open>Nobody can send any more: the sink is closed and no clone is alive.\<close>

definition disconnected :: "('c, 'h) notifier \<Rightarrow> bool" where
  "disconnected n \<longleftrightarrow> sink n = Some False \<and> clones n = 0"

abbreviation worker_run ::
  "'c note_ops \<Rightarrow> ('h \<Rightarrow> task_completion_info \<Rightarrow> bool) \<Rightarrow> (core_ref \<Rightarrow> u64 \<times> task_label set) \<Rightarrow>
     bool \<Rightarrow> nat \<Rightarrow> ('c, 'h) notifier \<Rightarrow> nat \<Rightarrow> ('c, 'h) notifier option" where
  "worker_run K P look sd now n k \<equiv>
     run (notifier_step K P) (replicate k (WorkerStep look sd now)) n"

text \<open>The worker's remaining steps, an upper bound.\<close>

fun notifier_pc_rank :: "nat \<Rightarrow> 'h notifier_pc \<Rightarrow> nat" where
  "notifier_pc_rank d NAbsent = 0"
| "notifier_pc_rank d NPollQueue = 1"
| "notifier_pc_rank d (NGot m) = d + 3"
| "notifier_pc_rank d (NRun info hs) = length hs + 2"
| "notifier_pc_rank d NPollShutdown = 2"
| "notifier_pc_rank d NStopped = 0"

definition notifier_rank :: "'c note_ops \<Rightarrow> ('c, 'h) notifier \<Rightarrow> nat" where
  "notifier_rank K n =
     length (ch_items K (nchan n)) * (length (handlers n) + 3) +
     notifier_pc_rank (length (handlers n)) (nworker n)"

lemma worker_step_progress:
  assumes K: "chan_laws K" and inv: "notifier_inv K P n" and d: "disconnected n"
    and run: "nworker n \<noteq> NStopped"
  shows "\<exists>n'. notifier_worker_step K P look sd now n = Some n' \<and> disconnected n' \<and>
           posted n' = posted n \<and> notifier_rank K n' < notifier_rank K n \<and>
           (nworker n' = NStopped \<longrightarrow> ch_items K (nchan n') = [])"
proof (cases "nworker n")
  case NPollQueue
  obtain r c where r: "ch_recv K (nchan n) = (r, c)" by (cases "ch_recv K (nchan n)")
  have s: "ch_senders K (nchan n) = 0" using inv d by (auto simp: notifier_inv_def disconnected_def)
  have "r \<noteq> RecvPending"
  proof
    assume "r = RecvPending"
    then have "ch_items K (nchan n) = []" using ch_recv_Pending [OF K] r by blast
    from ch_recv_disconnects [OF K this s] \<open>r = RecvPending\<close> r show False by simp
  qed
  then consider m where "r = RecvOk m" | "r = RecvDisconnected" by (cases r) auto
  then show ?thesis
  proof cases
    case (1 m)
    then have "ch_items K (nchan n) = m # ch_items K c" using ch_recv_Ok [OF K] r by blast
    with 1 NPollQueue r d show ?thesis
      by (simp add: notifier_worker_step_def disconnected_def notifier_rank_def)
  next
    case 2
    then have "ch_items K (nchan n) = []" "ch_items K c = []"
      using ch_recv_Disconnected [OF K] r by blast+
    with 2 NPollQueue r d show ?thesis
      by (simp add: notifier_worker_step_def disconnected_def notifier_rank_def)
  qed
next
  case (NRun info hs)
  with d show ?thesis
    by (cases hs) (auto simp: notifier_worker_step_def disconnected_def notifier_rank_def)
next
  case NAbsent
  with inv d show ?thesis by (auto simp: notifier_inv_def disconnected_def)
qed (use d run in \<open>auto simp: notifier_worker_step_def disconnected_def notifier_rank_def Let_def
      split: if_splits\<close>)

lemma worker_drains:
  assumes K: "chan_laws K" and "notifier_inv K P n" and "disconnected n"
    and "nworker n = NStopped \<longrightarrow> ch_items K (nchan n) = []"
  shows "\<exists>k n'. k \<le> notifier_rank K n \<and> worker_run K P look sd now n k = Some n' \<and>
           nworker n' = NStopped \<and> posted n' = posted n \<and> ch_items K (nchan n') = [] \<and>
           notifier_inv K P n'"
  using assms(2-4)
proof (induction "notifier_rank K n" arbitrary: n rule: less_induct)
  case less
  show ?case
  proof (cases "nworker n = NStopped")
    case True
    then show ?thesis using less.prems by (intro exI [of _ 0] exI [of _ n]) simp
  next
    case False
    from worker_step_progress [OF K less.prems(1,2) this, where look = look and sd = sd and now = now]
    obtain m where m: "notifier_worker_step K P look sd now n = Some m" "disconnected m"
      "posted m = posted n" "notifier_rank K m < notifier_rank K n"
      "nworker m = NStopped \<longrightarrow> ch_items K (nchan m) = []" by blast
    have "notifier_inv K P m" using notifier_worker_inv [OF K less.prems(1) m(1)] .
    from less.hyps [OF m(4) this m(2) m(5)] obtain k n' where k: "k \<le> notifier_rank K m"
      "worker_run K P look sd now m k = Some n'" "nworker n' = NStopped" "posted n' = posted m"
      "ch_items K (nchan n') = []" "notifier_inv K P n'" by blast
    then have "worker_run K P look sd now n (Suc k) = Some n'" by (simp add: m(1))
    moreover have "Suc k \<le> notifier_rank K n" using k(1) m(4) by simp
    ultimately show ?thesis using k(3-6) m(3) by metis
  qed
qed

section \<open>Properties\<close>

text \<open>
  C28. Completions reach every handler once and in order. In every reachable state the
  accepted completion messages are those processed, the one in hand and those queued, in the
  order they were accepted; the handler calls made so far, with those still owed for the
  message being handled, are for each processed message one call per handler registered at
  that time, in registration order, whichever calls panicked.
\<close>

theorem handlers_called_once_in_order:
  assumes "chan_laws K" "reach (\<lambda>n. n = notifier_new K) (notifier_step K P) n"
  shows "posted n = map fst (processed n) @ in_hand (nworker n) @ ch_items K (nchan n) \<and>
         calls n @ owed (nworker n) = due_calls (processed n) \<and>
         errors_logged n = count_if (\<lambda>(h, info). P h info) (calls n)"
  using reach_notifier_inv [OF assms] unfolding notifier_inv_def by blast

definition example_message :: internal_completion_message where
  "example_message = \<lparr>cm_pool_name = ''p'', cm_core = 0, cm_status = Panicked\<rparr>"

definition example_notifier :: "(internal_completion_message list \<times> bool \<times> nat, bool) notifier" where
  "example_notifier =
     \<lparr>sink = Some False, nchan = ([], False, 0), handlers = [True, False], nworker = NRun
        \<lparr>ci_task_id = 5, ci_pool_name = ''p'', ci_labels = {}, ci_status = Panicked, ci_completion_time = 9\<rparr>
        [False], shutdown_signaled_once = False, has_join_handle = True, errors_logged = 1, clones = 0,
      posted = [example_message],
      processed = [(example_message, \<lparr>ci_task_id = 5, ci_pool_name = ''p'', ci_labels = {},
        ci_status = Panicked, ci_completion_time = 9\<rparr>, [True, False])],
      calls = [(True, \<lparr>ci_task_id = 5, ci_pool_name = ''p'', ci_labels = {},
        ci_status = Panicked, ci_completion_time = 9\<rparr>)]\<rparr>"

lemma reach_example_notifier:
  "reach (\<lambda>n. n = notifier_new list_chan)
     (notifier_step list_chan (\<lambda>h _. h)) example_notifier"
proof (rule reach_run [OF reach_init [of _ "notifier_new list_chan"]])
  show "run (notifier_step list_chan (\<lambda>h _. h))
      [EnsureWorker, PushHandler True, EnsureWorker, PushHandler False, TakeSender,
       SendCompletion example_message, CloseSink, WorkerStep (\<lambda>_. (5, {})) True 8, WorkerStep (\<lambda>_. (5, {})) True 9, WorkerStep (\<lambda>_. (5, {})) True 9]
      (notifier_new list_chan) = Some example_notifier"
    by (simp add: notifier_new_def notifier_op_defs list_chan_def example_notifier_def
        completion_info_def example_message_def Let_def)
qed simp

lemma handlers_called_once_in_order_witness:
  "map fst (calls example_notifier @ owed (nworker example_notifier)) = [True, False] \<and>
   errors_logged example_notifier = 1"
  using handlers_called_once_in_order [OF list_chan_laws reach_example_notifier]
  by (simp add: example_notifier_def due_calls_def)

text \<open>
  C29. The notification worker terminates. Once the sink is closed and no task holds a clone
  of the sender, a bounded number of its own steps, whatever the handlers do, brings the
  worker to its end, with every accepted message processed and every due call made.
\<close>

theorem notifier_worker_terminates:
  assumes "chan_laws K" "reach (\<lambda>n. n = notifier_new K) (notifier_step K P) n"
    and "disconnected n" "nworker n \<noteq> NStopped"
  shows "\<exists>k n'. k \<le> notifier_rank K n \<and> worker_run K P look sd now n k = Some n' \<and>
           nworker n' = NStopped \<and> map fst (processed n') = posted n \<and>
           calls n' = due_calls (processed n')"
proof -
  from worker_drains [OF assms(1) reach_notifier_inv [OF assms(1,2)] assms(3)] assms(4)
  obtain k n' where "k \<le> notifier_rank K n" "worker_run K P look sd now n k = Some n'"
    and n': "nworker n' = NStopped" "posted n' = posted n" "ch_items K (nchan n') = []"
      "notifier_inv K P n'" by metis
  moreover have "map fst (processed n') = posted n \<and> calls n' = due_calls (processed n')"
    using n' by (auto simp: notifier_inv_def)
  ultimately show ?thesis by blast
qed

lemma notifier_worker_terminates_witness:
  "\<exists>k n'. worker_run list_chan (\<lambda>h _. h) (\<lambda>_. (5, {})) True 9 example_notifier k = Some n' \<and>
     nworker n' = NStopped \<and> map fst (processed n') = [example_message]"
proof -
  have "disconnected example_notifier" "nworker example_notifier \<noteq> NStopped"
    "posted example_notifier = [example_message]"
    by (simp_all add: disconnected_def example_notifier_def)
  with notifier_worker_terminates [OF list_chan_laws reach_example_notifier, of "\<lambda>_. (5, {})" True 9]
  show ?thesis by metis
qed

text \<open>
  The receiver lives until every sender is gone, so a channel that accepts takes every
  completion message that is sent.
\<close>

lemma notifier_step_open:
  assumes o: "open_chan K (nchan n)" and st: "notifier_step K P e n = Some n'"
  shows "open_chan K (nchan n')"
proof (cases e)
  case (SendCompletion m)
  with st open_drop [OF open_send [OF o, of m]] show ?thesis
    by (auto simp: send_completion_def split: if_splits prod.splits)
next
  case (WorkerStep look sd now)
  have "nchan n' = nchan n \<or> nchan n' = snd (ch_recv K (nchan n))"
    using st WorkerStep
    by (auto simp: notifier_worker_step_def Let_def split: notifier_pc.splits list.splits prod.splits recv.splits)
  with o open_recv [OF o] show ?thesis by auto
qed (use st o in \<open>auto simp: notifier_op_defs intro: open_chan.intros split: option.splits notifier_pc.splits if_splits\<close>)

interpretation notifier_open: invariant "\<lambda>n. n = notifier_new K" "notifier_step K P" "\<lambda>n. open_chan K (nchan n)" for K P
  by unfold_locales (auto simp: notifier_new_def open_new intro: notifier_step_open)

lemma send_completion_accepted:
  assumes "chan_accepts K" "reach (\<lambda>n. n = notifier_new K) (notifier_step K P) n"
  shows "posted (send_completion K m n) = posted n @ [m]"
proof -
  have "fst (ch_send K m (nchan n))"
    using assms(1) notifier_open.reach_inv [OF assms(2)] by (simp add: chan_accepts_def)
  then show ?thesis by (simp add: send_completion_def Let_def case_prod_beta)
qed

text \<open>
  A closed sink stays closed: once \<open>close\<close> has emptied an initialised sink, no
  registration, send, close or worker step gives out a sender again.
\<close>

theorem closed_sink_stays_closed:
  assumes "sink n = Some False" "run (notifier_step K P) es n = Some n'"
  shows "sink n' = Some False \<and> \<not> fst (sink_sender K n')"
proof -
  have step: "sink m = Some False \<Longrightarrow> notifier_step K P e m = Some m' \<Longrightarrow> sink m' = Some False"
    for m m' e
    by (cases e) (auto simp: notifier_op_defs Let_def
        split: if_splits notifier_pc.splits list.splits prod.splits recv.splits)
  have "sink n' = Some False"
    using assms by (induction es arbitrary: n) (auto split: option.splits dest: step)
  then show ?thesis by (simp add: sink_sender_def)
qed

lemma closed_sink_stays_closed_witness:
  "\<exists>n'. run (notifier_step list_chan (\<lambda>h _. h)) [EnsureWorker, TakeSender, CloseSink]
     example_notifier = Some n' \<and> sink n' = Some False"
proof -
  have s: "sink example_notifier = Some False" by (simp add: example_notifier_def)
  obtain n' where n': "run (notifier_step list_chan (\<lambda>h _. h))
      [EnsureWorker, TakeSender, CloseSink] example_notifier = Some n'"
    by simp
  from closed_sink_stays_closed [OF s n'] n' show ?thesis by blast
qed

end
