(* ===== verification/Handle.thy ===== *)
theory Handle
  imports Task
begin

text \<open>
  \<open>handle.rs\<close>: the \<open>TaskHandle\<close> that \<open>submit\<close> returns. The receiving half of the task's oneshot
  is the \<open>Option\<close> of the source; the oneshot itself is passed to the operations that use it.
\<close>

record task_handle =
  th_core :: core_ref
  result_receiver :: bool   \<comment> \<open>the \<open>Option\<close> is \<open>Some\<close>\<close>
  is_detached :: bool

definition handle_new :: "core_ref \<Rightarrow> task_handle" where
  "handle_new r = \<lparr>th_core = r, result_receiver = True, is_detached = False\<rparr>"

definition handle_id :: "'n heap \<Rightarrow> task_handle \<Rightarrow> u64" where
  "handle_id h t = task_id (h ! th_core t)"

definition handle_labels :: "'n heap \<Rightarrow> task_handle \<Rightarrow> task_label set" where
  "handle_labels h t = labels (h ! th_core t)"

definition is_cancellation_requested :: "'n heap \<Rightarrow> task_handle \<Rightarrow> bool" where
  "is_cancellation_requested h t = core_is_cancelled (h ! th_core t)"

definition handle_cancel :: "'n notify_ops \<Rightarrow> task_handle \<Rightarrow> 'n heap \<Rightarrow> 'n heap" where
  "handle_cancel N t h = heap_cancel N (th_core t) h"

definition handle_detach ::
  "('r task_result, 'o) oneshot_ops \<Rightarrow> task_handle \<Rightarrow> 'o \<Rightarrow> task_handle \<times> 'o" where
  "handle_detach O1 t c =
     (t\<lparr>is_detached := True, result_receiver := False\<rparr>,
      if result_receiver t then os_drop_rx O1 c else c)"

section \<open>Awaiting the result\<close>

text \<open>\<open>{}\<close> of a \<open>u64\<close> in a format string.\<close>

fun decimal :: "nat \<Rightarrow> string" where
  "decimal n =
     (if n < 10 then [char_of (48 + n)] else decimal (n div 10) @ [char_of (48 + n mod 10)])"

declare decimal.simps [simp del]

definition channel_closed_message :: "u64 \<Rightarrow> string \<Rightarrow> string" where
  "channel_closed_message i err =
     ''Task (id: '' @ decimal (unat i) @ '') result channel unexpectedly closed: '' @ err"

text \<open>\<open>await_result\<close> takes the receiver; without one it returns at once.\<close>

definition await_begin :: "task_handle \<Rightarrow> 'r task_result option \<times> task_handle" where
  "await_begin t =
     (if result_receiver t then (None, t\<lparr>result_receiver := False\<rparr>)
      else (Some (Inl ResultUnavailable), t))"

text \<open>A poll of the receiver; \<open>err\<close> is the text of the channel's error.\<close>

definition await_poll ::
  "('r task_result, 'o) oneshot_ops \<Rightarrow> string \<Rightarrow> u64 \<Rightarrow> 'o \<Rightarrow> 'r task_result option \<times> 'o" where
  "await_poll O1 err i c =
     (case os_recv O1 c of
        (RecvOk res, c') \<Rightarrow> (Some res, c')
      | (RecvDisconnected, c') \<Rightarrow> (Some (Inl (ResultChannelError (channel_closed_message i err))), c')
      | (RecvPending, c') \<Rightarrow> (None, c'))"

lemma await_poll_cases:
  assumes "oneshot_laws O1" "await_poll O1 err i c = (x, c')"
  shows "os_value O1 c' = os_value O1 c \<and>
    (x = None \<or> x = Some (Inl (ResultChannelError (channel_closed_message i err))) \<or>
     (\<exists>res. x = Some res \<and> os_value O1 c = Some res))"
  using assms(2) os_recv_Ok [OF assms(1)] os_recv_keeps [OF assms(1)]
  by (auto simp: await_poll_def split: prod.splits recv.splits)

lemma handle_detach_value:
  "oneshot_laws O1 \<Longrightarrow> os_value O1 (snd (handle_detach O1 t c)) = os_value O1 c"
  by (simp add: handle_detach_def os_drop_rx_value)

section \<open>Reading an error back\<close>

text \<open>The task's id as a reader of the error text finds it: the digits before the bracket.\<close>

definition read_decimal :: "string \<Rightarrow> nat" where
  "read_decimal s = foldl (\<lambda>n c. 10 * n + (of_char c - 48)) 0 s"

definition message_task_id :: "string \<Rightarrow> nat" where
  "message_task_id s = read_decimal (takeWhile (\<lambda>c. c \<noteq> CHR '')'') (drop 10 s))"

lemma read_decimal_snoc: "read_decimal (s @ [c]) = 10 * read_decimal s + (of_char c - 48)"
  by (simp add: read_decimal_def)

lemma of_char_digit: "d < 10 \<Longrightarrow> of_char (char_of (48 + d :: nat)) = 48 + d"
  by (simp add: of_char_of)

lemma read_decimal_decimal: "read_decimal (decimal n) = n"
proof (induction n rule: decimal.induct)
  case (1 n)
  show ?case
  proof (cases "n < 10")
    case True
    then show ?thesis by (simp add: decimal.simps [of n] read_decimal_def of_char_digit)
  next
    case False
    with 1 show ?thesis
      by (simp add: decimal.simps [of n] read_decimal_snoc of_char_digit)
  qed
qed

lemma decimal_digits: "c \<in> set (decimal n) \<Longrightarrow> c \<noteq> CHR '')''"
proof (induction n rule: decimal.induct)
  case (1 n)
  have "char_of (48 + d) \<noteq> CHR '')''" if "d < 10" for d :: nat
  proof
    assume "char_of (48 + d) = CHR '')''"
    then have "of_char (char_of (48 + d)) = (of_char (CHR '')'') :: nat)" by simp
    with that show False by (simp add: of_char_digit)
  qed
  from this [of n] this [of "n mod 10"] 1 show ?case
    by (auto simp: decimal.simps [of n] split: if_splits)
qed

text \<open>
  C40. The text of a channel error names the task: the decimal number in it reads back as the id
  the handle printed, for every 64-bit id and every text of the channel's own error, so errors of
  different tasks are told apart.
\<close>

theorem channel_closed_message_names_task:
  "message_task_id (channel_closed_message i err) = unat i"
proof -
  have "takeWhile (\<lambda>c. c \<noteq> CHR '')'') (decimal (unat i) @ '') result channel unexpectedly closed: '' @ err) =
      decimal (unat i)"
    using decimal_digits by (subst takeWhile_append2) auto
  then show ?thesis
    by (simp add: message_task_id_def channel_closed_message_def read_decimal_decimal)
qed
end
