(* ===== verification/Gate.thy ===== *)
theory Gate
  imports Externals
begin

text \<open>
  \<open>capacity_gate.rs\<close>: a semaphore with its capacity. \<open>acquire\<close> and \<open>acquire_owned\<close> poll the
  same future; what differs is which guard carries the permit, and every guard
  (\<open>GenericSemaphoreReleaser\<close>, \<open>OwnedPermitGuard\<close>, and \<open>Permit\<close> of \<open>task_queue.rs\<close>) gives one
  permit back when it is dropped.
\<close>

record 's capacity_gate =
  capacity :: nat
  semaphore :: 's

definition gate_new :: "'s sem_ops \<Rightarrow> nat \<Rightarrow> 's capacity_gate" where
  "gate_new S n = \<lparr>capacity = n, semaphore = sem_new S True n\<rparr>"

text \<open>A poll of the future of \<open>acquire()\<close> or \<open>acquire_owned()\<close> by the caller \<open>w\<close>.\<close>

definition gate_poll_acquire ::
  "'s sem_ops \<Rightarrow> nat \<Rightarrow> 's capacity_gate \<Rightarrow> bool \<times> 's capacity_gate" where
  "gate_poll_acquire S w g =
     (let (b, s) = sem_poll_acquire S w (semaphore g) in (b, g\<lparr>semaphore := s\<rparr>))"

definition gate_drop_acquire :: "'s sem_ops \<Rightarrow> nat \<Rightarrow> 's capacity_gate \<Rightarrow> 's capacity_gate" where
  "gate_drop_acquire S w g = g\<lparr>semaphore := sem_drop_acquire S w (semaphore g)\<rparr>"

definition gate_try_acquire_owned :: "'s sem_ops \<Rightarrow> 's capacity_gate \<Rightarrow> 's capacity_gate option" where
  "gate_try_acquire_owned S g =
     map_option (\<lambda>s. g\<lparr>semaphore := s\<rparr>) (sem_try_acquire S (semaphore g))"

definition gate_release :: "'s sem_ops \<Rightarrow> 's capacity_gate \<Rightarrow> 's capacity_gate" where
  "gate_release S g = g\<lparr>semaphore := sem_release S 1 (semaphore g)\<rparr>"

definition gate_get_permits :: "'s sem_ops \<Rightarrow> 's capacity_gate \<Rightarrow> nat" where
  "gate_get_permits S g = sem_permits S (semaphore g)"

lemmas gate_defs = gate_new_def gate_poll_acquire_def gate_drop_acquire_def
  gate_try_acquire_owned_def gate_release_def gate_get_permits_def

section \<open>The interface of a gate\<close>

text \<open>
  What the queue and the managers need of a gate: a successful poll or \<open>try_acquire\<close> takes
  exactly one available permit, a release adds one, the rest changes nothing. The laws hold
  where the semaphore keeps its own (\<open>lawful\<close>). Inside, conservation: with \<open>k\<close> guards alive
  and \<open>n\<close> permits in all, each operation keeps \<open>avail + k = n\<close>.
\<close>

locale permit_gate =
  fixes lawful :: bool
    and avail :: "'g \<Rightarrow> nat"
    and poll :: "nat \<Rightarrow> 'g \<Rightarrow> bool \<times> 'g"
    and abandon :: "nat \<Rightarrow> 'g \<Rightarrow> 'g"
    and try_acquire :: "'g \<Rightarrow> 'g option"
    and release :: "'g \<Rightarrow> 'g"
  assumes poll_True: "lawful \<Longrightarrow> poll w g = (True, g') \<Longrightarrow> avail g = Suc (avail g')"
    and poll_False: "lawful \<Longrightarrow> poll w g = (False, g') \<Longrightarrow> avail g' = avail g"
    and abandon_avail: "lawful \<Longrightarrow> avail (abandon w g) = avail g"
    and try_Some: "lawful \<Longrightarrow> try_acquire g = Some g' \<Longrightarrow> avail g = Suc (avail g')"
    and release_avail: "lawful \<Longrightarrow> avail (release g) = Suc (avail g)"
begin

lemma poll_avail: "lawful \<Longrightarrow> poll w g = (b, g') \<Longrightarrow> avail g = avail g' + of_bool b"
  by (cases b) (auto dest: poll_True poll_False)

lemma none_left: "lawful \<Longrightarrow> avail g = 0 \<Longrightarrow> \<not> fst (poll w g) \<and> try_acquire g = None"
  by (cases "poll w g"; cases "try_acquire g") (auto dest: poll_True try_Some)

lemma conserve_poll:
  "lawful \<Longrightarrow> poll w g = (b, g') \<Longrightarrow> avail g + k = n \<Longrightarrow> avail g' + (of_bool b + k) = n"
  by (drule (1) poll_avail) simp

lemma conserve_release: "lawful \<Longrightarrow> avail g + Suc k = n \<Longrightarrow> avail (release g) + k = n"
  by (simp add: release_avail)

end

interpretation gate: permit_gate "sem_laws S" "gate_get_permits S" "gate_poll_acquire S"
    "gate_drop_acquire S" "gate_try_acquire_owned S" "gate_release S" for S
  by unfold_locales (auto simp: gate_defs sem_lawD split: prod.splits dest: sem_lawD)

lemma gate_new_permits: "sem_laws S \<Longrightarrow> gate_get_permits S (gate_new S n) = n"
  by (simp add: gate_defs sem_new_permits)

lemma gate_capacity [simp]:
  "capacity (gate_new S n) = n" "capacity (snd (gate_poll_acquire S w g)) = capacity g"
  "capacity (gate_drop_acquire S w g) = capacity g" "capacity (gate_release S g) = capacity g"
  by (simp_all add: gate_defs split: prod.splits)

end
