(* ===== verification/TaskQueue.thy ===== *)
theory TaskQueue
  imports Gate Task
begin

text \<open>
  \<open>task_queue.rs\<close>: the bounded task queue, an unbounded channel behind a \<open>CapacityGate\<close>.
  A permit is acquired before a message is sent, travels with it and is released when the
  message is received or dropped. Each call of \<open>QueueProducer::send\<close> is a program counter,
  one step per point where another thread can move; \<open>sd\<close> is the shutdown token's flag at
  that step.
\<close>

section \<open>State\<close>

record 'r queue_message =
  qm_task :: "'r managed_task"

datatype send_pc =
    SendCheck          \<comment> \<open>at the entry checks\<close>
  | SendPollShutdown   \<comment> \<open>at the \<open>select!\<close>, polling the shutdown arm\<close>
  | SendPollGate       \<comment> \<open>at the \<open>select!\<close>, polling the gate\<close>
  | SendMessage        \<comment> \<open>holding a permit, about to send\<close>
  | SendDone "pool_error + unit"
  | SendDropped        \<comment> \<open>the caller dropped the future\<close>

text \<open>
  \<open>sent\<close> and \<open>received\<close> are histories: the tasks whose send succeeded, and the tasks that
  left the channel (received, or dropped with the receiver), in order.
\<close>

record ('r, 'q, 's) task_queue =
  chan :: 'q
  qgate :: "'s capacity_gate"
  sends :: "('r managed_task \<times> send_pc) list"
  sent :: "core_ref list"
  received :: "core_ref list"

type_synonym ('r, 'q) queue_ops = "('r queue_message, 'q) chan_ops"

definition queue_new ::
  "('r, 'q) queue_ops \<Rightarrow> 's sem_ops \<Rightarrow> nat \<Rightarrow> ('r, 'q, 's) task_queue" where
  "queue_new C S n =
     \<lparr>chan = ch_new C, qgate = gate_new S n, sends = [], sent = [], received = []\<rparr>"

section \<open>Producer\<close>

definition queue_is_closed :: "('r, 'q) queue_ops \<Rightarrow> ('r, 'q, 's) task_queue \<Rightarrow> bool" where
  "queue_is_closed C q = ch_is_closed C (chan q)"

definition queue_close :: "('r, 'q) queue_ops \<Rightarrow> ('r, 'q, 's) task_queue \<Rightarrow> ('r, 'q, 's) task_queue" where
  "queue_close C q = q\<lparr>chan := ch_close C (chan q)\<rparr>"

definition queue_len :: "('r, 'q) queue_ops \<Rightarrow> ('r, 'q, 's) task_queue \<Rightarrow> nat" where
  "queue_len C q = ch_len C (chan q)"

text \<open>
  The end of \<open>send\<close>, with the temporary guard in hand. The sender is cloned for the call. On
  success the guard is forgotten and the permit stays with the message. On failure the
  message is dropped, and its \<open>Permit\<close> with it, and then the guard is dropped too.
\<close>

definition queue_push ::
  "('r, 'q) queue_ops \<Rightarrow> 's sem_ops \<Rightarrow> 'r managed_task \<Rightarrow> ('r, 'q, 's) task_queue \<Rightarrow>
     (pool_error + unit) \<times> ('r, 'q, 's) task_queue" where
  "queue_push C S t q =
     (let (ok, c) = ch_send C \<lparr>qm_task = t\<rparr> (ch_clone_tx C (chan q));
          c = ch_drop_tx C c in
      if ok then (Inr (), q\<lparr>chan := c, sent := sent q @ [mt_core t]\<rparr>)
      else (Inl QueueSendChannelClosed,
            q\<lparr>chan := c, qgate := gate_release S (gate_release S (qgate q))\<rparr>))"

fun send_step ::
  "('r, 'q) queue_ops \<Rightarrow> 's sem_ops \<Rightarrow> bool \<Rightarrow> nat \<Rightarrow> 'r managed_task \<Rightarrow> send_pc \<Rightarrow>
     ('r, 'q, 's) task_queue \<Rightarrow> (send_pc \<times> ('r, 'q, 's) task_queue) option" where
  "send_step C S sd w t SendCheck q =
     Some (if sd \<or> queue_is_closed C q then SendDone (Inl PoolShuttingDown) else SendPollShutdown, q)"
| "send_step C S sd w t SendPollShutdown q =
     (if sd then Some (SendDone (Inl PoolShuttingDown), q\<lparr>qgate := gate_drop_acquire S w (qgate q)\<rparr>)
      else Some (SendPollGate, q))"
| "send_step C S sd w t SendPollGate q =
     (let (b, g) = gate_poll_acquire S w (qgate q) in
      Some (if b then SendMessage else SendPollShutdown, q\<lparr>qgate := g\<rparr>))"
| "send_step C S sd w t SendMessage q =
     (let (res, q') = queue_push C S t q in Some (SendDone res, q'))"
| "send_step C S sd w t (SendDone res) q = None"
| "send_step C S sd w t SendDropped q = None"

definition queue_begin_send ::
  "'r managed_task \<Rightarrow> ('r, 'q, 's) task_queue \<Rightarrow> ('r, 'q, 's) task_queue" where
  "queue_begin_send t q = q\<lparr>sends := sends q @ [(t, SendCheck)]\<rparr>"

definition queue_step_send ::
  "('r, 'q) queue_ops \<Rightarrow> 's sem_ops \<Rightarrow> bool \<Rightarrow> nat \<Rightarrow> ('r, 'q, 's) task_queue \<Rightarrow>
     ('r, 'q, 's) task_queue option" where
  "queue_step_send C S sd w q =
     (if w < length (sends q) then
        (let (t, pc) = sends q ! w in
         case send_step C S sd w t pc q of
           None \<Rightarrow> None
         | Some (pc', q') \<Rightarrow> Some (q'\<lparr>sends := (sends q')[w := (t, pc')]\<rparr>))
      else None)"

text \<open>
  A caller may drop the future of \<open>send\<close> before its first poll or while it is suspended at the
  \<open>select!\<close>, which then drops the waiting acquisition.
\<close>

definition queue_abandon_send ::
  "'s sem_ops \<Rightarrow> nat \<Rightarrow> ('r, 'q, 's) task_queue \<Rightarrow> ('r, 'q, 's) task_queue option" where
  "queue_abandon_send S w q =
     (if w < length (sends q) then
        (let (t, pc) = sends q ! w; q' = q\<lparr>sends := (sends q)[w := (t, SendDropped)]\<rparr> in
         case pc of
           SendCheck \<Rightarrow> Some q'
         | SendPollShutdown \<Rightarrow> Some (q'\<lparr>qgate := gate_drop_acquire S w (qgate q)\<rparr>)
         | _ \<Rightarrow> None)
      else None)"

text \<open>\<open>QueueProducer\<close> is \<open>Clone\<close>; a clone and its drop count in the channel's senders.\<close>

definition queue_clone_producer ::
  "('r, 'q) queue_ops \<Rightarrow> ('r, 'q, 's) task_queue \<Rightarrow> ('r, 'q, 's) task_queue" where
  "queue_clone_producer C q = q\<lparr>chan := ch_clone_tx C (chan q)\<rparr>"

definition queue_drop_producer ::
  "('r, 'q) queue_ops \<Rightarrow> ('r, 'q, 's) task_queue \<Rightarrow> ('r, 'q, 's) task_queue" where
  "queue_drop_producer C q = q\<lparr>chan := ch_drop_tx C (chan q)\<rparr>"

section \<open>Consumer\<close>

text \<open>A poll of \<open>recv\<close>: the message's permit is dropped as the task is handed out.\<close>

definition queue_recv ::
  "('r, 'q) queue_ops \<Rightarrow> 's sem_ops \<Rightarrow> ('r, 'q, 's) task_queue \<Rightarrow>
     'r managed_task recv \<times> ('r, 'q, 's) task_queue" where
  "queue_recv C S q =
     (case ch_recv C (chan q) of
        (RecvOk m, c) \<Rightarrow>
          (RecvOk (qm_task m),
           q\<lparr>chan := c, qgate := gate_release S (qgate q),
             received := received q @ [mt_core (qm_task m)]\<rparr>)
      | (RecvPending, c) \<Rightarrow> (RecvPending, q\<lparr>chan := c\<rparr>)
      | (RecvDisconnected, c) \<Rightarrow> (RecvDisconnected, q\<lparr>chan := c\<rparr>))"

text \<open>Dropping the consumer: every message dropped with it drops its permit.\<close>

definition queue_drop_consumer ::
  "('r, 'q) queue_ops \<Rightarrow> 's sem_ops \<Rightarrow> ('r, 'q, 's) task_queue \<Rightarrow>
     core_ref list \<times> ('r, 'q, 's) task_queue" where
  "queue_drop_consumer C S q =
     (let (ms, c) = ch_drop_rx C (chan q); rs = map (mt_core \<circ> qm_task) ms in
      (rs, q\<lparr>chan := c, qgate := (gate_release S ^^ length ms) (qgate q),
             received := received q @ rs\<rparr>))"

section \<open>The queue on its own: any number of senders, one consumer\<close>

datatype 'r queue_event =
    BeginSend "'r managed_task" | StepSend bool nat | AbandonSend nat | Recv | Close
  | CloneProducer | DropProducer | DropConsumer

fun queue_step ::
  "('r, 'q) queue_ops \<Rightarrow> 's sem_ops \<Rightarrow> 'r queue_event \<Rightarrow> ('r, 'q, 's) task_queue \<Rightarrow>
     ('r, 'q, 's) task_queue option" where
  "queue_step C S (BeginSend t) q = Some (queue_begin_send t q)"
| "queue_step C S (StepSend sd w) q = queue_step_send C S sd w q"
| "queue_step C S (AbandonSend w) q = queue_abandon_send S w q"
| "queue_step C S CloneProducer q = Some (queue_clone_producer C q)"
| "queue_step C S DropProducer q = Some (queue_drop_producer C q)"
| "queue_step C S Recv q = Some (snd (queue_recv C S q))"
| "queue_step C S Close q = Some (queue_close C q)"
| "queue_step C S DropConsumer q = Some (snd (queue_drop_consumer C S q))"

section \<open>Permits and order\<close>

definition queued :: "('r, 'q) queue_ops \<Rightarrow> ('r, 'q, 's) task_queue \<Rightarrow> core_ref list" where
  "queued C q = map (mt_core \<circ> qm_task) (ch_items C (chan q))"

abbreviation holds_slot :: "'r managed_task \<times> send_pc \<Rightarrow> bool" where
  "holds_slot x \<equiv> snd x = SendMessage"

abbreviation failed_send :: "'r managed_task \<times> send_pc \<Rightarrow> bool" where
  "failed_send x \<equiv> snd x = SendDone (Inl QueueSendChannelClosed)"

abbreviation succeeded_send :: "'r managed_task \<times> send_pc \<Rightarrow> bool" where
  "succeeded_send x \<equiv> snd x = SendDone (Inr ())"

text \<open>
  Every permit is available, held by a sender or travelling with a queued message; each
  failed send adds one to their number. The channel holds what was sent and has not left
  it, in order; the tasks sent are those whose call returned \<open>Ok\<close>.
\<close>

definition queue_inv ::
  "('r, 'q) queue_ops \<Rightarrow> 's sem_ops \<Rightarrow> nat \<Rightarrow> ('r, 'q, 's) task_queue \<Rightarrow> bool" where
  "queue_inv C S n q \<longleftrightarrow>
     gate_get_permits S (qgate q) + count_if holds_slot (sends q) + length (queued C q) =
       n + count_if failed_send (sends q) \<and>
     sent q = received q @ queued C q \<and>
     mset (sent q) = mset (map (mt_core \<circ> fst) (filter succeeded_send (sends q)))"

lemma mset_filter_update_gain:
  assumes "i < length xs" "\<not> P (xs ! i)" "P y"
  shows "mset (map f (filter P (xs[i := y]))) = add_mset (f y) (mset (map f (filter P xs)))"
  using assms
proof (induction xs arbitrary: i)
  case Nil
  then show ?case by simp
next
  case (Cons x xs)
  then show ?case by (cases i) auto
qed

lemma filter_update_neutral:
  assumes "i < length xs" "\<not> P (xs ! i)" "\<not> P y"
  shows "filter P (xs[i := y]) = filter P xs"
  using assms
proof (induction xs arbitrary: i)
  case Nil
  then show ?case by simp
next
  case (Cons x xs)
  then show ?case by (cases i) auto
qed


text \<open>The gate writes of a step, and the tasks it adds, in one equation each.\<close>

abbreviation pushed :: "'r managed_task \<Rightarrow> send_pc \<Rightarrow> core_ref list" where
  "pushed t pc \<equiv> (if pc = SendDone (Inr ()) then [mt_core t] else [])"

lemma queue_push_effect:
  assumes C: "chan_laws C" and S: "sem_laws S" and p: "queue_push C S t q = (res, q')"
  shows "sends q' = sends q \<and> received q' = received q \<and>
         sent q' = sent q @ pushed t (SendDone res) \<and>
         queued C q' = queued C q @ pushed t (SendDone res) \<and>
         (res = Inr () \<or> res = Inl QueueSendChannelClosed) \<and>
         gate_get_permits S (qgate q') =
           gate_get_permits S (qgate q) + (if res = Inr () then 0 else 2)"
proof -
  obtain ok c where s: "ch_send C \<lparr>qm_task = t\<rparr> (ch_clone_tx C (chan q)) = (ok, c)"
    by (cases "ch_send C \<lparr>qm_task = t\<rparr> (ch_clone_tx C (chan q))")
  show ?thesis
  proof (cases ok)
    case True
    with s have "ch_items C c = ch_items C (chan q) @ [\<lparr>qm_task = t\<rparr>]"
      by (simp add: ch_send_True [OF C] ch_clone_items [OF C])
    with True s p show ?thesis
      by (auto simp: queue_push_def Let_def queued_def ch_drop_items [OF C])
  next
    case False
    with s have "ch_items C c = ch_items C (chan q)"
      by (simp add: ch_send_False [OF C] ch_clone_items [OF C])
    with False s p show ?thesis
      by (auto simp: queue_push_def Let_def queued_def ch_drop_items [OF C] gate.release_avail [OF S])
  qed
qed

lemma send_step_effect:
  assumes C: "chan_laws C" and S: "sem_laws S" and st: "send_step C S sd w t pc q = Some (pc', q')"
  shows "sends q' = sends q \<and> received q' = received q \<and>
         sent q' = sent q @ pushed t pc' \<and> queued C q' = queued C q @ pushed t pc' \<and>
         (\<forall>r. pc \<noteq> SendDone r) \<and>
         gate_get_permits S (qgate q') + of_bool (pc' = SendMessage) + length (queued C q') =
         gate_get_permits S (qgate q) + of_bool (pc = SendMessage) + length (queued C q) +
           of_bool (pc' = SendDone (Inl QueueSendChannelClosed))"
proof (cases pc)
  case SendMessage
  with st obtain res where p: "queue_push C S t q = (res, q')" and pc': "pc' = SendDone res"
    by (auto split: prod.splits)
  from queue_push_effect [OF C S p] SendMessage pc' show ?thesis by auto
next
  case SendPollGate
  with st show ?thesis
    using gate.poll_avail [OF S] by (auto simp: queued_def split: prod.splits)
qed (use st in \<open>auto simp: queued_def gate.abandon_avail [OF S] split: if_splits\<close>)

lemma queue_recv_effect:
  assumes C: "chan_laws C" and S: "sem_laws S" and r: "queue_recv C S q = (r, q')"
  shows "sends q' = sends q \<and> sent q' = sent q \<and>
         (case r of
            RecvOk t \<Rightarrow> queued C q = mt_core t # queued C q' \<and> received q' = received q @ [mt_core t] \<and>
              gate_get_permits S (qgate q') = Suc (gate_get_permits S (qgate q))
          | _ \<Rightarrow> queued C q = [] \<and> queued C q' = [] \<and> received q' = received q \<and> qgate q' = qgate q)"
proof -
  obtain x c where x: "ch_recv C (chan q) = (x, c)" by (cases "ch_recv C (chan q)")
  show ?thesis
  proof (cases x)
    case (RecvOk m)
    with x r show ?thesis
      using ch_recv_Ok [OF C, of "chan q" m c] gate.release_avail [OF S]
      by (auto simp: queue_recv_def queued_def)
  next
    case RecvPending
    with x r show ?thesis
      using ch_recv_Pending [OF C, of "chan q" c] by (auto simp: queue_recv_def queued_def)
  next
    case RecvDisconnected
    with x r show ?thesis
      using ch_recv_Disconnected [OF C, of "chan q" c] by (auto simp: queue_recv_def queued_def)
  qed
qed

lemma gate_release_funpow:
  "sem_laws S \<Longrightarrow> gate_get_permits S ((gate_release S ^^ k) g) = gate_get_permits S g + k"
  by (induction k) (simp_all add: gate.release_avail)

lemma queue_drop_consumer_effect:
  assumes C: "chan_laws C" and S: "sem_laws S" and d: "queue_drop_consumer C S q = (rs, q')"
  shows "sends q' = sends q \<and> sent q' = sent q \<and> queued C q = rs @ queued C q' \<and>
         received q' = received q @ rs \<and>
         gate_get_permits S (qgate q') = gate_get_permits S (qgate q) + length rs"
proof -
  obtain ms c where x: "ch_drop_rx C (chan q) = (ms, c)" by (cases "ch_drop_rx C (chan q)")
  with d ch_drop_rx_items [OF C x] show ?thesis
    by (auto simp: queue_drop_consumer_def Let_def queued_def gate_release_funpow [OF S])
qed

lemma queue_step_send_cases:
  assumes "queue_step_send C S sd w q = Some q2"
  obtains t pc pc' q' where "w < length (sends q)" "sends q ! w = (t, pc)"
    "send_step C S sd w t pc q = Some (pc', q')" "q2 = q'\<lparr>sends := (sends q')[w := (t, pc')]\<rparr>"
  using assms by (auto simp: queue_step_send_def split: if_splits prod.splits option.splits)

lemma queue_step_send_inv:
  assumes C: "chan_laws C" and S: "sem_laws S" and inv: "queue_inv C S n q"
    and st: "queue_step_send C S sd w q = Some q2"
  shows "queue_inv C S n q2"
  using st
proof (cases rule: queue_step_send_cases)
  case (1 t pc pc' q')
  note e = send_step_effect [OF C S 1(3)]
  let ?xs = "sends q"
  have q2: "sends q2 = ?xs[w := (t, pc')]" "qgate q2 = qgate q'" "queued C q2 = queued C q'"
    "sent q2 = sent q'" "received q2 = received q'"
    using 1(4) e by (auto simp: queued_def)
  have slots: "count_if holds_slot (sends q2) + of_bool (pc = SendMessage) =
      count_if holds_slot ?xs + of_bool (pc' = SendMessage)"
    using count_if_update [OF 1(1), of holds_slot "(t, pc')"] 1(2) by (simp add: q2)
  have fails: "count_if failed_send (sends q2) =
      count_if failed_send ?xs + of_bool (pc' = SendDone (Inl QueueSendChannelClosed))"
    using count_if_update [OF 1(1), of failed_send "(t, pc')"] 1(2) e by (simp add: q2)
  have oks: "mset (map (mt_core \<circ> fst) (filter succeeded_send (sends q2))) =
      mset (map (mt_core \<circ> fst) (filter succeeded_send ?xs)) + mset (pushed t pc')"
  proof (cases "pc' = SendDone (Inr ())")
    case True
    with mset_filter_update_gain [OF 1(1), of succeeded_send "(t, pc')" "mt_core \<circ> fst"] 1(2) e
    show ?thesis by (simp add: q2)
  next
    case False
    with filter_update_neutral [OF 1(1), of succeeded_send "(t, pc')"] 1(2) e
    show ?thesis by (simp add: q2)
  qed
  show ?thesis
    using inv e slots fails oks unfolding queue_inv_def q2 by auto
qed

text \<open>Abandoning a send, cloning, dropping and closing a producer move no permit and no task.\<close>

lemma queue_abandon_cases:
  assumes "queue_abandon_send S w q = Some q2"
  obtains t pc where "w < length (sends q)" "sends q ! w = (t, pc)"
    "pc = SendCheck \<or> pc = SendPollShutdown" "sends q2 = (sends q)[w := (t, SendDropped)]"
    "sent q2 = sent q" "received q2 = received q" "chan q2 = chan q"
    "qgate q2 = qgate q \<or> qgate q2 = gate_drop_acquire S w (qgate q)"
proof -
  obtain t pc where tp: "sends q ! w = (t, pc)" by (cases "sends q ! w")
  have w: "w < length (sends q)" using assms by (simp add: queue_abandon_send_def split: if_splits)
  consider "pc = SendCheck" "q2 = q\<lparr>sends := (sends q)[w := (t, SendDropped)]\<rparr>"
    | "pc = SendPollShutdown"
      "q2 = q\<lparr>sends := (sends q)[w := (t, SendDropped)], qgate := gate_drop_acquire S w (qgate q)\<rparr>"
    using assms tp w by (cases pc) (auto simp: queue_abandon_send_def Let_def)
  then show ?thesis by cases (use that [OF w tp] in simp_all)
qed

lemma queue_abandon_inv:
  assumes S: "sem_laws S" and inv: "queue_inv C S n q" and st: "queue_abandon_send S w q = Some q2"
  shows "queue_inv C S n q2"
  using st
proof (cases rule: queue_abandon_cases)
  case (1 t pc)
  let ?x = "(t, SendDropped)"
  have "gate_get_permits S (qgate q2) = gate_get_permits S (qgate q)"
    using 1(8) by (auto simp: gate.abandon_avail [OF S])
  moreover have "count_if holds_slot ((sends q)[w := ?x]) = count_if holds_slot (sends q)"
    "count_if failed_send ((sends q)[w := ?x]) = count_if failed_send (sends q)"
    using 1(1-3) by (auto intro: count_if_update_same)
  moreover have "filter succeeded_send ((sends q)[w := ?x]) = filter succeeded_send (sends q)"
    using 1(1-3) by (auto intro: filter_update_neutral)
  ultimately show ?thesis
    using inv unfolding queue_inv_def queued_def 1(4-7) by metis
qed

lemma queue_producer_ops [simp]:
  "sends (queue_clone_producer C q) = sends q" "sends (queue_drop_producer C q) = sends q"
  "sends (queue_close C q) = sends q"
  "sent (queue_clone_producer C q) = sent q" "sent (queue_drop_producer C q) = sent q"
  "sent (queue_close C q) = sent q"
  "received (queue_clone_producer C q) = received q" "received (queue_drop_producer C q) = received q"
  "received (queue_close C q) = received q"
  "qgate (queue_clone_producer C q) = qgate q" "qgate (queue_drop_producer C q) = qgate q"
  "qgate (queue_close C q) = qgate q"
  by (simp_all add: queue_clone_producer_def queue_drop_producer_def queue_close_def)

lemma queue_producer_queued:
  assumes "chan_laws C"
  shows "queued C (queue_clone_producer C q) = queued C q"
    and "queued C (queue_drop_producer C q) = queued C q"
    and "queued C (queue_close C q) = queued C q"
  by (simp_all add: queued_def queue_clone_producer_def queue_drop_producer_def queue_close_def
      ch_clone_items [OF assms] ch_drop_items [OF assms] ch_close_items [OF assms])

lemma queue_producer_inv:
  assumes "chan_laws C"
  shows "queue_inv C S n (queue_clone_producer C q) = queue_inv C S n q"
    and "queue_inv C S n (queue_drop_producer C q) = queue_inv C S n q"
    and "queue_inv C S n (queue_close C q) = queue_inv C S n q"
  by (simp_all add: queue_inv_def queue_producer_queued [OF assms])

lemma begin_send_queued [simp]:
  "queued C (queue_begin_send t q) = queued C q" "sent (queue_begin_send t q) = sent q"
  "received (queue_begin_send t q) = received q" "qgate (queue_begin_send t q) = qgate q"
  "sends (queue_begin_send t q) = sends q @ [(t, SendCheck)]"
  by (simp_all add: queued_def queue_begin_send_def)

lemma queue_recv_inv:
  assumes C: "chan_laws C" and S: "sem_laws S" and inv: "queue_inv C S n q"
    and r: "queue_recv C S q = (r, q')"
  shows "queue_inv C S n q'"
  using queue_recv_effect [OF C S r] inv by (cases r) (auto simp: queue_inv_def)

lemma queue_drop_consumer_inv:
  assumes C: "chan_laws C" and S: "sem_laws S" and inv: "queue_inv C S n q"
    and d: "queue_drop_consumer C S q = (rs, q')"
  shows "queue_inv C S n q'"
  using queue_drop_consumer_effect [OF C S d] inv by (auto simp: queue_inv_def)

lemma queue_begin_send_inv: "queue_inv C S n q \<Longrightarrow> queue_inv C S n (queue_begin_send t q)"
  by (auto simp: queue_inv_def queue_begin_send_def queued_def)

lemma queue_step_inv:
  assumes C: "chan_laws C" and S: "sem_laws S" and inv: "queue_inv C S n q"
    and st: "queue_step C S e q = Some q2"
  shows "queue_inv C S n q2"
  using st inv queue_step_send_inv [OF C S inv] queue_abandon_inv [OF S inv]
    queue_recv_inv [OF C S inv, of "fst (queue_recv C S q)"]
    queue_drop_consumer_inv [OF C S inv, of "fst (queue_drop_consumer C S q)"]
  by (cases e) (auto simp: queue_producer_inv [OF C] queue_begin_send_inv)

lemma queue_new_inv: "chan_laws C \<Longrightarrow> sem_laws S \<Longrightarrow> queue_inv C S n (queue_new C S n)"
  by (simp add: queue_inv_def queue_new_def queued_def ch_new_items gate_new_permits)

interpretation queue: invariant "\<lambda>q. q = queue_new C S n" "queue_step C S"
    "\<lambda>q. chan_laws C \<longrightarrow> sem_laws S \<longrightarrow> queue_inv C S n q" for C S n
proof unfold_locales
  show "q = queue_new C S n \<Longrightarrow> chan_laws C \<longrightarrow> sem_laws S \<longrightarrow> queue_inv C S n q" for q
    by (simp add: queue_new_inv)
  show "chan_laws C \<longrightarrow> sem_laws S \<longrightarrow> queue_inv C S n q \<Longrightarrow> queue_step C S e q = Some q2 \<Longrightarrow>
      chan_laws C \<longrightarrow> sem_laws S \<longrightarrow> queue_inv C S n q2" for e q q2
    by (blast intro: queue_step_inv)
qed


text \<open>The tasks themselves: what is in the channel was passed to a \<open>send\<close>.\<close>

definition queued_tasks :: "('r, 'q) queue_ops \<Rightarrow> ('r, 'q, 's) task_queue \<Rightarrow> 'r managed_task list" where
  "queued_tasks C q = map qm_task (ch_items C (chan q))"

definition queue_sources :: "('r, 'q) queue_ops \<Rightarrow> ('r, 'q, 's) task_queue \<Rightarrow> bool" where
  "queue_sources C q \<longleftrightarrow> set (queued_tasks C q) \<subseteq> fst ` set (sends q)"

lemma queue_push_tasks:
  assumes "chan_laws C" "queue_push C S t q = (res, q')"
  shows "set (queued_tasks C q') \<subseteq> insert t (set (queued_tasks C q))" "sends q' = sends q"
proof -
  obtain ok c where s: "ch_send C \<lparr>qm_task = t\<rparr> (ch_clone_tx C (chan q)) = (ok, c)"
    by (cases "ch_send C \<lparr>qm_task = t\<rparr> (ch_clone_tx C (chan q))")
  have "ch_items C c = ch_items C (chan q) @ (if ok then [\<lparr>qm_task = t\<rparr>] else [])"
    using s ch_send_True [OF assms(1)] ch_send_False [OF assms(1)]
    by (cases ok) (auto simp: ch_clone_items [OF assms(1)])
  then show "set (queued_tasks C q') \<subseteq> insert t (set (queued_tasks C q))" "sends q' = sends q"
    using assms(2) s by (auto simp: queue_push_def Let_def queued_tasks_def ch_drop_items [OF assms(1)]
        split: if_splits)
qed

lemma send_step_tasks:
  assumes "chan_laws C" "send_step C S sd w t pc q = Some (pc', q')"
  shows "set (queued_tasks C q') \<subseteq> insert t (set (queued_tasks C q)) \<and> sends q' = sends q"
proof (cases pc)
  case SendMessage
  with assms(2) obtain res where "queue_push C S t q = (res, q')" by (auto split: prod.splits)
  from queue_push_tasks [OF assms(1) this] show ?thesis by blast
qed (use assms(2) in \<open>auto simp: queued_tasks_def split: if_splits prod.splits\<close>)

lemma queue_producer_tasks:
  assumes "chan_laws C"
  shows "queued_tasks C (queue_clone_producer C q) = queued_tasks C q"
    and "queued_tasks C (queue_drop_producer C q) = queued_tasks C q"
    and "queued_tasks C (queue_close C q) = queued_tasks C q"
    and "queued_tasks C (queue_begin_send t q) = queued_tasks C q"
  by (simp_all add: queued_tasks_def queue_clone_producer_def queue_drop_producer_def queue_close_def
      queue_begin_send_def ch_clone_items [OF assms] ch_drop_items [OF assms] ch_close_items [OF assms])

lemma queue_recv_tasks:
  assumes "chan_laws C" "queue_recv C S q = (r, q')"
  shows "queued_tasks C q = (case r of RecvOk t \<Rightarrow> [t] | _ \<Rightarrow> []) @ queued_tasks C q' \<and> sends q' = sends q"
proof -
  obtain x c where x: "ch_recv C (chan q) = (x, c)" by (cases "ch_recv C (chan q)")
  show ?thesis
  proof (cases x)
    case (RecvOk m)
    then have "ch_items C (chan q) = m # ch_items C c" using x ch_recv_Ok [OF assms(1)] by blast
    with RecvOk x assms(2) show ?thesis by (auto simp: queue_recv_def queued_tasks_def)
  next
    case RecvPending
    then have "ch_items C (chan q) = [] \<and> ch_items C c = []"
      using x ch_recv_Pending [OF assms(1)] by blast
    with RecvPending x assms(2) show ?thesis by (auto simp: queue_recv_def queued_tasks_def)
  next
    case RecvDisconnected
    then have "ch_items C (chan q) = [] \<and> ch_items C c = []"
      using x ch_recv_Disconnected [OF assms(1)] by blast
    with RecvDisconnected x assms(2) show ?thesis by (auto simp: queue_recv_def queued_tasks_def)
  qed
qed

lemma queue_drop_consumer_tasks:
  assumes "chan_laws C" "queue_drop_consumer C S q = (rs, q')"
  shows "set (queued_tasks C q') \<subseteq> set (queued_tasks C q)" "sends q' = sends q"
proof -
  obtain ms c where x: "ch_drop_rx C (chan q) = (ms, c)" by (cases "ch_drop_rx C (chan q)")
  then show "set (queued_tasks C q') \<subseteq> set (queued_tasks C q)" "sends q' = sends q"
    using assms(2) ch_drop_rx_items [OF assms(1) x]
    by (auto simp: queue_drop_consumer_def Let_def queued_tasks_def)
qed

lemma fst_image_update: "w < length xs \<Longrightarrow> fst (xs ! w) = fst x \<Longrightarrow> fst ` set (xs[w := x]) = fst ` set xs"
  by (metis list.set_map list_update_id map_update)

lemma queue_sources_step:
  assumes C: "chan_laws C" and inv: "queue_sources C q" and st: "queue_step C S e q = Some q2"
  shows "queue_sources C q2"
proof (cases e)
  case (StepSend sd w)
  then have "queue_step_send C S sd w q = Some q2" using st by simp
  then show ?thesis
  proof (cases rule: queue_step_send_cases)
    case (1 t pc pc' q')
    note e = send_step_tasks [OF C 1(3)]
    have "t \<in> fst ` set (sends q)" using 1(1,2) by (force intro: nth_mem)
    moreover have "fst ` set (sends q2) = fst ` set (sends q)"
      using fst_image_update [OF 1(1)] 1(2,4) e by simp
    moreover have "queued_tasks C q2 = queued_tasks C q'" by (simp add: 1(4) queued_tasks_def)
    ultimately show ?thesis using inv e by (auto simp: queue_sources_def)
  qed
next
  case (AbandonSend w)
  then have "queue_abandon_send S w q = Some q2" using st by simp
  then show ?thesis
  proof (cases rule: queue_abandon_cases)
    case (1 t pc)
    with inv fst_image_update [OF 1(1), of "(t, SendDropped)"] show ?thesis
      by (simp add: queue_sources_def queued_tasks_def)
  qed
next
  case Recv
  then have "queue_recv C S q = (fst (queue_recv C S q), q2)" using st by auto
  from queue_recv_tasks [OF C this] inv show ?thesis by (auto simp: queue_sources_def)
next
  case DropConsumer
  then have "queue_drop_consumer C S q = (fst (queue_drop_consumer C S q), q2)" using st by auto
  from queue_drop_consumer_tasks [OF C this] inv show ?thesis
    by (simp add: queue_sources_def subset_trans)
qed (use st inv in \<open>auto simp: queue_sources_def queue_producer_tasks [OF C]\<close>)

interpretation sources: invariant "\<lambda>q. q = queue_new C S n" "queue_step C S"
    "\<lambda>q. chan_laws C \<longrightarrow> queue_sources C q" for C S n
proof unfold_locales
  show "q = queue_new C S n \<Longrightarrow> chan_laws C \<longrightarrow> queue_sources C q" for q
    by (simp add: queue_sources_def queue_new_def queued_tasks_def ch_new_items)
  show "chan_laws C \<longrightarrow> queue_sources C q \<Longrightarrow> queue_step C S e q = Some q2 \<Longrightarrow>
      chan_laws C \<longrightarrow> queue_sources C q2" for e q q2
    by (blast intro: queue_sources_step)
qed

lemma reach_queue_inv:
  "chan_laws C \<Longrightarrow> sem_laws S \<Longrightarrow> reach (\<lambda>q. q = queue_new C S n) (queue_step C S) q \<Longrightarrow>
     queue_inv C S n q"
  using queue.reach_inv by blast

section \<open>Properties\<close>

text \<open>
  C23. The queue is bounded. Whatever the interleaving of senders, receiver, close and drop,
  the tasks in the channel and the senders about to add one are at most the capacity plus
  the number of sends that failed with \<open>QueueSendChannelClosed\<close>, and \<open>len\<close> counts the former;
  so while no send has failed, at most \<open>capacity\<close> tasks are queued.
\<close>

theorem queue_bounded:
  assumes "chan_laws C" "sem_laws S" "reach (\<lambda>q. q = queue_new C S n) (queue_step C S) q"
  shows "queue_len C q = length (queued C q) \<and>
         queue_len C q + count_if holds_slot (sends q) \<le> n + count_if failed_send (sends q) \<and>
         (count_if failed_send (sends q) = 0 \<longrightarrow> queue_len C q \<le> n)"
  using reach_queue_inv [OF assms]
  by (auto simp: queue_inv_def queue_len_def queued_def ch_len_items [OF assms(1)])

text \<open>A run on the concrete instances: one task sent into a queue of capacity 1.\<close>

definition one_queued ::
  "(unit, unit queue_message list \<times> bool \<times> nat, nat) task_queue" where
  "one_queued =
     \<lparr>chan = ([\<lparr>qm_task = \<lparr>mt_core = 7, mt_future = \<lambda>_. Ready ()\<rparr>\<rparr>], False, 1),
      qgate = \<lparr>capacity = 1, semaphore = 0\<rparr>,
      sends = [(\<lparr>mt_core = 7, mt_future = \<lambda>_. Ready ()\<rparr>, SendDone (Inr ()))],
      sent = [7], received = []\<rparr>"

lemma reach_one_queued:
  "reach (\<lambda>q. q = queue_new list_chan counting_sem 1) (queue_step list_chan counting_sem) one_queued"
proof (rule reach_run [OF reach_init [of _ "queue_new list_chan counting_sem 1"]])
  let ?t = "\<lparr>mt_core = 7, mt_future = \<lambda>_. Ready ()\<rparr>"
  show "run (queue_step list_chan counting_sem)
      [BeginSend ?t, StepSend False 0, StepSend False 0, StepSend False 0, StepSend False 0]
      (queue_new list_chan counting_sem 1) = Some one_queued"
    by (simp add: queue_new_def queue_begin_send_def queue_step_send_def queue_is_closed_def
        queue_push_def gate_defs list_chan_def counting_sem_def one_queued_def)
qed simp

lemma queue_bounded_witness:
  "reach (\<lambda>q. q = queue_new list_chan counting_sem 1) (queue_step list_chan counting_sem) one_queued \<and>
     queue_len list_chan one_queued = 1"
proof
  show "queue_len list_chan one_queued = 1"
    using queue_bounded [OF list_chan_laws counting_sem_laws reach_one_queued]
    by (simp add: queued_def list_chan_def one_queued_def)
qed (rule reach_one_queued)

text \<open>
  The queue is first in, first out and loses nothing. The tasks whose \<open>send\<close> returned
  \<open>Ok\<close> are, in the order of their sends, those that have left the channel followed by those
  still in it; each is there once per successful send, and a failed or pending send leaves none.
\<close>

theorem queue_fifo:
  assumes "chan_laws C" "sem_laws S" "reach (\<lambda>q. q = queue_new C S n) (queue_step C S) q"
  shows "sent q = received q @ queued C q \<and>
         mset (sent q) = mset (map (mt_core \<circ> fst) (filter succeeded_send (sends q)))"
  using reach_queue_inv [OF assms] unfolding queue_inv_def by blast

lemma queue_fifo_witness:
  "reach (\<lambda>q. q = queue_new list_chan counting_sem 1) (queue_step list_chan counting_sem) one_queued \<and>
     queued list_chan one_queued = [7]"
proof
  show "queued list_chan one_queued = [7]"
    using queue_fifo [OF list_chan_laws counting_sem_laws reach_one_queued]
    by (simp add: one_queued_def)
qed (rule reach_one_queued)

text \<open>
  A failed send gives back two permits for the one it acquired: the message's \<open>Permit\<close>
  and the temporary guard are both dropped. After it, the available permits and the queued
  tasks exceed what they were before the acquisition by one.
\<close>

theorem failed_send_releases_twice:
  assumes "chan_laws C" "sem_laws S" "queue_push C S t q = (Inl e, q')"
  shows "e = QueueSendChannelClosed \<and> queued C q' = queued C q \<and>
         gate_get_permits S (qgate q') = gate_get_permits S (qgate q) + 2"
  using queue_push_effect [OF assms] by auto

lemma failed_send_releases_twice_witness:
  "\<exists>q q'. queue_push list_chan counting_sem \<lparr>mt_core = 0, mt_future = \<lambda>_. Ready ()\<rparr> q =
       (Inl QueueSendChannelClosed, q') \<and>
     capacity (qgate q') = 1 \<and> gate_get_permits counting_sem (qgate q') = 2"
proof -
  let ?q = "\<lparr>chan = ([], True, 1), qgate = \<lparr>capacity = 1, semaphore = 0\<rparr>,
             sends = [], sent = [], received = []\<rparr> :: (unit, _, nat) task_queue"
  let ?p = "queue_push list_chan counting_sem \<lparr>mt_core = 0, mt_future = \<lambda>_. Ready ()\<rparr> ?q"
  have p: "?p = (Inl QueueSendChannelClosed, snd ?p)"
    by (simp add: queue_push_def list_chan_def)
  from failed_send_releases_twice [OF list_chan_laws counting_sem_laws p] p
  show ?thesis
    by (intro exI [of _ ?q] exI [of _ "snd ?p"])
      (simp add: queue_push_def list_chan_def gate_defs counting_sem_def)
qed

section \<open>Refused sends\<close>

text \<open>A call of \<open>send\<close> that returned, or whose future was dropped, is left alone by every later step.\<close>

fun send_over :: "send_pc \<Rightarrow> bool" where
  "send_over (SendDone _) = True"
| "send_over SendDropped = True"
| "send_over _ = False"

lemma send_step_sends: "send_step C S sd w t pc q = Some (pc', q') \<Longrightarrow> sends q' = sends q \<and> \<not> send_over pc"
  by (cases pc) (auto simp: queue_push_def Let_def split: prod.splits if_splits)

lemma queue_step_over:
  assumes st: "queue_step C S e q = Some q'" and w: "w < length (sends q)" "send_over (snd (sends q ! w))"
  shows "w < length (sends q') \<and> sends q' ! w = sends q ! w"
proof (cases e)
  case (StepSend sd v)
  with st have "queue_step_send C S sd v q = Some q'" by simp
  then show ?thesis
  proof (cases rule: queue_step_send_cases)
    case (1 t pc pc' q1)
    with send_step_sends [OF 1(3)] w show ?thesis by (cases "v = w") auto
  qed
next
  case (AbandonSend v)
  with st w show ?thesis
    by (cases "v = w") (auto simp: queue_abandon_send_def Let_def split: if_splits prod.splits send_pc.splits)
next
  case (BeginSend t)
  with st w show ?thesis by (auto simp: queue_begin_send_def nth_append)
next
  case Recv
  with st w show ?thesis by (auto simp: queue_recv_def split: prod.splits recv.splits)
next
  case DropConsumer
  with st w show ?thesis by (auto simp: queue_drop_consumer_def Let_def split: prod.splits)
qed (use st w in \<open>auto simp: queue_close_def queue_clone_producer_def queue_drop_producer_def\<close>)

lemma queue_run_over:
  "run (queue_step C S) es q = Some q' \<Longrightarrow> w < length (sends q) \<Longrightarrow> send_over (snd (sends q ! w)) \<Longrightarrow>
     w < length (sends q') \<and> sends q' ! w = sends q ! w"
proof (induction es arbitrary: q)
  case Nil
  then show ?case by simp
next
  case (Cons e es)
  then obtain m where m: "queue_step C S e q = Some m" "run (queue_step C S) es m = Some q'"
    by (auto split: option.splits)
  from queue_step_over [OF m(1) Cons.prems(2,3)] Cons.IH [OF m(2)] Cons.prems(3) show ?case by simp
qed

text \<open>The two errors of \<open>send\<close>.\<close>

definition send_errors_ok :: "('r, 'q, 's) task_queue \<Rightarrow> bool" where
  "send_errors_ok q \<longleftrightarrow>
     (\<forall>x \<in> set (sends q). \<forall>e. snd x = SendDone (Inl e) \<longrightarrow> e = PoolShuttingDown \<or> e = QueueSendChannelClosed)"

lemma send_step_errors:
  "send_step C S sd w t pc q = Some (SendDone (Inl e), q') \<Longrightarrow> e = PoolShuttingDown \<or> e = QueueSendChannelClosed"
  by (cases pc) (auto simp: queue_push_def Let_def split: prod.splits if_splits)

lemma queue_step_errors:
  assumes st: "queue_step C S e q = Some q'" and inv: "send_errors_ok q"
  shows "send_errors_ok q'"
proof (cases e)
  case (StepSend sd v)
  with st have "queue_step_send C S sd v q = Some q'" by simp
  then show ?thesis
  proof (cases rule: queue_step_send_cases)
    case (1 t pc pc' q1)
    from 1(3) have e: "\<forall>e. pc' = SendDone (Inl e) \<longrightarrow> e = PoolShuttingDown \<or> e = QueueSendChannelClosed"
      using send_step_errors by blast
    have "sends q' = (sends q)[v := (t, pc')]" using send_step_sends [OF 1(3)] 1(4) by simp
    with inv e show ?thesis by (fastforce simp: send_errors_ok_def dest!: set_update_subset_insert [THEN subsetD])
  qed
next
  case (AbandonSend v)
  with st inv show ?thesis
    by (fastforce simp: queue_abandon_send_def send_errors_ok_def Let_def split: if_splits prod.splits send_pc.splits
        dest!: set_update_subset_insert [THEN subsetD])
next
  case Recv
  with st inv show ?thesis by (auto simp: queue_recv_def send_errors_ok_def split: prod.splits recv.splits)
next
  case DropConsumer
  with st inv show ?thesis by (auto simp: queue_drop_consumer_def send_errors_ok_def Let_def split: prod.splits)
qed (use st inv in \<open>auto simp: send_errors_ok_def queue_begin_send_def queue_close_def queue_clone_producer_def
    queue_drop_producer_def\<close>)

interpretation send_errors: invariant "\<lambda>q. q = queue_new C S n" "queue_step C S" send_errors_ok for C S n
proof unfold_locales
  show "q = queue_new C S n \<Longrightarrow> send_errors_ok q" for q by (simp add: send_errors_ok_def queue_new_def)
qed (rule queue_step_errors)

text \<open>In a queue of capacity 0 every sender waits for a permit that never comes.\<close>

definition starved :: "('r, 'q) queue_ops \<Rightarrow> 's sem_ops \<Rightarrow> ('r, 'q, 's) task_queue \<Rightarrow> bool" where
  "starved C S q \<longleftrightarrow>
     gate_get_permits S (qgate q) = 0 \<and> queued C q = [] \<and> sent q = [] \<and>
     (\<forall>x \<in> set (sends q). snd x = SendCheck \<or> snd x = SendPollShutdown \<or> snd x = SendPollGate \<or>
        snd x = SendDropped \<or> snd x = SendDone (Inl PoolShuttingDown))"

lemma starved_step_send:
  assumes C: "chan_laws C" and S: "sem_laws S" and z: "starved C S q"
    and st: "queue_step_send C S sd w q = Some q2"
  shows "starved C S q2"
  using st
proof (cases rule: queue_step_send_cases)
  case (1 t pc pc' q')
  have "(t, pc) \<in> set (sends q)" using 1(1,2) nth_mem by metis
  then consider "pc = SendCheck" | "pc = SendPollShutdown" | "pc = SendPollGate"
    | "pc = SendDropped" | "pc = SendDone (Inl PoolShuttingDown)"
    using z by (fastforce simp: starved_def)
  then have "pc' \<in> {SendPollShutdown, SendPollGate, SendDone (Inl PoolShuttingDown)} \<and>
      gate_get_permits S (qgate q') = 0 \<and> queued C q' = [] \<and> sent q' = [] \<and> sends q' = sends q"
  proof cases
    case 3
    have "\<not> fst (gate_poll_acquire S w (qgate q))"
      using gate.none_left [OF S] z by (auto simp: starved_def)
    with 3 z 1(3) show ?thesis
      using gate.poll_False [OF S] by (auto simp: starved_def queued_def split: prod.splits)
  qed (use z 1(3) gate.abandon_avail [OF S] in \<open>auto simp: starved_def queued_def split: if_splits\<close>)
  then show ?thesis using z set_update_subset_insert [of "sends q" w "(t, pc')"]
    by (auto simp: starved_def 1(4) queued_def)
qed

lemma starved_step:
  assumes C: "chan_laws C" and S: "sem_laws S" and z: "starved C S q"
    and e: "queue_step C S e q = Some q2"
  shows "starved C S q2"
proof (cases e)
  case Recv
  obtain r q' where r: "queue_recv C S q = (r, q')" by (cases "queue_recv C S q")
  from queue_recv_effect [OF C S r] z Recv e r show ?thesis
    by (cases r) (auto simp: starved_def)
next
  case DropConsumer
  obtain rs q' where d: "queue_drop_consumer C S q = (rs, q')" by (cases "queue_drop_consumer C S q")
  from queue_drop_consumer_effect [OF C S d] z DropConsumer e d show ?thesis
    by (auto simp: starved_def)
next
  case (AbandonSend w)
  then have "queue_abandon_send S w q = Some q2" using e by simp
  then show ?thesis
  proof (cases rule: queue_abandon_cases)
    case (1 t pc)
    then have "gate_get_permits S (qgate q2) = gate_get_permits S (qgate q)"
      by (auto simp: gate.abandon_avail [OF S])
    with z 1 show ?thesis using set_update_subset_insert [of "sends q" w "(t, SendDropped)"]
      by (auto simp: starved_def queued_def)
  qed
next
  case (StepSend sd w)
  with e z show ?thesis using starved_step_send [OF C S] by simp
qed (use e z in \<open>auto simp: starved_def queue_producer_queued [OF C] begin_send_queued\<close>)

interpretation starved_queue: invariant "\<lambda>q. q = queue_new C S 0" "queue_step C S"
    "\<lambda>q. chan_laws C \<longrightarrow> sem_laws S \<longrightarrow> starved C S q" for C S
proof unfold_locales
  show "q = queue_new C S 0 \<Longrightarrow> chan_laws C \<longrightarrow> sem_laws S \<longrightarrow> starved C S q" for q
    by (simp add: starved_def queue_new_def queued_def ch_new_items gate_new_permits)
  show "chan_laws C \<longrightarrow> sem_laws S \<longrightarrow> starved C S q \<Longrightarrow> queue_step C S e q = Some q2 \<Longrightarrow>
      chan_laws C \<longrightarrow> sem_laws S \<longrightarrow> starved C S q2" for e q q2
    by (blast intro: starved_step)
qed

text \<open>
  A queue of capacity 0 accepts nothing: no interleaving of sends, receives and closes
  ever makes a \<open>send\<close> succeed, so a submission to such a pool waits until shutdown.
\<close>

theorem zero_capacity_accepts_nothing:
  assumes "chan_laws C" "sem_laws S" "reach (\<lambda>q. q = queue_new C S 0) (queue_step C S) q"
  shows "sent q = [] \<and> count_if succeeded_send (sends q) = 0"
proof -
  have "starved C S q" using starved_queue.reach_inv [OF assms(3)] assms(1,2) by blast
  then show ?thesis by (auto simp: starved_def count_if_zero_iff)
qed

lemma zero_capacity_accepts_nothing_witness:
  "\<exists>q. run (queue_step list_chan counting_sem)
       [BeginSend \<lparr>mt_core = 0, mt_future = \<lambda>_. Ready ()\<rparr>, StepSend False 0, StepSend False 0, StepSend False 0]
       (queue_new list_chan counting_sem 0) = Some q \<and> sent q = []"
proof -
  let ?es = "[BeginSend \<lparr>mt_core = 0, mt_future = \<lambda>_. Ready ()\<rparr>, StepSend False 0, StepSend False 0, StepSend False 0]"
  let ?r = "run (queue_step list_chan counting_sem) ?es (queue_new list_chan counting_sem 0)"
  obtain q where q: "?r = Some q"
    by (simp add: queue_new_def queue_begin_send_def queue_step_send_def queue_is_closed_def
        queue_push_def gate_defs list_chan_def counting_sem_def)
  then have "reach (\<lambda>q. q = queue_new list_chan counting_sem 0) (queue_step list_chan counting_sem) q"
    by (rule reach_run [OF reach_init, rotated]) simp
  from zero_capacity_accepts_nothing [OF list_chan_laws counting_sem_laws this] q
  show ?thesis by blast
qed

end
