(* ===== verification/Pool.thy ===== *)
theory Pool
  imports Notifier Handle Gate TaskQueue
begin

text \<open>
  What the two managers, \<open>manager.rs\<close> and \<open>rlxd.rs\<close>, have in common: the environment, the shared
  fields of their states, and the steps of a returned handle. Each manager's record extends
  \<open>pool_base\<close> with its queue, registry and worker loops.
\<close>

section \<open>Environment\<close>

text \<open>The crates and the user's handlers, as one argument.\<close>

record ('r, 'n, 's, 'q, 'c, 'o, 'h) env =
  n_ops :: "'n notify_ops"
  s_ops :: "'s sem_ops"
  q_ops :: "('r, 'q) queue_ops"
  c_ops :: "'c note_ops"
  o_ops :: "('r task_result, 'o) oneshot_ops"
  handler_panics :: "'h \<Rightarrow> task_completion_info \<Rightarrow> bool"
  recv_error_text :: string

definition lawful :: "('r, 'n, 's, 'q, 'c, 'o, 'h) env \<Rightarrow> bool" where
  "lawful E \<longleftrightarrow> notify_laws (n_ops E) \<and> sem_laws (s_ops E) \<and> chan_laws (q_ops E) \<and>
     chan_laws (c_ops E) \<and> oneshot_laws (o_ops E)"

datatype shutdown_mode = Graceful | ForcefulCancel

section \<open>The shared fields\<close>

datatype drop_pc = DropCheck | DropFlag | DropCancel | DropClose | DropSink | DropRelease | DropDone

record 'r handle_slot =
  hs_handle :: task_handle
  hs_polling :: bool
  hs_result :: "'r task_result option"

record ('r, 'n, 's, 'c, 'o, 'h) pool_base =
  pool_name :: string
  cores :: "'n heap"
  oneshots :: "'o list"
  handles :: "'r handle_slot list"
  next_task_id :: u64
  shutdown_token :: "'n cancel_state"
  concurrency_gate :: "'s capacity_gate"
  completion_notifier :: "('c, 'h) notifier"
  drops :: "drop_pc list"
  idle_managers :: nat      \<comment> \<open>clones not inside \<open>shutdown\<close> or \<open>drop\<close>\<close>
  shutdown_guard :: nat     \<comment> \<open>strong count of the guard's \<open>Arc\<close>\<close>

abbreviation shutting_down :: "('r, 'n, 's, 'c, 'o, 'h, 'z) pool_base_scheme \<Rightarrow> bool" where
  "shutting_down p \<equiv> is_cancelled (shutdown_token p)"

definition core_cancelled :: "('r, 'n, 's, 'c, 'o, 'h, 'z) pool_base_scheme \<Rightarrow> core_ref \<Rightarrow> bool" where
  "core_cancelled p r = core_is_cancelled (cores p ! r)"

definition look_core :: "('r, 'n, 's, 'c, 'o, 'h, 'z) pool_base_scheme \<Rightarrow> core_ref \<Rightarrow> u64 \<times> task_label set" where
  "look_core p r = (task_id (cores p ! r), labels (cores p ! r))"

section \<open>Shared operations\<close>

text \<open>A failed or abandoned submission drops both halves of its oneshot.\<close>

definition discard_oneshot ::
  "('r, 'n, 's, 'q, 'c, 'o, 'h) env \<Rightarrow> core_ref \<Rightarrow> 'o list \<Rightarrow> 'o list" where
  "discard_oneshot E r os = os[r := os_drop_rx (o_ops E) (os_drop_tx (o_ops E) (os ! r))]"

abbreviation release_permit ::
  "('r, 'n, 's, 'q, 'c, 'o, 'h) env \<Rightarrow> ('r, 'n, 's, 'c, 'o, 'h, 'z) pool_base_scheme \<Rightarrow>
     ('r, 'n, 's, 'c, 'o, 'h, 'z) pool_base_scheme" where
  "release_permit E p \<equiv> p\<lparr>concurrency_gate := gate_release (s_ops E) (concurrency_gate p)\<rparr>"

text \<open>Dropping a task drops its \<open>result_sender\<close>.\<close>

fun drop_senders ::
  "('r, 'n, 's, 'q, 'c, 'o, 'h) env \<Rightarrow> core_ref list \<Rightarrow> 'o list \<Rightarrow> 'o list" where
  "drop_senders E [] os = os"
| "drop_senders E (r # rs) os = drop_senders E rs (os[r := os_drop_tx (o_ops E) (os ! r)])"

text \<open>
  The steps of the handle \<open>t\<close> of the \<open>r\<close>-th submission: \<open>await_result\<close> first takes the receiver
  and then polls it, and \<open>detach\<close> drops it.
\<close>

definition await_step ::
  "('r, 'n, 's, 'q, 'c, 'o, 'h) env \<Rightarrow> core_ref \<Rightarrow> task_handle \<Rightarrow>
     ('r, 'n, 's, 'c, 'o, 'h, 'z) pool_base_scheme \<Rightarrow> ('r, 'n, 's, 'c, 'o, 'h, 'z) pool_base_scheme option" where
  "await_step E r t p =
     (if r < length (handles p) \<and> hs_result (handles p ! r) = None \<and> \<not> is_detached t then
        (if hs_polling (handles p ! r) then
           (let (x, c) = await_poll (o_ops E) (recv_error_text E) (handle_id (cores p) t) (oneshots p ! r) in
            Some (p\<lparr>oneshots := (oneshots p)[r := c],
                    handles := (handles p)[r := (handles p ! r)\<lparr>hs_result := x\<rparr>]\<rparr>))
         else
           (let (x, t') = await_begin t in
            Some (p\<lparr>handles := (handles p)[r := \<lparr>hs_handle = t', hs_polling = True, hs_result = x\<rparr>]\<rparr>)))
      else None)"

definition detach_step ::
  "('r, 'n, 's, 'q, 'c, 'o, 'h) env \<Rightarrow> core_ref \<Rightarrow> task_handle \<Rightarrow>
     ('r, 'n, 's, 'c, 'o, 'h, 'z) pool_base_scheme \<Rightarrow> ('r, 'n, 's, 'c, 'o, 'h, 'z) pool_base_scheme option" where
  "detach_step E r t p =
     (if r < length (handles p) \<and> \<not> hs_polling (handles p ! r) \<and> \<not> is_detached t then
        (let (t', c) = handle_detach (o_ops E) t (oneshots p ! r) in
         Some (p\<lparr>oneshots := (oneshots p)[r := c],
                 handles := (handles p)[r := (handles p ! r)\<lparr>hs_handle := t'\<rparr>]\<rparr>))
      else None)"

text \<open>A call on \<open>&self\<close> needs a clone of the manager that is neither shut down nor dropped.\<close>

definition with_manager ::
  "('r, 'n, 's, 'c, 'o, 'h, 'z) pool_base_scheme \<Rightarrow> ('r, 'n, 's, 'c, 'o, 'h, 'z) pool_base_scheme option \<Rightarrow>
     ('r, 'n, 's, 'c, 'o, 'h, 'z) pool_base_scheme option" where
  "with_manager p x = (if 0 < idle_managers p then x else None)"

lemma discard_oneshot_length [simp]: "length (discard_oneshot E r os) = length os"
  by (simp add: discard_oneshot_def)

lemma drop_senders_length [simp]: "length (drop_senders E rs os) = length os"
  by (induction rs arbitrary: os) auto

end
