(* ===== verification/Manager.thy ===== *)
theory Manager
  imports Active Pool
begin

text \<open>
  \<open>manager.rs\<close>: the strict pool \<open>FuturePoolManager\<close>. The state holds what the manager's clones,
  the worker loop and the spawned tasks share, and the program counter of every activity:
  calls of \<open>submit\<close> (in the task queue), the worker loop, the spawned tasks, the notification
  worker, calls of \<open>shutdown\<close> and the drops of clones. Each definition of a step is the code
  between two points where another thread may run; \<open>pool_step\<close> puts them together.
\<close>

section \<open>State\<close>

text \<open>The worker loop, \<open>run_worker_loop\<close>.\<close>

datatype 'r dispatcher_pc =
    DTop                        \<comment> \<open>at the top of the loop\<close>
  | DPollPermit                 \<comment> \<open>at the first \<open>select!\<close>, polling the permit\<close>
  | DPollPermitToken            \<comment> \<open>at the first \<open>select!\<close>, polling the token\<close>
  | DCheck                      \<comment> \<open>holding a permit, at the check after the \<open>select!\<close>\<close>
  | DPollRecv                   \<comment> \<open>at the second \<open>select!\<close>, polling the queue\<close>
  | DPollRecvToken              \<comment> \<open>at the second \<open>select!\<close>, polling the token\<close>
  | DReceived "'r managed_task" \<comment> \<open>received a task, at the guard of the match\<close>
  | DGot "'r managed_task"      \<comment> \<open>committed to the task, at the check of its flag\<close>
  | DCancelled "'r managed_task" \<comment> \<open>sent \<open>TaskCancelled\<close>, about to look for the completion sender\<close>
  | DNotify "'r managed_task"   \<comment> \<open>holding a clone of the sender, about to send the completion\<close>
  | DNext                       \<comment> \<open>at \<open>continue\<close>: the permit is dropped\<close>
  | DInsert "'r managed_task"   \<comment> \<open>about to register the task\<close>
  | DSpawn "'r managed_task" nat \<comment> \<open>registered in this slot, about to spawn\<close>
  | DExit                       \<comment> \<open>out of the loop, permit released\<close>
  | DStopped                    \<comment> \<open>returned\<close>
  | DPanicked                   \<comment> \<open>a panic of the slot array reached the loop\<close>

fun dispatcher_stopped :: "'r dispatcher_pc \<Rightarrow> bool" where
  "dispatcher_stopped DStopped = True"
| "dispatcher_stopped _ = False"

fun dispatcher_panicked :: "'r dispatcher_pc \<Rightarrow> bool" where
  "dispatcher_panicked DPanicked = True"
| "dispatcher_panicked _ = False"

lemma dispatcher_stopped_iff [simp]: "dispatcher_stopped d \<longleftrightarrow> d = DStopped"
  by (cases d) auto

lemma dispatcher_panicked_iff [simp]: "dispatcher_panicked d \<longleftrightarrow> d = DPanicked"
  by (cases d) auto

text \<open>The future spawned for a task.\<close>

datatype 'r task_pc =
    TPollFuture              \<comment> \<open>at the \<open>select!\<close>, polling the guarded future\<close>
  | TReady "unit + 'r"       \<comment> \<open>the future finished, at the flag check\<close>
  | TPollCancel              \<comment> \<open>at the \<open>select!\<close>, polling the token\<close>
  | TSend "'r task_result"   \<comment> \<open>about to send the result\<close>
  | TNotify task_completion_status \<comment> \<open>about to send the completion\<close>
  | TRelease                 \<comment> \<open>end of the async block: the permit guard is dropped\<close>
  | TRemove                  \<comment> \<open>the continuation: about to clear the slot\<close>
  | TDone

record 'r spawned_task =
  st_task :: "'r managed_task"
  st_slot :: nat
  st_notify :: bool   \<comment> \<open>holds a clone of the completion sender\<close>
  st_polls :: nat
  st_pc :: "'r task_pc"

datatype shutdown_pc =
    HStart shutdown_mode
  | HCancel shutdown_mode
  | HClose shutdown_mode
  | HSweep                      \<comment> \<open>about to list the active tasks\<close>
  | HCancelTasks "core_ref list" \<comment> \<open>these are still to be cancelled\<close>
  | HActive bool      \<comment> \<open>about to read the number of active tasks; the flag is
                          \<open>already_initiating_shutdown\<close>\<close>
  | HWait bool        \<comment> \<open>in the wait loop\<close>
  | HTakeWorker bool
  | HJoinWorker bool
  | HSink bool
  | HTakeNotifier
  | HJoinNotifier
  | HDrop             \<comment> \<open>about to return: \<open>self\<close> is dropped\<close>
  | HDone
  | HPanicked
  | HAbandoned        \<comment> \<open>the future was dropped\<close>

record ('r, 'n, 's, 'q, 'c, 'o, 'h) pool = "('r, 'n, 's, 'c, 'o, 'h) pool_base" +
  task_queue :: "('r, 'q, 's) task_queue"
  active_task_info :: active_slots
  dispatcher :: "'r dispatcher_pc"
  tasks :: "'r spawned_task list"
  worker_join_handle :: bool
  label_cancels :: "core_ref list list" \<comment> \<open>label cancellations: these are still to be cancelled\<close>
  shutdowns :: "shutdown_pc list"

text \<open>\<open>FuturePoolManager::new\<close>.\<close>

definition pool_new ::
  "('r, 'n, 's, 'q, 'c, 'o, 'h) env \<Rightarrow> nat \<Rightarrow> nat \<Rightarrow> string \<Rightarrow> ('r, 'n, 's, 'q, 'c, 'o, 'h) pool" where
  "pool_new E concurrency_limit queue_capacity name =
     \<lparr>pool_name = name, cores = [], oneshots = [], handles = [], next_task_id = 0,
      shutdown_token = cancel_state_new (n_ops E),
      concurrency_gate = gate_new (s_ops E) (max concurrency_limit 1),
      completion_notifier = notifier_new (c_ops E), drops = [], idle_managers = 1, shutdown_guard = 1,
      task_queue = queue_new (q_ops E) (s_ops E) queue_capacity,
      active_task_info = slots_with_capacity (max concurrency_limit 1),
      dispatcher = DTop, tasks = [], worker_join_handle = True, label_cancels = [],
      shutdowns = []\<rparr>"

section \<open>The manager's methods\<close>

definition active_task_count :: "('r, 'n, 's, 'q, 'c, 'o, 'h) pool \<Rightarrow> nat outcome" where
  "active_task_count p = slots_len (active_task_info p)"

definition queued_task_count ::
  "('r, 'n, 's, 'q, 'c, 'o, 'h) env \<Rightarrow> ('r, 'n, 's, 'q, 'c, 'o, 'h) pool \<Rightarrow> nat" where
  "queued_task_count E p = queue_len (q_ops E) (task_queue p)"

text \<open>
  \<open>submit\<close> up to the await of \<open>send\<close>: the check, the new id, the core, the oneshot, and the
  call of \<open>send\<close>, whose further steps are those of the queue. The call's number, the core's
  address and the oneshot's index are the same.
\<close>

definition submit_begin ::
  "('r, 'n, 's, 'q, 'c, 'o, 'h) env \<Rightarrow> task_label set \<Rightarrow> 'r task_to_execute \<Rightarrow>
     ('r, 'n, 's, 'q, 'c, 'o, 'h) pool \<Rightarrow> pool_error + ('r, 'n, 's, 'q, 'c, 'o, 'h) pool" where
  "submit_begin E ls f p =
     (if shutting_down p \<or> queue_is_closed (q_ops E) (task_queue p) then Inl PoolShuttingDown
      else
        let r = length (cores p) in
        Inr (p\<lparr>next_task_id := next_task_id p + 1,
               cores := cores p @ [core_new (n_ops E) (next_task_id p) ls],
               oneshots := oneshots p @ [os_new (o_ops E)],
               handles := handles p @ [\<lparr>hs_handle = handle_new r, hs_polling = False, hs_result = None\<rparr>],
               task_queue := queue_begin_send \<lparr>mt_core = r, mt_future = f\<rparr> (task_queue p)\<rparr>))"

text \<open>What the \<open>r\<close>-th accepted call of \<open>submit\<close> returned, if it has.\<close>

definition submit_result ::
  "('r, 'n, 's, 'q, 'c, 'o, 'h) pool \<Rightarrow> core_ref \<Rightarrow> (pool_error + task_handle) option" where
  "submit_result p r =
     (case snd (sends (task_queue p) ! r) of
        SendDone (Inr _) \<Rightarrow> Some (Inr (hs_handle (handles p ! r)))
      | SendDone (Inl e) \<Rightarrow> Some (Inl e)
      | _ \<Rightarrow> None)"

definition step_send ::
  "('r, 'n, 's, 'q, 'c, 'o, 'h) env \<Rightarrow> nat \<Rightarrow> ('r, 'n, 's, 'q, 'c, 'o, 'h) pool \<Rightarrow>
     ('r, 'n, 's, 'q, 'c, 'o, 'h) pool option" where
  "step_send E w p =
     map_option
       (\<lambda>q. p\<lparr>task_queue := q,
              oneshots := (case snd (sends q ! w) of
                             SendDone (Inl _) \<Rightarrow> discard_oneshot E w (oneshots p)
                           | _ \<Rightarrow> oneshots p)\<rparr>)
       (queue_step_send (q_ops E) (s_ops E) (shutting_down p) w (task_queue p))"

definition step_abandon ::
  "('r, 'n, 's, 'q, 'c, 'o, 'h) env \<Rightarrow> nat \<Rightarrow> ('r, 'n, 's, 'q, 'c, 'o, 'h) pool \<Rightarrow>
     ('r, 'n, 's, 'q, 'c, 'o, 'h) pool option" where
  "step_abandon E w p =
     map_option (\<lambda>q. p\<lparr>task_queue := q, oneshots := discard_oneshot E w (oneshots p)\<rparr>)
       (queue_abandon_send (s_ops E) w (task_queue p))"

text \<open>
  \<open>cancel_tasks_by_labels_internal\<close>, behind both public methods: it lists the tasks under the
  registry's lock and cancels them one after another, each a step of its own.
\<close>

definition cancel_tasks_by_labels ::
  "task_label set \<Rightarrow> ('r, 'n, 's, 'q, 'c, 'o, 'h) pool \<Rightarrow> ('r, 'n, 's, 'q, 'c, 'o, 'h) pool" where
  "cancel_tasks_by_labels ls p =
     (if ls = {} then p
      else p\<lparr>label_cancels := label_cancels p @ [slots_tokens_matching (cores p) ls (active_task_info p)]\<rparr>)"

definition cancel_tasks_by_label ::
  "task_label \<Rightarrow> ('r, 'n, 's, 'q, 'c, 'o, 'h) pool \<Rightarrow> ('r, 'n, 's, 'q, 'c, 'o, 'h) pool" where
  "cancel_tasks_by_label l p = cancel_tasks_by_labels {l} p"

definition label_cancel_step ::
  "('r, 'n, 's, 'q, 'c, 'o, 'h) env \<Rightarrow> nat \<Rightarrow> ('r, 'n, 's, 'q, 'c, 'o, 'h) pool \<Rightarrow>
     ('r, 'n, 's, 'q, 'c, 'o, 'h) pool option" where
  "label_cancel_step E i p =
     (if i < length (label_cancels p) then
        (case label_cancels p ! i of
           [] \<Rightarrow> None
         | r # rs \<Rightarrow>
             Some (p\<lparr>cores := heap_cancel (n_ops E) r (cores p), label_cancels := (label_cancels p)[i := rs]\<rparr>))
      else None)"

text \<open>The handle's methods on the pool's state.\<close>

abbreviation handle_returned :: "('r, 'n, 's, 'q, 'c, 'o, 'h) pool \<Rightarrow> core_ref \<Rightarrow> bool" where
  "handle_returned p r \<equiv> r < length (handles p) \<and> (\<exists>t. submit_result p r = Some (Inr t))"

definition step_cancel_handle ::
  "('r, 'n, 's, 'q, 'c, 'o, 'h) env \<Rightarrow> core_ref \<Rightarrow> ('r, 'n, 's, 'q, 'c, 'o, 'h) pool \<Rightarrow>
     ('r, 'n, 's, 'q, 'c, 'o, 'h) pool option" where
  "step_cancel_handle E r p =
     (case submit_result p r of
        Some (Inr t) \<Rightarrow>
          if r < length (handles p)
          then Some (p\<lparr>cores := handle_cancel (n_ops E) t (cores p)\<rparr>) else None
      | _ \<Rightarrow> None)"

definition step_await ::
  "('r, 'n, 's, 'q, 'c, 'o, 'h) env \<Rightarrow> core_ref \<Rightarrow> ('r, 'n, 's, 'q, 'c, 'o, 'h) pool \<Rightarrow>
     ('r, 'n, 's, 'q, 'c, 'o, 'h) pool option" where
  "step_await E r p =
     (case submit_result p r of Some (Inr t) \<Rightarrow> await_step E r t p | _ \<Rightarrow> None)"

definition step_detach ::
  "('r, 'n, 's, 'q, 'c, 'o, 'h) env \<Rightarrow> core_ref \<Rightarrow> ('r, 'n, 's, 'q, 'c, 'o, 'h) pool \<Rightarrow>
     ('r, 'n, 's, 'q, 'c, 'o, 'h) pool option" where
  "step_detach E r p =
     (case submit_result p r of Some (Inr t) \<Rightarrow> detach_step E r t p | _ \<Rightarrow> None)"

section \<open>The worker loop\<close>

text \<open>
  The \<open>OnceLock\<close> of the sink is shared by the clones of the manager and the worker loop; when the
  last of them is gone, the sender in it is dropped, as \<open>close\<close> would.
\<close>

definition release_sink ::
  "('r, 'n, 's, 'q, 'c, 'o, 'h) env \<Rightarrow> ('r, 'n, 's, 'q, 'c, 'o, 'h) pool \<Rightarrow>
     ('r, 'n, 's, 'q, 'c, 'o, 'h) pool" where
  "release_sink E p =
     (if shutdown_guard p = 0 \<and> dispatcher_stopped (dispatcher p)
      then p\<lparr>completion_notifier := sink_close (c_ops E) (completion_notifier p)\<rparr> else p)"

text \<open>A task that was cancelled in the queue: its result, then its completion.\<close>

definition dispatch_cancelled ::
  "('r, 'n, 's, 'q, 'c, 'o, 'h) env \<Rightarrow> 'r managed_task \<Rightarrow> ('r, 'n, 's, 'q, 'c, 'o, 'h) pool \<Rightarrow>
     ('r, 'n, 's, 'q, 'c, 'o, 'h) pool" where
  "dispatch_cancelled E t p =
     (let r = mt_core t in
      p\<lparr>oneshots := (oneshots p)[r := snd (os_send (o_ops E) (Inl TaskCancelled) (oneshots p ! r))],
        dispatcher := DCancelled t\<rparr>)"

definition dispatch_notify ::
  "('r, 'n, 's, 'q, 'c, 'o, 'h) env \<Rightarrow> 'r managed_task \<Rightarrow> ('r, 'n, 's, 'q, 'c, 'o, 'h) pool \<Rightarrow>
     ('r, 'n, 's, 'q, 'c, 'o, 'h) pool" where
  "dispatch_notify E t p =
     (let m = \<lparr>cm_pool_name = pool_name p, cm_core = mt_core t, cm_status = Cancelled\<rparr> in
      p\<lparr>completion_notifier := send_completion (c_ops E) m (completion_notifier p), dispatcher := DNext\<rparr>)"

text \<open>The registration of a task, then the spawn of its future, which takes the permit.\<close>

definition dispatch_insert ::
  "'r managed_task \<Rightarrow> ('r, 'n, 's, 'q, 'c, 'o, 'h) pool \<Rightarrow> ('r, 'n, 's, 'q, 'c, 'o, 'h) pool" where
  "dispatch_insert t p =
     (case slots_insert (mt_core t) (active_task_info p) of
        Inl _ \<Rightarrow> p\<lparr>dispatcher := DPanicked\<rparr>
      | Inr (slot, a) \<Rightarrow> p\<lparr>active_task_info := a, dispatcher := DSpawn t slot\<rparr>)"

definition dispatch_spawn ::
  "('r, 'n, 's, 'q, 'c, 'o, 'h) env \<Rightarrow> 'r managed_task \<Rightarrow> nat \<Rightarrow> ('r, 'n, 's, 'q, 'c, 'o, 'h) pool \<Rightarrow>
     ('r, 'n, 's, 'q, 'c, 'o, 'h) pool" where
  "dispatch_spawn E t slot p =
     (let (b, n) = sink_sender (c_ops E) (completion_notifier p) in
      p\<lparr>completion_notifier := n, dispatcher := DTop,
        tasks := tasks p @ [\<lparr>st_task = t, st_slot = slot, st_notify = b, st_polls = 0,
                             st_pc = TPollFuture\<rparr>]\<rparr>)"

definition dispatcher_step ::
  "('r, 'n, 's, 'q, 'c, 'o, 'h) env \<Rightarrow> ('r, 'n, 's, 'q, 'c, 'o, 'h) pool \<Rightarrow>
     ('r, 'n, 's, 'q, 'c, 'o, 'h) pool option" where
  "dispatcher_step E p =
     (case dispatcher p of
        DTop \<Rightarrow> Some (p\<lparr>dispatcher := (if shutting_down p then DExit else DPollPermit)\<rparr>)
      | DPollPermit \<Rightarrow>
          (let (b, g) = gate_poll_acquire (s_ops E) 0 (concurrency_gate p) in
           Some (p\<lparr>concurrency_gate := g, dispatcher := (if b then DCheck else DPollPermitToken)\<rparr>))
      | DPollPermitToken \<Rightarrow>
          (if shutting_down p
           then Some (p\<lparr>concurrency_gate := gate_drop_acquire (s_ops E) 0 (concurrency_gate p),
                        dispatcher := DExit\<rparr>)
           else Some (p\<lparr>dispatcher := DPollPermit\<rparr>))
      | DCheck \<Rightarrow>
          (if shutting_down p then Some (release_permit E (p\<lparr>dispatcher := DExit\<rparr>))
           else Some (p\<lparr>dispatcher := DPollRecv\<rparr>))
      | DPollRecv \<Rightarrow>
          (case queue_recv (q_ops E) (s_ops E) (task_queue p) of
             (RecvOk t, q) \<Rightarrow> Some (p\<lparr>task_queue := q, dispatcher := DReceived t\<rparr>)
           | (RecvDisconnected, q) \<Rightarrow>
               Some (release_permit E (p\<lparr>task_queue := q, dispatcher := DExit\<rparr>))
           | (RecvPending, q) \<Rightarrow> Some (p\<lparr>task_queue := q, dispatcher := DPollRecvToken\<rparr>))
      | DPollRecvToken \<Rightarrow>
          (if shutting_down p then Some (release_permit E (p\<lparr>dispatcher := DExit\<rparr>))
           else Some (p\<lparr>dispatcher := DPollRecv\<rparr>))
      | DReceived t \<Rightarrow>
          (if shutting_down p
           then Some (release_permit E (p\<lparr>oneshots := drop_senders E [mt_core t] (oneshots p),
                                          dispatcher := DExit\<rparr>))
           else Some (p\<lparr>dispatcher := DGot t\<rparr>))
      | DGot t \<Rightarrow>
          Some (if core_cancelled p (mt_core t) then dispatch_cancelled E t p
                else p\<lparr>dispatcher := DInsert t\<rparr>)
      | DCancelled t \<Rightarrow>
          (let (b, n) = sink_sender (c_ops E) (completion_notifier p) in
           Some (p\<lparr>completion_notifier := n, dispatcher := (if b then DNotify t else DNext)\<rparr>))
      | DNotify t \<Rightarrow> Some (dispatch_notify E t p)
      | DNext \<Rightarrow> Some (release_permit E (p\<lparr>dispatcher := DTop\<rparr>))
      | DInsert t \<Rightarrow> Some (dispatch_insert t p)
      | DSpawn t slot \<Rightarrow> Some (dispatch_spawn E t slot p)
      | DExit \<Rightarrow>
          (let (rs, q) = queue_drop_consumer (q_ops E) (s_ops E) (task_queue p) in
           Some (release_sink E (p\<lparr>task_queue := q, oneshots := drop_senders E rs (oneshots p),
                                   dispatcher := DStopped\<rparr>)))
      | DStopped \<Rightarrow> None
      | DPanicked \<Rightarrow> None)"

section \<open>A spawned task\<close>

text \<open>
  The spawned future of the \<open>i\<close>-th started task. The result is computed by
  \<open>ready_outcome\<close> when the submitted future finished first, and is a cancellation otherwise.
\<close>

definition task_step ::
  "('r, 'n, 's, 'q, 'c, 'o, 'h) env \<Rightarrow> nat \<Rightarrow> ('r, 'n, 's, 'q, 'c, 'o, 'h) pool \<Rightarrow>
     ('r, 'n, 's, 'q, 'c, 'o, 'h) pool option" where
  "task_step E i p =
     (if i < length (tasks p) then
        (let t = tasks p ! i; r = mt_core (st_task t);
             goto = (\<lambda>pc. (tasks p)[i := t\<lparr>st_pc := pc\<rparr>]) in
         case st_pc t of
           TPollFuture \<Rightarrow>
             (case catch_unwind (mt_future (st_task t) (st_polls t)) of
                Some x \<Rightarrow> Some (p\<lparr>tasks := (tasks p)[i := t\<lparr>st_polls := Suc (st_polls t), st_pc := TReady x\<rparr>]\<rparr>)
              | None \<Rightarrow> Some (p\<lparr>tasks := (tasks p)[i := t\<lparr>st_polls := Suc (st_polls t), st_pc := TPollCancel\<rparr>]\<rparr>))
         | TReady x \<Rightarrow> Some (p\<lparr>tasks := goto (TSend (ready_outcome (core_cancelled p r) x))\<rparr>)
         | TPollCancel \<Rightarrow>
             Some (p\<lparr>tasks := goto (if core_cancelled p r then TSend (Inl TaskCancelled) else TPollFuture)\<rparr>)
         | TSend res \<Rightarrow>
             Some (p\<lparr>oneshots := (oneshots p)[r := snd (os_send (o_ops E) res (oneshots p ! r))],
                     tasks := goto (if st_notify t then TNotify (status_from res) else TRelease)\<rparr>)
         | TNotify st \<Rightarrow>
             (let m = \<lparr>cm_pool_name = pool_name p, cm_core = r, cm_status = st\<rparr> in
              Some (p\<lparr>completion_notifier := send_completion (c_ops E) m (completion_notifier p),
                      tasks := goto TRelease\<rparr>))
         | TRelease \<Rightarrow> Some (release_permit E (p\<lparr>tasks := goto TRemove\<rparr>))
         | TRemove \<Rightarrow>
             Some (p\<lparr>active_task_info := slots_remove (st_slot t) (active_task_info p),
                     tasks := goto TDone\<rparr>)
         | TDone \<Rightarrow> None)
      else None)"

section \<open>Shutdown and drop\<close>

text \<open>
  One step of the \<open>i\<close>-th call of \<open>shutdown\<close>. At \<open>HWait\<close> it is a tick of the interval; at the two
  joins it is the return of the awaited task.
\<close>

definition shutdown_step ::
  "('r, 'n, 's, 'q, 'c, 'o, 'h) env \<Rightarrow> nat \<Rightarrow> ('r, 'n, 's, 'q, 'c, 'o, 'h) pool \<Rightarrow>
     ('r, 'n, 's, 'q, 'c, 'o, 'h) pool option" where
  "shutdown_step E i p =
     (if i < length (shutdowns p) then
        (let goto = (\<lambda>pc. (shutdowns p)[i := pc]) in
         case shutdowns p ! i of
           HStart m \<Rightarrow> Some (p\<lparr>shutdowns := goto (if shutting_down p then HActive True else HCancel m)\<rparr>)
         | HCancel m \<Rightarrow>
             Some (p\<lparr>shutdown_token := cancel (n_ops E) (shutdown_token p), shutdowns := goto (HClose m)\<rparr>)
         | HClose m \<Rightarrow>
             Some (p\<lparr>task_queue := queue_close (q_ops E) (task_queue p),
                     shutdowns := goto (if m = ForcefulCancel then HSweep else HActive False)\<rparr>)
         | HSweep \<Rightarrow> Some (p\<lparr>shutdowns := goto (HCancelTasks (slots_all_tokens (active_task_info p)))\<rparr>)
         | HCancelTasks [] \<Rightarrow> Some (p\<lparr>shutdowns := goto (HActive False)\<rparr>)
         | HCancelTasks (r # rs) \<Rightarrow>
             Some (p\<lparr>cores := heap_cancel (n_ops E) r (cores p), shutdowns := goto (HCancelTasks rs)\<rparr>)
         | HActive a \<Rightarrow>
             Some (p\<lparr>shutdowns := goto (case active_task_count p of
                Inl _ \<Rightarrow> HPanicked | Inr k \<Rightarrow> if 0 < k then HWait a else HTakeWorker a)\<rparr>)
         | HWait a \<Rightarrow>
             Some (p\<lparr>shutdowns := goto (case active_task_count p of
                Inl _ \<Rightarrow> HPanicked | Inr k \<Rightarrow> if k = 0 then HTakeWorker a else HWait a)\<rparr>)
         | HTakeWorker a \<Rightarrow>
             Some (p\<lparr>worker_join_handle := False,
                     shutdowns := goto (if worker_join_handle p then HJoinWorker a else HSink a)\<rparr>)
         | HJoinWorker a \<Rightarrow>
             (if dispatcher_stopped (dispatcher p) \<or> dispatcher_panicked (dispatcher p)
              then Some (p\<lparr>shutdowns := goto (HSink a)\<rparr>) else None)
         | HSink a \<Rightarrow>
             Some (p\<lparr>completion_notifier :=
                       (if a then completion_notifier p else sink_close (c_ops E) (completion_notifier p)),
                     shutdowns := goto HTakeNotifier\<rparr>)
         | HTakeNotifier \<Rightarrow>
             (let (b, n) = take_join_handle (completion_notifier p) in
              Some (p\<lparr>completion_notifier := n, shutdowns := goto (if b then HJoinNotifier else HDrop)\<rparr>))
         | HJoinNotifier \<Rightarrow>
             (if nworker (completion_notifier p) = NStopped
              then Some (p\<lparr>shutdowns := goto HDrop\<rparr>) else None)
         | HDrop \<Rightarrow> Some (p\<lparr>shutdowns := goto HDone, drops := drops p @ [DropCheck]\<rparr>)
         | HDone \<Rightarrow> None
         | HPanicked \<Rightarrow> None
         | HAbandoned \<Rightarrow> None)
      else None)"

text \<open>The timers: 30 seconds for the active tasks, 5 for each of the joins.\<close>

definition shutdown_timeout ::
  "nat \<Rightarrow> ('r, 'n, 's, 'q, 'c, 'o, 'h) pool \<Rightarrow> ('r, 'n, 's, 'q, 'c, 'o, 'h) pool option" where
  "shutdown_timeout i p =
     (if i < length (shutdowns p) then
        (let goto = (\<lambda>pc. Some (p\<lparr>shutdowns := (shutdowns p)[i := pc]\<rparr>)) in
         case shutdowns p ! i of
           HWait a \<Rightarrow> goto (case active_task_count p of Inl _ \<Rightarrow> HPanicked | Inr _ \<Rightarrow> HTakeWorker a)
         | HJoinWorker a \<Rightarrow> goto (HSink a)
         | HJoinNotifier \<Rightarrow> goto HDrop
         | _ \<Rightarrow> None)
      else None)"

text \<open>
  The drop of the future of \<open>shutdown\<close>, before its first poll or at one of its awaits: \<open>self\<close> and
  a join handle in hand are dropped with it.
\<close>

fun shutdown_suspended :: "shutdown_pc \<Rightarrow> bool" where
  "shutdown_suspended (HStart _) = True"
| "shutdown_suspended (HWait _) = True"
| "shutdown_suspended (HJoinWorker _) = True"
| "shutdown_suspended HJoinNotifier = True"
| "shutdown_suspended _ = False"

definition shutdown_abandon ::
  "nat \<Rightarrow> ('r, 'n, 's, 'q, 'c, 'o, 'h) pool \<Rightarrow> ('r, 'n, 's, 'q, 'c, 'o, 'h) pool option" where
  "shutdown_abandon i p =
     (if i < length (shutdowns p) \<and> shutdown_suspended (shutdowns p ! i)
      then Some (p\<lparr>shutdowns := (shutdowns p)[i := HAbandoned], drops := drops p @ [DropCheck]\<rparr>)
      else None)"

text \<open>\<open>Drop::drop\<close> of a clone, then the drop of its fields.\<close>

definition drop_step ::
  "('r, 'n, 's, 'q, 'c, 'o, 'h) env \<Rightarrow> nat \<Rightarrow> ('r, 'n, 's, 'q, 'c, 'o, 'h) pool \<Rightarrow>
     ('r, 'n, 's, 'q, 'c, 'o, 'h) pool option" where
  "drop_step E i p =
     (if i < length (drops p) then
        (let goto = (\<lambda>pc. (drops p)[i := pc]) in
         case drops p ! i of
           DropCheck \<Rightarrow> Some (p\<lparr>drops := goto (if 1 < shutdown_guard p then DropRelease else DropFlag)\<rparr>)
         | DropFlag \<Rightarrow> Some (p\<lparr>drops := goto (if shutting_down p then DropRelease else DropCancel)\<rparr>)
         | DropCancel \<Rightarrow>
             Some (p\<lparr>shutdown_token := cancel (n_ops E) (shutdown_token p), drops := goto DropClose\<rparr>)
         | DropClose \<Rightarrow>
             Some (p\<lparr>task_queue := queue_close (q_ops E) (task_queue p), drops := goto DropSink\<rparr>)
         | DropSink \<Rightarrow>
             Some (p\<lparr>completion_notifier := sink_close (c_ops E) (completion_notifier p),
                     drops := goto DropRelease\<rparr>)
         | DropRelease \<Rightarrow>
             Some (release_sink E (p\<lparr>shutdown_guard := shutdown_guard p - 1,
                     task_queue := queue_drop_producer (q_ops E) (task_queue p), drops := goto DropDone\<rparr>))
         | DropDone \<Rightarrow> None)
      else None)"

section \<open>The pool\<close>

text \<open>
  All the activities together. A call on \<open>&self\<close> needs a clone of the manager that is neither
  shut down nor dropped; a call of \<open>shutdown\<close> and a drop use one up.
\<close>

datatype ('r, 'h) pool_event =
    Submit "task_label set" "'r task_to_execute"
  | StepSubmit core_ref
  | AbandonSubmit core_ref
  | StepDispatcher
  | StepTask nat
  | CancelHandle core_ref
  | AwaitResult core_ref
  | Detach core_ref
  | CancelLabels "task_label set"
  | StepCancel nat
  | AddHandlerInit
  | AddHandlerPush 'h
  | StepNotifier nat
  | CloneManager
  | Shutdown shutdown_mode
  | StepShutdown nat
  | TimeoutShutdown nat
  | AbandonShutdown nat
  | DropManager
  | StepDrop nat

fun pool_step ::
  "('r, 'n, 's, 'q, 'c, 'o, 'h) env \<Rightarrow> ('r, 'h) pool_event \<Rightarrow> ('r, 'n, 's, 'q, 'c, 'o, 'h) pool \<Rightarrow>
     ('r, 'n, 's, 'q, 'c, 'o, 'h) pool option" where
  "pool_step E (Submit ls f) p =
     with_manager p (Some (case submit_begin E ls f p of Inl _ \<Rightarrow> p | Inr p' \<Rightarrow> p'))"
| "pool_step E (StepSubmit r) p = step_send E r p"
| "pool_step E (AbandonSubmit r) p = step_abandon E r p"
| "pool_step E StepDispatcher p = dispatcher_step E p"
| "pool_step E (StepTask i) p = task_step E i p"
| "pool_step E (CancelHandle r) p = step_cancel_handle E r p"
| "pool_step E (AwaitResult r) p = step_await E r p"
| "pool_step E (Detach r) p = step_detach E r p"
| "pool_step E (CancelLabels ls) p = with_manager p (Some (cancel_tasks_by_labels ls p))"
| "pool_step E (StepCancel i) p = label_cancel_step E i p"
| "pool_step E AddHandlerInit p =
     with_manager p (Some (p\<lparr>completion_notifier :=
       ensure_worker_initialized (c_ops E) (completion_notifier p)\<rparr>))"
| "pool_step E (AddHandlerPush h) p =
     with_manager p (map_option (\<lambda>n. p\<lparr>completion_notifier := n\<rparr>) (push_handler h (completion_notifier p)))"
| "pool_step E (StepNotifier now) p =
     map_option (\<lambda>n. p\<lparr>completion_notifier := n\<rparr>)
       (notifier_worker_step (c_ops E) (handler_panics E) (look_core p) (shutting_down p) now
         (completion_notifier p))"
| "pool_step E CloneManager p =
     with_manager p (Some (p\<lparr>idle_managers := Suc (idle_managers p), shutdown_guard := Suc (shutdown_guard p),
       task_queue := queue_clone_producer (q_ops E) (task_queue p)\<rparr>))"
| "pool_step E (Shutdown m) p =
     with_manager p (Some (p\<lparr>idle_managers := idle_managers p - 1, shutdowns := shutdowns p @ [HStart m]\<rparr>))"
| "pool_step E (StepShutdown i) p = shutdown_step E i p"
| "pool_step E (TimeoutShutdown i) p = shutdown_timeout i p"
| "pool_step E (AbandonShutdown i) p = shutdown_abandon i p"
| "pool_step E DropManager p =
     with_manager p (Some (p\<lparr>idle_managers := idle_managers p - 1, drops := drops p @ [DropCheck]\<rparr>))"
| "pool_step E (StepDrop i) p = drop_step E i p"

abbreviation pool_reach ::
  "('r, 'n, 's, 'q, 'c, 'o, 'h) env \<Rightarrow> nat \<Rightarrow> nat \<Rightarrow> string \<Rightarrow> ('r, 'n, 's, 'q, 'c, 'o, 'h) pool \<Rightarrow> bool" where
  "pool_reach E limit cap name \<equiv> reach (\<lambda>p. p = pool_new E limit cap name) (pool_step E)"

end
