(* ===== verification/ManagerFrame.thy ===== *)
theory ManagerFrame
  imports Manager
begin

text \<open>
  What each step of the strict pool leaves alone. The lemmas divide the pool's state among its
  activities, so that the proof of an invariant has to look at the few steps that write
  the fields it speaks of.
\<close>

section \<open>Who writes what\<close>

lemma label_cancel_step_eq:
  "label_cancel_step E i p =
     (if i < length (label_cancels p) \<and> label_cancels p ! i \<noteq> []
      then Some (p\<lparr>cores := heap_cancel (n_ops E) (hd (label_cancels p ! i)) (cores p),
                    label_cancels := (label_cancels p)[i := tl (label_cancels p ! i)]\<rparr>)
      else None)"
  by (cases "label_cancels p ! i") (simp_all add: label_cancel_step_def)

lemmas pool_op_defs = with_manager_def submit_begin_def step_send_def step_abandon_def
  cancel_tasks_by_labels_def label_cancel_step_eq shutdown_abandon_def step_cancel_handle_def step_await_def await_step_def step_detach_def detach_step_def

lemma release_sink_frame [simp]:
  "cores (release_sink E p) = cores p" "oneshots (release_sink E p) = oneshots p"
  "handles (release_sink E p) = handles p" "task_queue (release_sink E p) = task_queue p"
  "active_task_info (release_sink E p) = active_task_info p"
  "concurrency_gate (release_sink E p) = concurrency_gate p"
  "dispatcher (release_sink E p) = dispatcher p" "tasks (release_sink E p) = tasks p"
  "shutdown_token (release_sink E p) = shutdown_token p" "shutdowns (release_sink E p) = shutdowns p"
  "drops (release_sink E p) = drops p" "next_task_id (release_sink E p) = next_task_id p"
  "worker_join_handle (release_sink E p) = worker_join_handle p"
  "label_cancels (release_sink E p) = label_cancels p"
  "idle_managers (release_sink E p) = idle_managers p" "shutdown_guard (release_sink E p) = shutdown_guard p"
  "pool_name (release_sink E p) = pool_name p"
  by (simp_all add: release_sink_def)

lemmas dispatch_defs = dispatch_cancelled_def dispatch_notify_def dispatch_insert_def dispatch_spawn_def

text \<open>The events that neither the worker loop nor a spawned task performs.\<close>

definition outside :: "('r, 'h) pool_event \<Rightarrow> bool" where
  "outside e \<longleftrightarrow> e \<noteq> StepDispatcher \<and> (\<forall>i. e \<noteq> StepTask i)"

lemma shutdown_step_frame:
  assumes "shutdown_step E i p = Some q"
  shows "oneshots q = oneshots p \<and> handles q = handles p \<and> active_task_info q = active_task_info p \<and>
    concurrency_gate q = concurrency_gate p \<and> dispatcher q = dispatcher p \<and> tasks q = tasks p \<and>
    next_task_id q = next_task_id p \<and> pool_name q = pool_name p \<and> idle_managers q = idle_managers p \<and>
    shutdown_guard q = shutdown_guard p \<and> label_cancels q = label_cancels p \<and>
    (cores q = cores p \<or> (\<exists>r. cores q = heap_cancel (n_ops E) r (cores p))) \<and>
    (task_queue q = task_queue p \<or> task_queue q = queue_close (q_ops E) (task_queue p)) \<and>
    (shutdown_token q = shutdown_token p \<or> shutdown_token q = cancel (n_ops E) (shutdown_token p))"
  using assms
  by (cases "shutdowns p ! i") (auto simp: shutdown_step_def Let_def split: if_splits list.splits prod.splits)

lemma shutdown_timeout_frame:
  assumes "shutdown_timeout i p = Some q"
  shows "\<exists>hs. q = p\<lparr>shutdowns := hs\<rparr>"
  using assms
  by (auto simp: shutdown_timeout_def Let_def split: if_splits shutdown_pc.splits sum.splits)

lemma shutdown_abandon_frame:
  assumes "shutdown_abandon i p = Some q"
  shows "\<exists>hs ds. q = p\<lparr>shutdowns := hs, drops := ds\<rparr>"
  using assms by (auto simp: shutdown_abandon_def split: if_splits)

lemma label_cancel_step_frame:
  assumes "label_cancel_step E i p = Some q"
  shows "\<exists>r rs. q = p\<lparr>cores := heap_cancel (n_ops E) r (cores p), label_cancels := rs\<rparr>"
  using assms by (auto simp: label_cancel_step_eq split: if_splits)

lemma drop_step_frame:
  assumes "drop_step E i p = Some q"
  shows "cores q = cores p \<and> oneshots q = oneshots p \<and> handles q = handles p \<and>
    active_task_info q = active_task_info p \<and> shutdowns q = shutdowns p \<and>
    concurrency_gate q = concurrency_gate p \<and> dispatcher q = dispatcher p \<and> tasks q = tasks p \<and>
    next_task_id q = next_task_id p \<and> pool_name q = pool_name p \<and> idle_managers q = idle_managers p \<and>
    label_cancels q = label_cancels p \<and>
    (task_queue q = task_queue p \<or> task_queue q = queue_close (q_ops E) (task_queue p) \<or>
     task_queue q = queue_drop_producer (q_ops E) (task_queue p)) \<and>
    (shutdown_token q = shutdown_token p \<or> shutdown_token q = cancel (n_ops E) (shutdown_token p))"
  using assms by (auto simp: drop_step_def Let_def split: if_splits drop_pc.splits)

lemma task_step_frame:
  assumes "task_step E i p = Some q"
  shows "cores q = cores p \<and> handles q = handles p \<and> task_queue q = task_queue p \<and>
    dispatcher q = dispatcher p \<and> shutdown_token q = shutdown_token p \<and> shutdowns q = shutdowns p \<and>
    drops q = drops p \<and> next_task_id q = next_task_id p \<and> pool_name q = pool_name p \<and>
    idle_managers q = idle_managers p \<and> shutdown_guard q = shutdown_guard p \<and>
    worker_join_handle q = worker_join_handle p \<and> label_cancels q = label_cancels p"
  using assms by (auto simp: task_step_def Let_def split: if_splits task_pc.splits option.splits)

lemma dispatcher_step_frame:
  assumes "dispatcher_step E p = Some q"
  shows "cores q = cores p \<and> handles q = handles p \<and> shutdown_token q = shutdown_token p \<and>
    shutdowns q = shutdowns p \<and> drops q = drops p \<and> next_task_id q = next_task_id p \<and>
    pool_name q = pool_name p \<and> idle_managers q = idle_managers p \<and> shutdown_guard q = shutdown_guard p \<and>
    worker_join_handle q = worker_join_handle p \<and> label_cancels q = label_cancels p"
  using assms
  by (cases "dispatcher p")
    (auto simp: dispatcher_step_def dispatch_defs Let_def split: prod.splits recv.splits if_splits sum.splits)

text \<open>The calls on a manager or a handle: everything but the queue, cores, oneshots, handles.\<close>

lemma call_frame:
  assumes "pool_step E e p = Some q"
    and "outside e" "\<forall>i. e \<noteq> StepShutdown i" "\<forall>i. e \<noteq> TimeoutShutdown i" "\<forall>i. e \<noteq> StepDrop i"
  shows "active_task_info q = active_task_info p \<and> concurrency_gate q = concurrency_gate p \<and>
    dispatcher q = dispatcher p \<and> tasks q = tasks p \<and> pool_name q = pool_name p \<and>
    shutdown_token q = shutdown_token p \<and> worker_join_handle q = worker_join_handle p"
  using assms
  by (cases e)
    (auto simp: pool_op_defs outside_def Let_def split: if_splits sum.splits option.splits prod.splits)

text \<open>The running state: permits, worker loop, tasks, registry.\<close>

lemma outside_frame:
  assumes "pool_step E e p = Some q" "outside e"
  shows "active_task_info q = active_task_info p \<and> concurrency_gate q = concurrency_gate p \<and>
    dispatcher q = dispatcher p \<and> tasks q = tasks p \<and> pool_name q = pool_name p"
proof -
  consider i where "e = StepShutdown i" | i where "e = TimeoutShutdown i" | i where "e = StepDrop i"
    | "\<forall>i. e \<noteq> StepShutdown i" "\<forall>i. e \<noteq> TimeoutShutdown i" "\<forall>i. e \<noteq> StepDrop i" by blast
  then show ?thesis
  proof cases
    case (1 i)
    then show ?thesis using assms shutdown_step_frame [of E i p q] by simp
  next
    case (2 i)
    then show ?thesis using assms shutdown_timeout_frame [of i p q] by auto
  next
    case (3 i)
    then show ?thesis using assms drop_step_frame [of E i p q] by simp
  next
    case 4
    then show ?thesis using call_frame [OF assms] by blast
  qed
qed

end
