(* ===== verification/ManagerInv.thy ===== *)
theory ManagerInv
  imports ManagerFrame
begin

text \<open>
  Invariants of the strict pool: addresses and ids, the permits of the concurrency gate, the
  registry of active tasks and the order of the tasks, each as an interpretation of
  \<open>invariant\<close> on \<open>pool_step\<close>.
\<close>

section \<open>Cores, flags and addresses\<close>

lemma queue_step_send_targets:
  assumes C: "chan_laws C" and S: "sem_laws S" and st: "queue_step_send C S sd w q = Some q2"
  shows "map fst (sends q2) = map fst (sends q)"
  using st
proof (cases rule: queue_step_send_cases)
  case (1 t pc pc' q')
  have "sends q' = sends q" using send_step_effect [OF C S 1(3)] by blast
  moreover have "map fst ((sends q)[w := (t, pc')]) = (map fst (sends q))[w := map fst (sends q) ! w]"
    using 1(1,2) by (simp add: map_update)
  ultimately show ?thesis by (simp add: 1(4))
qed

lemma queue_abandon_targets:
  assumes "queue_abandon_send S w q = Some q2"
  shows "map fst (sends q2) = map fst (sends q)"
  using assms
proof (cases rule: queue_abandon_cases)
  case (1 t pc)
  have "map fst ((sends q)[w := (t, SendDropped)]) = (map fst (sends q))[w := map fst (sends q) ! w]"
    using 1(1,2) by (simp add: map_update)
  then show ?thesis by (simp add: 1(4))
qed

text \<open>
  The \<open>r\<close>-th accepted submission owns the core, the oneshot, the handle and the call of
  \<open>send\<close> with number \<open>r\<close>, and its task id is \<open>r\<close> (as a \<open>u64\<close>).
\<close>

definition addresses :: "('r, 'n, 's, 'q, 'c, 'o, 'h) pool \<Rightarrow> bool" where
  "addresses p \<longleftrightarrow>
     length (oneshots p) = length (cores p) \<and>
     map (mt_core \<circ> fst) (sends (task_queue p)) = [0..<length (cores p)] \<and>
     map (th_core \<circ> hs_handle) (handles p) = [0..<length (cores p)] \<and>
     map task_id (cores p) = map of_nat [0..<length (cores p)] \<and>
     next_task_id p = of_nat (length (cores p))"

lemma map_fst_targets: "map fst xs = map fst ys \<Longrightarrow> map (mt_core \<circ> fst) xs = map (mt_core \<circ> fst) ys"
  by (metis map_map)

lemma heap_cancel_ids [simp]: "map task_id (heap_cancel N r h) = map task_id h"
  by (rule nth_equalityI) simp_all

lemma cancel_all_ids [simp]: "map task_id (cancel_all N rs h) = map task_id h"
  by (rule nth_equalityI) simp_all

lemma dispatcher_step_addresses:
  assumes L: "lawful E" and inv: "addresses p" and st: "dispatcher_step E p = Some q"
  shows "addresses q"
proof -
  have "sends (task_queue q) = sends (task_queue p)"
  proof (cases "dispatcher p")
    case DPollRecv
    obtain r q' where r: "queue_recv (q_ops E) (s_ops E) (task_queue p) = (r, q')"
      by (cases "queue_recv (q_ops E) (s_ops E) (task_queue p)")
    have "sends q' = sends (task_queue p)"
      using queue_recv_effect [OF _ _ r] L by (simp add: lawful_def)
    with DPollRecv st r show ?thesis by (cases r) (auto simp: dispatcher_step_def)
  next
    case DExit
    obtain rs q' where r: "queue_drop_consumer (q_ops E) (s_ops E) (task_queue p) = (rs, q')"
      by (cases "queue_drop_consumer (q_ops E) (s_ops E) (task_queue p)")
    have "sends q' = sends (task_queue p)"
      using queue_drop_consumer_effect [OF _ _ r] L by (simp add: lawful_def)
    with DExit st r show ?thesis by (auto simp: dispatcher_step_def)
  qed (use st in \<open>auto simp: dispatcher_step_def dispatch_defs Let_def split: if_splits prod.splits sum.splits\<close>)
  moreover have "length (oneshots q) = length (oneshots p)"
    using st
    by (cases "dispatcher p") (auto simp: dispatcher_step_def dispatch_defs Let_def
        split: prod.splits recv.splits if_splits sum.splits)
  ultimately show ?thesis
    using inv dispatcher_step_frame [OF st] unfolding addresses_def by metis
qed

lemma task_step_oneshots_length:
  "task_step E i p = Some q \<Longrightarrow> length (oneshots q) = length (oneshots p)"
  by (auto simp: task_step_def Let_def split: if_splits task_pc.splits option.splits)

lemma shutdown_side_addresses:
  assumes "addresses p"
    and "cores q = cores p \<or> (\<exists>r. cores q = heap_cancel N r (cores p))"
    and "sends (task_queue q) = sends (task_queue p)"
    and "oneshots q = oneshots p" "handles q = handles p" "next_task_id q = next_task_id p"
  shows "addresses q"
  using assms unfolding addresses_def by auto

lemma step_send_cases:
  assumes "step_send E r p = Some q"
  obtains k os where "queue_step_send (q_ops E) (s_ops E) (shutting_down p) r (task_queue p) = Some k"
    "q = p\<lparr>task_queue := k, oneshots := os\<rparr>"
    "os = oneshots p \<or> os = discard_oneshot E r (oneshots p) \<and> (\<exists>e. snd (sends k ! r) = SendDone (Inl e))"
proof -
  obtain k where k: "queue_step_send (q_ops E) (s_ops E) (shutting_down p) r (task_queue p) = Some k"
    using assms by (auto simp: step_send_def)
  show ?thesis
  proof (cases "\<exists>e. snd (sends k ! r) = SendDone (Inl e)")
    case True
    with assms k have "q = p\<lparr>task_queue := k, oneshots := discard_oneshot E r (oneshots p)\<rparr>"
      by (auto simp: step_send_def)
    with True that [OF k] show ?thesis by blast
  next
    case False
    with assms k have "q = p\<lparr>task_queue := k, oneshots := oneshots p\<rparr>"
      by (auto simp: step_send_def split: send_pc.splits sum.splits)
    with that [OF k] show ?thesis by blast
  qed
qed

lemma step_send_addresses:
  assumes L: "lawful E" and inv: "addresses p" and st: "step_send E r p = Some q"
  shows "addresses q"
  using st
proof (cases rule: step_send_cases)
  case (1 k os)
  have "map fst (sends k) = map fst (sends (task_queue p))"
    using queue_step_send_targets [OF _ _ 1(1)] L by (simp add: lawful_def)
  from map_fst_targets [OF this] inv 1(2,3) show ?thesis by (auto simp: addresses_def)
qed

lemma step_abandon_addresses:
  assumes inv: "addresses p" and st: "step_abandon E r p = Some q"
  shows "addresses q"
proof -
  obtain k where k: "queue_abandon_send (s_ops E) r (task_queue p) = Some k"
    and q: "task_queue q = k" "cores q = cores p" "handles q = handles p"
      "next_task_id q = next_task_id p" "length (oneshots q) = length (oneshots p)"
    using st by (auto simp: step_abandon_def)
  from map_fst_targets [OF queue_abandon_targets [OF k]] inv show ?thesis
    by (simp add: addresses_def q)
qed

lemma submit_addresses:
  assumes inv: "addresses p" and st: "submit_begin E ls f p = Inr q"
  shows "addresses q"
  using assms
  by (auto simp: addresses_def submit_begin_def Let_def queue_begin_send_def handle_new_def split: if_splits)

lemma handle_update_addresses:
  assumes "addresses p" "r < length (handles p)" "th_core (hs_handle x) = th_core (hs_handle (handles p ! r))"
  shows "map (th_core \<circ> hs_handle) ((handles p)[r := x]) = [0..<length (cores p)]"
  using assms map_id_update [of r "handles p" "th_core \<circ> hs_handle" x] by (simp add: addresses_def)

lemma step_await_addresses:
  fixes p :: "('r, 'n, 's, 'q, 'c, 'o, 'h) pool"
  assumes inv: "addresses p" and st: "step_await E r p = Some q"
  shows "addresses q"
proof -
  have t: "submit_result p r = Some (Inr t) \<Longrightarrow> t = hs_handle (handles p ! r)" for t
    by (auto simp: submit_result_def split: send_pc.splits sum.splits)
  show ?thesis
  proof (cases "hs_polling (handles p ! r)")
    case True
    obtain x c where x: "await_poll (o_ops E) (recv_error_text E)
        (handle_id (cores p) (hs_handle (handles p ! r))) (oneshots p ! r) = (x, c)" by fastforce
    with True st have "r < length (handles p)" and
      q: "q = p\<lparr>oneshots := (oneshots p)[r := c], handles := (handles p)[r := (handles p ! r)\<lparr>hs_result := x\<rparr>]\<rparr>"
      by (auto simp: step_await_def await_step_def split: option.splits sum.splits if_splits dest: t)
    with inv handle_update_addresses [OF inv this(1), of "(handles p ! r)\<lparr>hs_result := x\<rparr>"]
    show ?thesis by (simp add: addresses_def)
  next
    case False
    obtain x :: "'r task_result option" and t' where x: "await_begin (hs_handle (handles p ! r)) = (x, t')" by fastforce
    have th: "th_core t' = th_core (hs_handle (handles p ! r))"
      using x by (auto simp: await_begin_def split: if_splits)
    let ?h = "\<lparr>hs_handle = t', hs_polling = True, hs_result = x\<rparr>"
    from x False st have "r < length (handles p)" and q: "q = p\<lparr>handles := (handles p)[r := ?h]\<rparr>"
      by (auto simp: step_await_def await_step_def split: option.splits sum.splits if_splits dest: t)
    with inv handle_update_addresses [OF inv this(1), of ?h] th
    show ?thesis by (simp add: addresses_def)
  qed
qed

lemma step_detach_addresses:
  fixes p :: "('r, 'n, 's, 'q, 'c, 'o, 'h) pool"
  assumes inv: "addresses p" and st: "step_detach E r p = Some q"
  shows "addresses q"
proof -
  have t: "submit_result p r = Some (Inr t) \<Longrightarrow> t = hs_handle (handles p ! r)" for t
    by (auto simp: submit_result_def split: send_pc.splits sum.splits)
  obtain t' c where x: "handle_detach (o_ops E) (hs_handle (handles p ! r)) (oneshots p ! r) = (t', c)"
    by fastforce
  then have th: "th_core t' = th_core (hs_handle (handles p ! r))" by (auto simp: handle_detach_def)
  let ?h = "(handles p ! r)\<lparr>hs_handle := t'\<rparr>"
  from x st have "r < length (handles p)" and
    q: "q = p\<lparr>oneshots := (oneshots p)[r := c], handles := (handles p)[r := ?h]\<rparr>"
    by (auto simp: step_detach_def detach_step_def split: option.splits sum.splits if_splits dest: t)
  with inv handle_update_addresses [OF inv this(1), of ?h] th show ?thesis by (simp add: addresses_def)
qed

lemma addresses_step:
  assumes L: "lawful E" and inv: "addresses p" and st: "pool_step E e p = Some q"
  shows "addresses q"
proof (cases e)
  case (Submit ls f)
  with st inv show ?thesis
    by (cases "submit_begin E ls f p") (auto simp: with_manager_def split: if_splits intro: submit_addresses)
next
  case (StepSubmit r)
  with st inv step_send_addresses [OF L] show ?thesis by simp
next
  case (AbandonSubmit r)
  with st inv step_abandon_addresses show ?thesis by simp
next
  case StepDispatcher
  with st inv dispatcher_step_addresses [OF L] show ?thesis by simp
next
  case (StepTask i)
  with st inv task_step_frame [of E i p q] task_step_oneshots_length [of E i p q] show ?thesis
    by (simp add: addresses_def)
next
  case (CancelHandle r)
  with st inv show ?thesis
    by (auto simp: step_cancel_handle_def handle_cancel_def addresses_def
        split: option.splits sum.splits if_splits)
next
  case (AwaitResult r)
  with st inv step_await_addresses show ?thesis by simp
next
  case (Detach r)
  with st inv step_detach_addresses show ?thesis by simp
next
  case (CancelLabels ls)
  with st inv show ?thesis
    by (auto simp: cancel_tasks_by_labels_def with_manager_def addresses_def split: if_splits)
next
  case (StepCancel i)
  with st inv label_cancel_step_frame [of E i p q] show ?thesis by (auto simp: addresses_def)
next
  case (AbandonShutdown i)
  with st inv shutdown_abandon_frame [of i p q] show ?thesis by (auto simp: addresses_def)
next
  case (StepShutdown i)
  then have f: "shutdown_step E i p = Some q" using st by simp
  from shutdown_step_frame [OF f] show ?thesis
    by (intro shutdown_side_addresses [OF inv, of q "n_ops E"]) auto
next
  case (TimeoutShutdown i)
  with st inv shutdown_timeout_frame [of i p q] show ?thesis by (auto simp: addresses_def)
next
  case (StepDrop i)
  then have f: "drop_step E i p = Some q" using st by simp
  from drop_step_frame [OF f] show ?thesis
    by (intro shutdown_side_addresses [OF inv, of q "n_ops E"]) auto
qed (use st inv in \<open>auto simp: with_manager_def addresses_def split: if_splits\<close>)

lemma addresses_new: "addresses (pool_new E limit cap name)"
  by (simp add: addresses_def pool_new_def queue_new_def)

interpretation addr: invariant "\<lambda>p. p = pool_new E limit cap name" "pool_step E"
    "\<lambda>p. lawful E \<longrightarrow> addresses p" for E limit cap name
  by unfold_locales (auto simp: addresses_new intro: addresses_step)

section \<open>Permits and the registry\<close>

fun worker_holds :: "'r dispatcher_pc \<Rightarrow> bool" where
  "worker_holds DCheck = True"
| "worker_holds DPollRecv = True"
| "worker_holds DPollRecvToken = True"
| "worker_holds (DReceived _) = True"
| "worker_holds (DGot _) = True"
| "worker_holds (DCancelled _) = True"
| "worker_holds (DNotify _) = True"
| "worker_holds DNext = True"
| "worker_holds (DInsert _) = True"
| "worker_holds (DSpawn _ _) = True"
| "worker_holds _ = False"

definition task_holds :: "'r spawned_task \<Rightarrow> bool" where
  "task_holds t \<longleftrightarrow> st_pc t \<noteq> TRemove \<and> st_pc t \<noteq> TDone"

definition task_registered :: "'r spawned_task \<Rightarrow> bool" where
  "task_registered t \<longleftrightarrow> st_pc t \<noteq> TDone"

text \<open>A permit is available, held by the worker loop or held by exactly one task.\<close>

definition permits_inv ::
  "('r, 'n, 's, 'q, 'c, 'o, 'h) env \<Rightarrow> nat \<Rightarrow> ('r, 'n, 's, 'q, 'c, 'o, 'h) pool \<Rightarrow> bool" where
  "permits_inv E n p \<longleftrightarrow>
     gate_get_permits (s_ops E) (concurrency_gate p) + of_bool (worker_holds (dispatcher p)) +
       count_if task_holds (tasks p) = n"

text \<open>The registry maps the slots of the tasks that have not left it to their cores.\<close>

definition registry_inv :: "active_slots \<Rightarrow> 'r spawned_task list \<Rightarrow> bool" where
  "registry_inv a ts \<longleftrightarrow>
     slots_wf a \<and> occupied a = count_if task_registered ts \<and>
     (\<forall>i < length ts. task_registered (ts ! i) \<longrightarrow>
        slot_map a (st_slot (ts ! i)) = Some (mt_core (st_task (ts ! i)))) \<and>
     (\<forall>i < length ts. \<forall>j < length ts. task_registered (ts ! i) \<longrightarrow> task_registered (ts ! j) \<longrightarrow>
        st_slot (ts ! i) = st_slot (ts ! j) \<longrightarrow> i = j)"

lemma registry_ran_subset:
  assumes "registry_inv a ts"
  shows "{s. slot_map a s \<noteq> None} = st_slot ` {t \<in> set ts. task_registered t}"
proof -
  let ?I = "{i. i < length ts \<and> task_registered (ts ! i)}"
  let ?f = "\<lambda>i. st_slot (ts ! i)"
  have sub: "?f ` ?I \<subseteq> dom (slot_map a)" using assms by (auto simp: registry_inv_def)
  have "inj_on ?f ?I" using assms by (auto simp: registry_inv_def inj_on_def)
  then have "card (?f ` ?I) = card ?I" by (rule card_image)
  also have "\<dots> = card (dom (slot_map a))"
    using assms by (simp add: registry_inv_def flip: occupied_card count_if_card)
  finally have "card (?f ` ?I) = card (dom (slot_map a))" .
  moreover have "finite (dom (slot_map a))"
    by (rule finite_subset [of _ "{..<length (slots a)}"]) (auto simp: slot_map_def split: if_splits)
  ultimately have "?f ` ?I = dom (slot_map a)" using sub by (rule card_subset_eq [rotated 2])
  moreover have "?f ` ?I = st_slot ` {t \<in> set ts. task_registered t}"
    by (auto simp: in_set_conv_nth image_iff)
  ultimately show ?thesis by (simp add: dom_def)
qed

lemma registry_inv_ran:
  assumes "registry_inv a ts"
  shows "ran (slot_map a) = {mt_core (st_task t) |t. t \<in> set ts \<and> task_registered t}" (is "?L = ?R")
proof
  show "?R \<subseteq> ?L"
    using assms by (fastforce simp: registry_inv_def in_set_conv_nth intro: ranI)
  show "?L \<subseteq> ?R"
  proof
    fix r assume "r \<in> ?L"
    then obtain s where s: "slot_map a s = Some r" by (auto simp: ran_def)
    then have "s \<in> st_slot ` {t \<in> set ts. task_registered t}"
      using registry_ran_subset [OF assms] by blast
    then obtain i where i: "i < length ts" "task_registered (ts ! i)" "s = st_slot (ts ! i)"
      by (auto simp: in_set_conv_nth)
    then have "slot_map a s = Some (mt_core (st_task (ts ! i)))"
      using assms by (simp add: registry_inv_def)
    with s i show "r \<in> ?R" by (auto intro: nth_mem)
  qed
qed

text \<open>A step of a task that keeps its registration, and its last step.\<close>

lemma registry_inv_keep:
  assumes inv: "registry_inv a ts" and i: "i < length ts"
    and same: "st_task t = st_task (ts ! i)" "st_slot t = st_slot (ts ! i)"
      "task_registered t = task_registered (ts ! i)"
  shows "registry_inv a (ts[i := t])"
proof -
  have nth: "task_registered (ts[i := t] ! j) = task_registered (ts ! j)"
      "st_slot (ts[i := t] ! j) = st_slot (ts ! j)" "st_task (ts[i := t] ! j) = st_task (ts ! j)" for j
    using i same by (auto simp: nth_upd)
  have "count_if task_registered (ts[i := t]) = count_if task_registered ts"
    using i same(3) by (rule count_if_update_same)
  with inv show ?thesis unfolding registry_inv_def nth by simp
qed

lemma registry_inv_remove:
  assumes inv: "registry_inv a ts" and i: "i < length ts"
    and t: "task_registered (ts ! i)" "\<not> task_registered t"
  shows "registry_inv (slots_remove (st_slot (ts ! i)) a) (ts[i := t])"
proof -
  let ?s = "st_slot (ts ! i)" and ?ts = "ts[i := t]"
  have wf: "slots_wf a" and some: "slot_map a ?s \<noteq> None"
    using inv i t by (auto simp: registry_inv_def)
  have "Suc (occupied (slots_remove ?s a)) = Suc (count_if task_registered ?ts)"
    using occupied_remove [OF some] inv count_if_update_lose [of i ts task_registered t] i t
    by (simp add: registry_inv_def)
  moreover have "st_slot (ts ! j) \<noteq> ?s" if "j < length ts" "task_registered (ts ! j)" "j \<noteq> i" for j
    using inv i t that by (auto simp: registry_inv_def)
  ultimately show ?thesis
    using inv i t slots_remove_spec [OF wf, of ?s] unfolding registry_inv_def
    by (auto simp: nth_upd split: if_splits)
qed

lemma registry_inv_insert:
  assumes inv: "registry_inv a ts" and ins: "slots_insert r a = Inr (s, a')"
    and t: "st_slot t = s" "mt_core (st_task t) = r" "task_registered t"
  shows "registry_inv a' (ts @ [t])"
proof -
  from inv have wf: "slots_wf a" by (simp add: registry_inv_def)
  from slots_insert_spec [OF wf, of r] ins
  have a': "slots_wf a'" "slot_map a s = None" "slot_map a' = (slot_map a)(s \<mapsto> r)"
    "occupied a' = Suc (occupied a)" by auto
  have "st_slot (ts ! j) \<noteq> s" if "j < length ts" "task_registered (ts ! j)" for j
    using inv a'(2) that by (auto simp: registry_inv_def)
  with inv a' t show ?thesis
    unfolding registry_inv_def by (auto simp: nth_append less_Suc_eq)
qed

lemma registry_insert_ok:
  "registry_inv a ts \<Longrightarrow> \<exists>s a'. slots_insert r a = Inr (s, a')"
  using slots_insert_spec [of a r] by (auto simp: registry_inv_def)

section \<open>The running part of the pool\<close>

text \<open>The task the worker loop has registered and is about to spawn.\<close>

fun spawning_task :: "'r dispatcher_pc \<Rightarrow> 'r spawned_task list" where
  "spawning_task (DSpawn t slot) =
     [\<lparr>st_task = t, st_slot = slot, st_notify = False, st_polls = 0, st_pc = TPollFuture\<rparr>]"
| "spawning_task _ = []"

abbreviation launched :: "('r, 'n, 's, 'q, 'c, 'o, 'h) pool \<Rightarrow> 'r spawned_task list" where
  "launched p \<equiv> tasks p @ spawning_task (dispatcher p)"

text \<open>The tasks that are registered: those started and not yet removed, and the one about to start.\<close>

definition active_cores :: "('r, 'n, 's, 'q, 'c, 'o, 'h) pool \<Rightarrow> core_ref set" where
  "active_cores p = {mt_core (st_task t) |t. t \<in> set (launched p) \<and> task_registered t}"

definition running_inv ::
  "('r, 'n, 's, 'q, 'c, 'o, 'h) env \<Rightarrow> nat \<Rightarrow> ('r, 'n, 's, 'q, 'c, 'o, 'h) pool \<Rightarrow> bool" where
  "running_inv E n p \<longleftrightarrow>
     permits_inv E n p \<and> registry_inv (active_task_info p) (launched p) \<and> dispatcher p \<noteq> DPanicked"

lemma running_active:
  "running_inv E n p \<Longrightarrow> set (slots_all_tokens (active_task_info p)) = active_cores p"
  using registry_inv_ran [of "active_task_info p" "launched p"] strict_registry.set_all
  by (simp add: running_inv_def active_cores_def)

lemma dispatcher_step_running:
  assumes L: "lawful E" and inv: "running_inv E n p" and st: "dispatcher_step E p = Some q"
  shows "running_inv E n q"
proof -
  have S: "sem_laws (s_ops E)" using L by (simp add: lawful_def)
  note rel = gate.release_avail [OF S] and aban = gate.abandon_avail [OF S]
  show ?thesis
  proof (cases "dispatcher p")
    case DPollPermit
    obtain b g where g: "gate_poll_acquire (s_ops E) 0 (concurrency_gate p) = (b, g)"
      by (cases "gate_poll_acquire (s_ops E) 0 (concurrency_gate p)")
    from gate.poll_avail [OF S g] g DPollPermit st inv show ?thesis
      by (cases b) (auto simp: running_inv_def permits_inv_def dispatcher_step_def)
  next
    case DPollRecv
    obtain r k where "queue_recv (q_ops E) (s_ops E) (task_queue p) = (r, k)"
      by (cases "queue_recv (q_ops E) (s_ops E) (task_queue p)")
    with DPollRecv st inv rel show ?thesis
      by (cases r) (auto simp: running_inv_def permits_inv_def dispatcher_step_def)
  next
    case (DInsert t)
    from inv DInsert have reg: "registry_inv (active_task_info p) (tasks p)" by (simp add: running_inv_def)
    from registry_insert_ok [OF reg, of "mt_core t"] obtain s a
      where i: "slots_insert (mt_core t) (active_task_info p) = Inr (s, a)" by blast
    with DInsert st have q: "q = p\<lparr>active_task_info := a, dispatcher := DSpawn t s\<rparr>"
      by (simp add: dispatcher_step_def dispatch_insert_def)
    have "registry_inv a (launched q)"
      unfolding q by (simp, rule registry_inv_insert [OF reg i]) (simp_all add: task_registered_def)
    with inv DInsert show ?thesis by (simp add: running_inv_def permits_inv_def q)
  next
    case (DSpawn t s)
    let ?n = "length (tasks p)"
    obtain b n' where b: "sink_sender (c_ops E) (completion_notifier p) = (b, n')" by fastforce
    let ?t = "\<lparr>st_task = t, st_slot = s, st_notify = b, st_polls = 0, st_pc = TPollFuture\<rparr>"
    from b DSpawn st have q: "q = p\<lparr>completion_notifier := n', dispatcher := DTop, tasks := tasks p @ [?t]\<rparr>"
      by (simp add: dispatcher_step_def dispatch_spawn_def)
    have "launched q = (launched p)[?n := ?t]" by (simp add: q DSpawn)
    moreover have "registry_inv (active_task_info p) ((launched p)[?n := ?t])"
      using inv by (intro registry_inv_keep) (simp_all add: running_inv_def DSpawn task_registered_def)
    ultimately show ?thesis
      using inv DSpawn by (simp add: running_inv_def permits_inv_def q task_holds_def)
  qed (use st inv rel aban in \<open>auto simp: running_inv_def permits_inv_def dispatcher_step_def
        dispatch_cancelled_def dispatch_notify_def Let_def split: if_splits prod.splits\<close>)
qed

text \<open>What a spawn does, whatever the sink holds.\<close>

lemma dispatch_spawn_cases:
  obtains b where "b = fst (sink_sender (c_ops E) (completion_notifier p))"
    "completion_notifier (dispatch_spawn E t s p) = snd (sink_sender (c_ops E) (completion_notifier p))"
    "dispatcher (dispatch_spawn E t s p) = DTop"
    "tasks (dispatch_spawn E t s p) =
       tasks p @ [\<lparr>st_task = t, st_slot = s, st_notify = b, st_polls = 0, st_pc = TPollFuture\<rparr>]"
  by (cases "sink_sender (c_ops E) (completion_notifier p)") (simp add: dispatch_spawn_def)

lemma dispatch_spawn_frame [simp]:
  "task_queue (dispatch_spawn E t s p) = task_queue p" "oneshots (dispatch_spawn E t s p) = oneshots p"
  "active_task_info (dispatch_spawn E t s p) = active_task_info p"
  by (simp_all add: dispatch_spawn_def split: prod.splits)

lemma task_step_cases:
  assumes "task_step E i p = Some q"
  obtains t where "i < length (tasks p)" "tasks q = (tasks p)[i := t]" "st_task t = st_task (tasks p ! i)"
    "st_slot t = st_slot (tasks p ! i)" "st_notify t = st_notify (tasks p ! i)"
    "task_registered (tasks p ! i)"
    "active_task_info q = (if task_registered t then active_task_info p
       else slots_remove (st_slot (tasks p ! i)) (active_task_info p))"
    "concurrency_gate q = (if task_holds (tasks p ! i) \<and> \<not> task_holds t
       then gate_release (s_ops E) (concurrency_gate p) else concurrency_gate p)"
    "task_holds t \<longrightarrow> task_holds (tasks p ! i)"
  using assms
  by (auto simp: task_step_def Let_def task_registered_def task_holds_def
      split: if_splits task_pc.splits option.splits)

lemma task_step_running:
  assumes L: "lawful E" and inv: "running_inv E n p" and st: "task_step E i p = Some q"
  shows "running_inv E n q"
  using st
proof (cases rule: task_step_cases)
  case (1 t)
  have S: "sem_laws (s_ops E)" using L by (simp add: lawful_def)
  have d: "dispatcher q = dispatcher p" using task_step_frame [OF st] by blast
  have "permits_inv E n q"
    using inv gate.release_avail [OF S] count_if_update [OF 1(1), of task_holds t] 1(9)
    by (auto simp: running_inv_def permits_inv_def d 1(2,8) split: if_splits)
  moreover have "registry_inv (active_task_info q) ((launched p)[i := t])"
  proof -
    have i: "i < length (launched p)" and nth: "launched p ! i = tasks p ! i"
      using 1(1) by (simp_all add: nth_append)
    have reg: "registry_inv (active_task_info p) (launched p)" using inv by (simp add: running_inv_def)
    show ?thesis
      using registry_inv_keep [OF reg i, unfolded nth, of t] registry_inv_remove [OF reg i, unfolded nth, of t] 1(3-7)
      by (cases "task_registered t") simp_all
  qed
  then have "registry_inv (active_task_info q) (launched q)"
    using 1(1) by (simp add: 1(2) d list_update_append1)
  ultimately show ?thesis using inv by (simp add: running_inv_def d)
qed

lemma running_step:
  assumes L: "lawful E" and inv: "running_inv E n p" and st: "pool_step E e p = Some q"
  shows "running_inv E n q"
proof (cases "outside e")
  case True
  from outside_frame [OF st this] inv show ?thesis by (simp add: running_inv_def permits_inv_def)
next
  case False
  then consider "e = StepDispatcher" | i where "e = StepTask i" by (auto simp: outside_def)
  then show ?thesis
    using st dispatcher_step_running [OF L inv] task_step_running [OF L inv] by cases auto
qed

lemma running_new:
  assumes "lawful E"
  shows "running_inv E (max limit 1) (pool_new E limit cap name)"
proof -
  have "permits_inv E (max limit 1) (pool_new E limit cap name)"
    using assms by (simp add: permits_inv_def pool_new_def lawful_def gate_new_permits)
  then show ?thesis by (simp add: running_inv_def registry_inv_def pool_new_def)
qed

interpretation running: invariant "\<lambda>p. p = pool_new E limit cap name" "pool_step E"
    "\<lambda>p. lawful E \<longrightarrow> running_inv E (max limit 1) p" for E limit cap name
  by unfold_locales (use running_new running_step in blast)+

end
