(* ===== verification/ManagerOrder.thy ===== *)
theory ManagerOrder
  imports ManagerInv
begin

text \<open>
  The queue and the notifier inside the strict pool, as components of its machine, and the
  order in which tasks start. The queue's and the notifier's own theorems hold in the pool
  through these interpretations.
\<close>

section \<open>The queue as a component\<close>

lemma pool_queue_step:
  assumes "pool_step E e p = Some q"
  shows "\<exists>es. run (queue_step (q_ops E) (s_ops E)) es (task_queue p) = Some (task_queue q)"
proof -
  let ?st = "queue_step (q_ops E) (s_ops E)"
  have one: "?st x (task_queue p) = Some (task_queue q) \<Longrightarrow> ?thesis" for x
    by (intro exI [of _ "[x]"]) simp
  have same: "task_queue q = task_queue p \<Longrightarrow> ?thesis"
    by (intro exI [of _ "[]"]) simp
  show ?thesis
  proof (cases e)
    case (Submit ls f)
    with assms consider "q = p"
      | t where "task_queue q = queue_begin_send t (task_queue p)"
      by (auto simp: with_manager_def submit_begin_def Let_def split: if_splits)
    then show ?thesis using same one [of "BeginSend _"] by cases auto
  next
    case (StepSubmit r)
    then have "step_send E r p = Some q" using assms by simp
    then obtain k os where "queue_step_send (q_ops E) (s_ops E) (shutting_down p) r (task_queue p) = Some k"
      "q = p\<lparr>task_queue := k, oneshots := os\<rparr>" by (rule step_send_cases)
    then show ?thesis by (intro one [of "StepSend (shutting_down p) r"]) simp
  next
    case (AbandonSubmit r)
    with assms show ?thesis by (intro one [of "AbandonSend r"]) (auto simp: step_abandon_def)
  next
    case StepDispatcher
    then have st: "dispatcher_step E p = Some q" using assms by simp
    show ?thesis
    proof (cases "dispatcher p")
      case DPollRecv
      obtain r k where r: "queue_recv (q_ops E) (s_ops E) (task_queue p) = (r, k)"
        by (cases "queue_recv (q_ops E) (s_ops E) (task_queue p)")
      with DPollRecv st have "task_queue q = k" by (cases r) (auto simp: dispatcher_step_def)
      with r show ?thesis by (intro one [of Recv]) simp
    next
      case DExit
      obtain rs k where r: "queue_drop_consumer (q_ops E) (s_ops E) (task_queue p) = (rs, k)"
        by (cases "queue_drop_consumer (q_ops E) (s_ops E) (task_queue p)")
      with DExit st have "task_queue q = k" by (auto simp: dispatcher_step_def)
      with r show ?thesis by (intro one [of DropConsumer]) simp
    qed (use st in \<open>auto simp: dispatcher_step_def dispatch_defs Let_def
          split: if_splits prod.splits sum.splits intro: run_stutter\<close>)
  next
    case (StepTask i)
    with assms task_step_frame [of E i p q] same show ?thesis by simp
  next
    case (CancelLabels ls)
    with assms show ?thesis
      by (intro same) (auto simp: with_manager_def cancel_tasks_by_labels_def split: if_splits)
  next
    case CloneManager
    with assms show ?thesis
      by (intro one [of CloneProducer]) (auto simp: with_manager_def split: if_splits)
  next
    case (StepShutdown i)
    then have "task_queue q = task_queue p \<or> task_queue q = queue_close (q_ops E) (task_queue p)"
      using assms shutdown_step_frame [of E i p q] by simp
    then show ?thesis using same one [of Close] by auto
  next
    case (TimeoutShutdown i)
    with assms shutdown_timeout_frame [of i p q] same show ?thesis by auto
  next
    case (StepDrop i)
    then have "task_queue q = task_queue p \<or> task_queue q = queue_close (q_ops E) (task_queue p) \<or>
        task_queue q = queue_drop_producer (q_ops E) (task_queue p)"
      using assms drop_step_frame [of E i p q] by simp
    then show ?thesis using same one [of Close] one [of DropProducer] by auto
  qed (use assms in \<open>auto simp: pool_op_defs Let_def split: if_splits option.splits sum.splits prod.splits
        intro: run_stutter\<close>)
qed

interpretation pool_queue: component "\<lambda>p. p = pool_new E limit cap name" "pool_step E" task_queue
    "\<lambda>q. q = queue_new (q_ops E) (s_ops E) cap" "queue_step (q_ops E) (s_ops E)" for E limit cap name
proof unfold_locales
  show "p = pool_new E limit cap name \<Longrightarrow> task_queue p = queue_new (q_ops E) (s_ops E) cap" for p
    by (simp add: pool_new_def)
qed (use pool_queue_step in blast)

lemma pool_queue_inv:
  assumes "lawful E" "pool_reach E limit cap name p"
  shows "queue_inv (q_ops E) (s_ops E) cap (task_queue p)"
  using reach_queue_inv [OF _ _ pool_queue.reach_proj [OF assms(2)]] assms(1) by (simp add: lawful_def)

lemma pool_addresses: "lawful E \<Longrightarrow> pool_reach E limit cap name p \<Longrightarrow> addresses p"
  using addr.reach_inv by blast

lemma pool_running: "lawful E \<Longrightarrow> pool_reach E limit cap name p \<Longrightarrow> running_inv E (max limit 1) p"
  using running.reach_inv by blast

text \<open>A task is sent at most once, since every call of \<open>submit\<close> has a core of its own.\<close>

lemma distinct_map_filter: "distinct (map f xs) \<Longrightarrow> distinct (map f (filter P xs))"
  by (simp add: distinct_map_filter)

lemma sent_distinct:
  assumes "addresses p" "queue_inv C S n (task_queue p)"
  shows "distinct (sent (task_queue p))" "set (sent (task_queue p)) \<subseteq> {..<length (cores p)}"
proof -
  let ?s = "sends (task_queue p)"
  have m: "mset (sent (task_queue p)) = mset (map (mt_core \<circ> fst) (filter succeeded_send ?s))"
    using assms(2) unfolding queue_inv_def by blast
  have a: "map (mt_core \<circ> fst) ?s = [0..<length (cores p)]"
    using assms(1) by (simp add: addresses_def)
  have "distinct (map (mt_core \<circ> fst) (filter succeeded_send ?s))"
    by (rule distinct_map_filter) (simp add: a)
  then show "distinct (sent (task_queue p))" using mset_eq_imp_distinct_iff [OF m] by simp
  have "set (sent (task_queue p)) = set (map (mt_core \<circ> fst) (filter succeeded_send ?s))"
    using m by (rule mset_eq_setD)
  also have "\<dots> \<subseteq> set (map (mt_core \<circ> fst) ?s)" by auto
  finally show "set (sent (task_queue p)) \<subseteq> {..<length (cores p)}" unfolding a by (simp add: lessThan_atLeast0)
qed

section \<open>The order of the starts\<close>

fun worker_task :: "'r dispatcher_pc \<Rightarrow> 'r managed_task option" where
  "worker_task (DReceived t) = Some t"
| "worker_task (DGot t) = Some t"
| "worker_task (DCancelled t) = Some t"
| "worker_task (DNotify t) = Some t"
| "worker_task (DInsert t) = Some t"
| "worker_task (DSpawn t _) = Some t"
| "worker_task _ = None"

abbreviation opt_list :: "'a option \<Rightarrow> 'a list" where
  "opt_list x \<equiv> (case x of None \<Rightarrow> [] | Some y \<Rightarrow> [y])"

definition worker_core :: "('r, 'n, 's, 'q, 'c, 'o, 'h) pool \<Rightarrow> core_ref list" where
  "worker_core p = opt_list (map_option mt_core (worker_task (dispatcher p)))"

definition started :: "('r, 'n, 's, 'q, 'c, 'o, 'h) pool \<Rightarrow> core_ref list" where
  "started p = map (mt_core \<circ> st_task) (tasks p)"

text \<open>The started tasks and the one in the worker's hands come from the queue in its order.\<close>

definition order_inv :: "('r, 'n, 's, 'q, 'c, 'o, 'h) pool \<Rightarrow> bool" where
  "order_inv p \<longleftrightarrow> subseq (started p @ worker_core p) (received (task_queue p))"

lemma outside_received:
  assumes L: "lawful E" and st: "pool_step E e p = Some q" and "outside e"
  shows "received (task_queue q) = received (task_queue p)"
  using assms(2,3)
proof (cases e)
  case (StepSubmit r)
  then have "step_send E r p = Some q" using st by simp
  then obtain k os where k: "queue_step_send (q_ops E) (s_ops E) (shutting_down p) r (task_queue p) = Some k"
    "q = p\<lparr>task_queue := k, oneshots := os\<rparr>" by (rule step_send_cases)
  from k(1) show ?thesis
  proof (cases rule: queue_step_send_cases)
    case (1 t pc pc' q')
    have "chan_laws (q_ops E)" "sem_laws (s_ops E)" using L by (auto simp: lawful_def)
    from send_step_effect [OF this 1(3)] k(2) 1(4) show ?thesis by simp
  qed
next
  case (AbandonSubmit r)
  then obtain k where "queue_abandon_send (s_ops E) r (task_queue p) = Some k" "task_queue q = k"
    using st by (auto simp: step_abandon_def)
  then show ?thesis using queue_abandon_cases [of "s_ops E" r "task_queue p" k] by metis
next
  case (StepShutdown i)
  then show ?thesis using st shutdown_step_frame [of E i p q] by auto
next
  case (TimeoutShutdown i)
  then show ?thesis using st shutdown_timeout_frame [of i p q] by auto
next
  case (StepDrop i)
  then show ?thesis using st drop_step_frame [of E i p q] by auto
qed (auto simp: pool_op_defs outside_def Let_def split: if_splits option.splits sum.splits prod.splits)

lemma dispatcher_step_order:
  assumes L: "lawful E" and inv: "order_inv p" and st: "dispatcher_step E p = Some q"
  shows "order_inv q"
proof -
  have C: "chan_laws (q_ops E)" and S: "sem_laws (s_ops E)" using L by (auto simp: lawful_def)
  have pre: "subseq (started p) (received (task_queue p))"
    using inv unfolding order_inv_def by (rule subseq_drop_last)
  show ?thesis
  proof (cases "dispatcher p")
    case DPollRecv
    obtain r k where r: "queue_recv (q_ops E) (s_ops E) (task_queue p) = (r, k)"
      by (cases "queue_recv (q_ops E) (s_ops E) (task_queue p)")
    from queue_recv_effect [OF C S r] r st DPollRecv pre show ?thesis
      by (cases r) (auto simp: order_inv_def started_def worker_core_def dispatcher_step_def
          intro: list_emb_append_mono)
  next
    case DExit
    obtain rs k where r: "queue_drop_consumer (q_ops E) (s_ops E) (task_queue p) = (rs, k)"
      by (cases "queue_drop_consumer (q_ops E) (s_ops E) (task_queue p)")
    from queue_drop_consumer_effect [OF C S r] r st DExit pre show ?thesis
      by (auto simp: order_inv_def started_def worker_core_def dispatcher_step_def intro: subseq_order.order_trans)
  next
    case (DSpawn t s)
    with st have q: "q = dispatch_spawn E t s p" by (simp add: dispatcher_step_def)
    show ?thesis
      by (cases rule: dispatch_spawn_cases [of E p t s])
        (use inv DSpawn in \<open>simp add: q order_inv_def started_def worker_core_def\<close>)
  qed (use st inv pre in \<open>auto simp: order_inv_def started_def worker_core_def dispatcher_step_def
        dispatch_cancelled_def dispatch_notify_def dispatch_insert_def Let_def
        split: if_splits prod.splits sum.splits\<close>)
qed

lemma order_step:
  assumes L: "lawful E" and inv: "order_inv p" and st: "pool_step E e p = Some q"
  shows "order_inv q"
proof (cases "outside e")
  case True
  from outside_frame [OF st this] outside_received [OF L st this] inv show ?thesis
    by (simp add: order_inv_def started_def worker_core_def)
next
  case False
  then consider "e = StepDispatcher" | i where "e = StepTask i" by (auto simp: outside_def)
  then show ?thesis
  proof cases
    case 1
    then show ?thesis using st dispatcher_step_order [OF L inv] by simp
  next
    case (2 i)
    then have t: "task_step E i p = Some q" using st by simp
    have "started q = started p"
      using t unfolding started_def by (rule task_step_cases) (simp add: map_id_update)
    then show ?thesis using inv task_step_frame [OF t] by (simp add: order_inv_def worker_core_def)
  qed
qed

lemma order_new: "order_inv (pool_new E limit cap name)"
  by (simp add: order_inv_def started_def worker_core_def pool_new_def)

interpretation order: invariant "\<lambda>p. p = pool_new E limit cap name" "pool_step E"
    "\<lambda>p. lawful E \<longrightarrow> order_inv p" for E limit cap name
  by unfold_locales (use order_new order_step in blast)+

lemma pool_order: "lawful E \<Longrightarrow> pool_reach E limit cap name p \<Longrightarrow> order_inv p"
  using order.reach_inv by blast

lemma pool_started:
  assumes L: "lawful E" and r: "pool_reach E limit cap name p"
  shows "subseq (started p @ worker_core p) (received (task_queue p))"
    and "sent (task_queue p) = received (task_queue p) @ queued (q_ops E) (task_queue p)"
    and "distinct (sent (task_queue p))"
    and "distinct (started p @ worker_core p)"
    and "set (started p) \<subseteq> {..<length (cores p)}"
proof -
  note inv = pool_queue_inv [OF L r] and addr = pool_addresses [OF L r]
  show o: "subseq (started p @ worker_core p) (received (task_queue p))"
    using pool_order [OF L r] by (simp add: order_inv_def)
  show s: "sent (task_queue p) = received (task_queue p) @ queued (q_ops E) (task_queue p)"
    using inv unfolding queue_inv_def by blast
  show d: "distinct (sent (task_queue p))" using sent_distinct [OF addr inv] by blast
  with s have "distinct (received (task_queue p))" by simp
  then show "distinct (started p @ worker_core p)" by (rule subseq_distinct [OF o])
  have "set (started p) \<subseteq> set (received (task_queue p))"
    using subseq_drop_last [OF o] by (rule subseq_set)
  then show "set (started p) \<subseteq> {..<length (cores p)}"
    using sent_distinct(2) [OF addr inv] s by auto
qed

end
