(* ===== verification/PoolResult.thy ===== *)
theory PoolResult
  imports Pool
begin

text \<open>
  What both managers need to say where a result comes from: the outcomes that a task's own future
  or its cancellation explains, the values of the oneshots, the handles, and the messages and
  clones of the notifier.
\<close>

section \<open>Explanations\<close>

text \<open>\<open>c\<close>: a cancellation of the task has been requested.\<close>

definition explains :: "'r managed_task \<Rightarrow> bool \<Rightarrow> 'r task_result \<Rightarrow> bool" where
  "explains t c res \<longleftrightarrow>
     (case res of
        Inr v \<Rightarrow> \<exists>k. mt_future t k = Ready v
      | Inl e \<Rightarrow> e = TaskCancelled \<and> c \<or> e = TaskPanicked \<and> (\<exists>k. mt_future t k = Panics))"

lemma explains_mono: "explains t c res \<Longrightarrow> (c \<Longrightarrow> c') \<Longrightarrow> explains t c' res"
  by (auto simp: explains_def split: sum.splits)

lemma explains_cancelled: "c \<Longrightarrow> explains t c (Inl TaskCancelled)"
  by (simp add: explains_def)

lemma explains_ready: "catch_unwind (mt_future t k) = Some x \<Longrightarrow> explains t c (ready_outcome c x)"
  by (cases "(c, x)" rule: ready_outcome.cases) (auto simp: explains_def catch_unwind_iffs)

lemma explains_status:
  "explains t c res \<Longrightarrow>
     status_from res = Success \<and> (\<exists>v k. mt_future t k = Ready v) \<or>
     status_from res = Panicked \<and> (\<exists>k. mt_future t k = Panics) \<or> status_from res = Cancelled \<and> c"
  by (auto simp: explains_def split: sum.splits)

section \<open>The values of the oneshots\<close>

abbreviation result_value ::
  "('r, 'n, 's, 'q, 'c, 'o, 'h) env \<Rightarrow> ('r, 'n, 's, 'c, 'o, 'h, 'z) pool_base_scheme \<Rightarrow> core_ref \<Rightarrow> 'r task_result option" where
  "result_value E p r \<equiv> os_value (o_ops E) (oneshots p ! r)"

text \<open>Every value of \<open>ys\<close> was there in \<open>xs\<close>, which may be shorter.\<close>

definition values_kept :: "('r, 'n, 's, 'q, 'c, 'o, 'h) env \<Rightarrow> 'o list \<Rightarrow> 'o list \<Rightarrow> bool" where
  "values_kept E xs ys \<longleftrightarrow>
     (\<forall>r < length ys. \<forall>v. os_value (o_ops E) (ys ! r) = Some v \<longrightarrow>
        r < length xs \<and> os_value (o_ops E) (xs ! r) = Some v)"

lemma values_kept_refl [simp]: "values_kept E xs xs"
  by (simp add: values_kept_def)

lemma values_kept_trans: "values_kept E xs ys \<Longrightarrow> values_kept E ys zs \<Longrightarrow> values_kept E xs zs"
  by (auto simp: values_kept_def)

lemma values_kept_update:
  "os_value (o_ops E) y = os_value (o_ops E) (xs ! i) \<Longrightarrow> values_kept E xs (xs[i := y])"
  by (auto simp: values_kept_def nth_upd)

lemma values_kept_new:
  "oneshot_laws (o_ops E) \<Longrightarrow> values_kept E xs (xs @ [os_new (o_ops E)])"
  by (auto simp: values_kept_def nth_append os_new_value less_Suc_eq split: if_splits)

lemma values_kept_discard: "oneshot_laws (o_ops E) \<Longrightarrow> values_kept E xs (discard_oneshot E r xs)"
  unfolding discard_oneshot_def
  by (rule values_kept_update) (simp add: os_drop_rx_value os_drop_tx_value)

lemma values_kept_drop_senders: "oneshot_laws (o_ops E) \<Longrightarrow> values_kept E xs (drop_senders E rs xs)"
proof (induction rs arbitrary: xs)
  case (Cons r rs)
  have "values_kept E xs (xs[r := os_drop_tx (o_ops E) (xs ! r)])"
    by (rule values_kept_update) (simp add: os_drop_tx_value Cons.prems)
  from values_kept_trans [OF this Cons.IH [OF Cons.prems]] show ?case by simp
qed simp

text \<open>A value sent over a oneshot is kept, if at all, as it is.\<close>

lemma send_value:
  assumes "oneshot_laws O1" "os_value O1 (snd (os_send O1 v c)) = Some w"
  shows "w = v \<or> os_value O1 c = Some w"
proof -
  obtain b c' where "os_send O1 v c = (b, c')" by (cases "os_send O1 v c")
  with assms os_send_True [OF assms(1), of v c c'] os_send_False [OF assms(1), of v c c'] show ?thesis
    by (cases b) auto
qed

section \<open>Settled oneshots\<close>

abbreviation settled :: "('r, 'n, 's, 'q, 'c, 'o, 'h) env \<Rightarrow> ('r, 'n, 's, 'c, 'o, 'h, 'z) pool_base_scheme \<Rightarrow>
    core_ref \<Rightarrow> bool" where
  "settled E p r \<equiv> os_settled (o_ops E) (oneshots p ! r)"

text \<open>What was settled stays settled, and \<open>R\<close> is settled afterwards.\<close>

definition settles :: "('r, 'n, 's, 'q, 'c, 'o, 'h) env \<Rightarrow> core_ref set \<Rightarrow> 'o list \<Rightarrow> 'o list \<Rightarrow> bool" where
  "settles E R xs ys \<longleftrightarrow>
     length xs \<le> length ys \<and>
     (\<forall>r < length xs. os_settled (o_ops E) (xs ! r) \<or> r \<in> R \<longrightarrow> os_settled (o_ops E) (ys ! r))"

lemma settles_refl [simp]: "settles E {} xs xs"
  by (simp add: settles_def)

lemma settles_mono: "settles E R xs ys \<Longrightarrow> Q \<subseteq> R \<Longrightarrow> settles E Q xs ys"
  by (auto simp: settles_def)

lemma settles_update:
  "(os_settled (o_ops E) (xs ! i) \<Longrightarrow> os_settled (o_ops E) y) \<Longrightarrow> settles E {} xs (xs[i := y])"
  by (auto simp: settles_def nth_upd)

lemma settles_set: "os_settled (o_ops E) y \<Longrightarrow> settles E {i} xs (xs[i := y])"
  by (auto simp: settles_def nth_upd)

lemma settles_new: "settles E {} xs (xs @ [x])"
  by (auto simp: settles_def nth_append)

lemma settles_send:
  "oneshot_resolves (o_ops E) \<Longrightarrow> settles E {r} xs (xs[r := snd (os_send (o_ops E) v (xs ! r))])"
  by (rule settles_set) (rule os_send_settles)

lemma settles_discard: "oneshot_resolves (o_ops E) \<Longrightarrow> settles E {r} xs (discard_oneshot E r xs)"
  unfolding discard_oneshot_def
  by (rule settles_set) (simp add: os_drop_rx_settled os_drop_tx_settles)

lemma settles_drop_senders: "oneshot_resolves (o_ops E) \<Longrightarrow> settles E (set rs) xs (drop_senders E rs xs)"
proof (induction rs arbitrary: xs)
  case (Cons r rs)
  let ?ys = "xs[r := os_drop_tx (o_ops E) (xs ! r)]"
  have "settles E {r} xs ?ys" by (rule settles_set) (rule os_drop_tx_settles [OF Cons.prems])
  with Cons.IH [OF Cons.prems, of ?ys] show ?case by (auto simp: settles_def)
qed simp

section \<open>Handles\<close>

definition closed_error :: "('r, 'n, 's, 'q, 'c, 'o, 'h) env \<Rightarrow> ('r, 'n, 's, 'c, 'o, 'h, 'z) pool_base_scheme \<Rightarrow>
    core_ref \<Rightarrow> 'r task_result" where
  "closed_error E p r =
     Inl (ResultChannelError (channel_closed_message (task_id (cores p ! r)) (recv_error_text E)))"

text \<open>
  A handle whose result, if it has one, is explained or the error \<open>e\<close>, and which still has
  its receiver unless it polls it or was detached.
\<close>

definition handle_ok :: "('r task_result \<Rightarrow> bool) \<Rightarrow> 'r task_result \<Rightarrow> 'r handle_slot \<Rightarrow> bool" where
  "handle_ok X e h \<longleftrightarrow>
     (\<forall>res. hs_result h = Some res \<longrightarrow> X res \<or> res = e) \<and>
     (hs_polling h \<or> is_detached (hs_handle h) \<or> result_receiver (hs_handle h))"

lemma handle_ok_weaken: "handle_ok X e h \<Longrightarrow> (\<And>res. X res \<Longrightarrow> Y res) \<Longrightarrow> handle_ok Y e h"
  by (auto simp: handle_ok_def)

lemma handle_ok_new [simp]: "handle_ok X e \<lparr>hs_handle = handle_new r, hs_polling = False, hs_result = None\<rparr>"
  by (simp add: handle_ok_def handle_new_def)

lemma await_step_handle:
  assumes O1: "oneshot_laws (o_ops E)" and st: "await_step E r (hs_handle (handles p ! r)) p = Some q"
    and c: "th_core (hs_handle (handles p ! r)) = r" and ok: "handle_ok X (closed_error E p r) (handles p ! r)"
    and v: "\<And>v. result_value E p r = Some v \<Longrightarrow> X v"
  obtains h where "r < length (handles p)" "handles q = (handles p)[r := h]" "handle_ok X (closed_error E p r) h"
    "th_core (hs_handle h) = r"
proof -
  let ?h = "handles p ! r"
  have r: "r < length (handles p)" and g: "hs_result ?h = None" "\<not> is_detached (hs_handle ?h)"
    using st by (auto simp: await_step_def split: if_splits)
  show ?thesis
  proof (cases "hs_polling ?h")
    case True
    obtain x c' where a: "await_poll (o_ops E) (recv_error_text E) (handle_id (cores p) (hs_handle ?h))
        (oneshots p ! r) = (x, c')" by fastforce
    with True st r g have h: "handles q = (handles p)[r := ?h\<lparr>hs_result := x\<rparr>]" by (auto simp: await_step_def)
    have "handle_id (cores p) (hs_handle ?h) = task_id (cores p ! r)" by (simp add: handle_id_def c)
    then have "x = None \<or> x = Some (closed_error E p r) \<or> (\<exists>v. x = Some v \<and> result_value E p r = Some v)"
      using await_poll_cases [OF O1 a] by (simp add: closed_error_def)
    with v True have ok': "handle_ok X (closed_error E p r) (?h\<lparr>hs_result := x\<rparr>)" by (auto simp: handle_ok_def)
    show ?thesis by (rule that [OF r h ok']) (simp add: c)
  next
    case False
    with ok g have "await_begin (hs_handle ?h) = (None :: 'a task_result option, (hs_handle ?h)\<lparr>result_receiver := False\<rparr>)"
      by (auto simp: handle_ok_def await_begin_def)
    with False st r g have "handles q = (handles p)[r :=
        \<lparr>hs_handle = (hs_handle ?h)\<lparr>result_receiver := False\<rparr>, hs_polling = True, hs_result = None\<rparr>]"
      by (auto simp: await_step_def)
    with that r c show ?thesis by (simp add: handle_ok_def)
  qed
qed

lemma detach_step_handle:
  assumes st: "detach_step E r (hs_handle (handles p ! r)) p = Some q" and ok: "handle_ok X e (handles p ! r)"
  obtains h where "r < length (handles p)" "handles q = (handles p)[r := h]" "handle_ok X e h"
    "th_core (hs_handle h) = th_core (hs_handle (handles p ! r))"
proof -
  let ?h = "handles p ! r"
  obtain t' c where d: "handle_detach (o_ops E) (hs_handle ?h) (oneshots p ! r) = (t', c)" by fastforce
  then have "is_detached t'" "th_core t' = th_core (hs_handle ?h)" by (auto simp: handle_detach_def)
  moreover have "r < length (handles p)" "handles q = (handles p)[r := ?h\<lparr>hs_handle := t'\<rparr>]"
    using st d by (auto simp: detach_step_def split: if_splits)
  ultimately show ?thesis using that ok by (auto simp: handle_ok_def)
qed

lemma await_step_values:
  assumes O1: "oneshot_laws (o_ops E)" and st: "await_step E r t p = Some q"
  shows "values_kept E (oneshots p) (oneshots q)"
proof -
  obtain x c where a: "await_poll (o_ops E) (recv_error_text E) (handle_id (cores p) t) (oneshots p ! r) = (x, c)"
    by fastforce
  from await_poll_cases [OF O1 a] have "values_kept E (oneshots p) ((oneshots p)[r := c])"
    by (intro values_kept_update) blast
  with st a show ?thesis by (auto simp: await_step_def split: if_splits prod.splits)
qed

lemma detach_step_values:
  assumes O1: "oneshot_laws (o_ops E)" and st: "detach_step E r t p = Some q"
  shows "values_kept E (oneshots p) (oneshots q)"
proof -
  have "values_kept E (oneshots p) ((oneshots p)[r := snd (handle_detach (o_ops E) t (oneshots p ! r))])"
    by (rule values_kept_update) (simp add: handle_detach_value [OF O1])
  with st show ?thesis by (auto simp: detach_step_def Let_def case_prod_beta split: if_splits)
qed

lemma await_step_settles:
  assumes R: "oneshot_resolves (o_ops E)" and st: "await_step E r t p = Some q"
  shows "settles E {} (oneshots p) (oneshots q)"
proof -
  obtain x c where a: "await_poll (o_ops E) (recv_error_text E) (handle_id (cores p) t) (oneshots p ! r) = (x, c)"
    by fastforce
  then have "c = snd (os_recv (o_ops E) (oneshots p ! r))"
    by (auto simp: await_poll_def split: prod.splits recv.splits)
  then have "settles E {} (oneshots p) ((oneshots p)[r := c])"
    by (intro settles_update) (simp add: os_recv_settled [OF R])
  with st a show ?thesis by (auto simp: await_step_def split: if_splits prod.splits)
qed

lemma detach_step_settles:
  assumes R: "oneshot_resolves (o_ops E)" and st: "detach_step E r t p = Some q"
  shows "settles E {} (oneshots p) (oneshots q)"
proof -
  have "settles E {} (oneshots p) ((oneshots p)[r := snd (handle_detach (o_ops E) t (oneshots p ! r))])"
    by (rule settles_update) (simp add: handle_detach_def os_drop_rx_settled [OF R])
  with st show ?thesis by (auto simp: detach_step_def Let_def case_prod_beta split: if_splits)
qed

text \<open>Once the oneshot is settled, the handle's own steps bring a result, at most two of them.\<close>

lemma await_step_settled:
  assumes r: "r < length (handles p)" and s: "settled E p r" and h: "hs_polling (handles p ! r)"
    "hs_result (handles p ! r) = None" "\<not> is_detached t"
  obtains q where "await_step E r t p = Some q" "hs_result (handles q ! r) \<noteq> None"
proof -
  obtain x c where a: "await_poll (o_ops E) (recv_error_text E) (handle_id (cores p) t) (oneshots p ! r) = (x, c)"
    by fastforce
  with s have "x \<noteq> None" by (auto simp: await_poll_def os_settled_def split: prod.splits recv.splits)
  with a r h that show ?thesis by (auto simp: await_step_def)
qed

lemma await_step_begins:
  assumes "r < length (handles p)" "\<not> hs_polling (handles p ! r)" "hs_result (handles p ! r) = None"
    "\<not> is_detached t"
  obtains h where "await_step E r t p = Some (p\<lparr>handles := (handles p)[r := h]\<rparr>)"
    "hs_result h \<noteq> None \<or> hs_polling h \<and> hs_result h = None \<and> \<not> is_detached (hs_handle h)"
  using assms by (cases "result_receiver t") (auto simp: await_step_def await_begin_def)

lemma await_arrives:
  assumes r: "r < length (handles p)" and s: "settled E p r" and h: "\<not> is_detached t" "hs_result (handles p ! r) = None"
  obtains (once) q where "await_step E r t p = Some q" "hs_result (handles q ! r) \<noteq> None"
    | (twice) x q where "await_step E r t p = Some (p\<lparr>handles := (handles p)[r := x]\<rparr>)"
        "await_step E r (hs_handle x) (p\<lparr>handles := (handles p)[r := x]\<rparr>) = Some q" "hs_result (handles q ! r) \<noteq> None"
proof (cases "hs_polling (handles p ! r)")
  case True
  then show ?thesis by (rule await_step_settled [OF r s _ h(2,1)]) (rule once)
next
  case False
  obtain x where b: "await_step E r t p = Some (p\<lparr>handles := (handles p)[r := x]\<rparr>)"
    and x: "hs_result x \<noteq> None \<or> hs_polling x \<and> hs_result x = None \<and> \<not> is_detached (hs_handle x)"
    by (rule await_step_begins [OF r False h(2,1)])
  let ?p = "p\<lparr>handles := (handles p)[r := x]\<rparr>"
  show ?thesis
  proof (cases "hs_result x")
    case (Some _)
    with r show ?thesis by (intro once [OF b]) simp
  next
    case None
    with x r s have y: "r < length (handles ?p)" "settled E ?p r" "hs_polling (handles ?p ! r)"
      "hs_result (handles ?p ! r) = None" "\<not> is_detached (hs_handle x)" by simp_all
    show ?thesis by (rule await_step_settled [OF y]) (rule twice [OF b])
  qed
qed

section \<open>The notifier\<close>

lemma sink_sender_clones [simp]:
  "clones (snd (sink_sender K n)) = clones n + of_bool (fst (sink_sender K n))"
  by (simp add: sink_sender_def)

lemma notifier_op_clones [simp]:
  "clones (sink_close K n) = clones n" "clones (ensure_worker_initialized K n) = clones n"
  "clones (send_completion K m n) = clones n - 1" "clones (snd (take_join_handle n)) = clones n"
  by (simp_all add: sink_close_def ensure_worker_initialized_def send_completion_def take_join_handle_def
      Let_def split: option.splits prod.splits)

lemma notifier_op_posted [simp]:
  "posted (sink_close K n) = posted n" "posted (ensure_worker_initialized K n) = posted n"
  "posted (snd (sink_sender K n)) = posted n" "posted (snd (take_join_handle n)) = posted n"
  by (simp_all add: sink_close_def ensure_worker_initialized_def sink_sender_def take_join_handle_def
      split: option.splits)

lemma notifier_worker_clones:
  "notifier_worker_step K P look sd now n = Some n' \<Longrightarrow> clones n' = clones n \<and> posted n' = posted n"
  by (auto simp: notifier_worker_step_def Let_def split: notifier_pc.splits list.splits prod.splits recv.splits)

lemma push_handler_clones:
  "push_handler h n = Some n' \<Longrightarrow> clones n' = clones n \<and> posted n' = posted n"
  by (auto simp: push_handler_def split: notifier_pc.splits if_splits)

lemma run_clones:
  assumes "run (notifier_step K P) es n = Some n'"
    and "set es \<subseteq> {EnsureWorker, CloseSink, TakeJoinHandle} \<union> range PushHandler \<union>
       {WorkerStep l s t |l s t. True}"
  shows "clones n' = clones n \<and> posted n' = posted n"
  using assms
proof (induction es arbitrary: n)
  case Nil
  then show ?case by simp
next
  case (Cons e es)
  then obtain m where m: "notifier_step K P e n = Some m" "run (notifier_step K P) es m = Some n'"
    by (auto split: option.splits)
  have "clones m = clones n \<and> posted m = posted n"
    using m(1) Cons.prems(2) by (auto dest: notifier_worker_clones push_handler_clones)
  with Cons.IH [OF m(2)] Cons.prems(2) show ?case by simp
qed

lemma send_completion_posted:
  "posted (send_completion K m n) = posted n \<or> posted (send_completion K m n) = posted n @ [m]"
  by (auto simp: send_completion_def Let_def split: prod.splits)

section \<open>Completions\<close>

text \<open>The message that reports the outcome \<open>res\<close> of task \<open>r\<close>, and whether there is a sender to clone.\<close>

definition completion_of :: "('r, 'n, 's, 'c, 'o, 'h, 'z) pool_base_scheme \<Rightarrow> core_ref \<Rightarrow> 'r task_result \<Rightarrow>
    internal_completion_message" where
  "completion_of p r res = \<lparr>cm_pool_name = pool_name p, cm_core = r, cm_status = status_from res\<rparr>"

definition sink_open :: "('r, 'n, 's, 'c, 'o, 'h, 'z) pool_base_scheme \<Rightarrow> bool" where
  "sink_open p \<longleftrightarrow> sink (completion_notifier p) = Some True"

lemma sink_sender_open: "fst (sink_sender K (completion_notifier p)) = sink_open p"
  by (simp add: sink_sender_def sink_open_def)

end
