(* ===== verification/ManagerNotes.thy ===== *)
theory ManagerNotes
  imports ManagerOrder PoolResult
begin

text \<open>
  The completion notifier inside the strict pool: the clones of the sender are those held by
  the running tasks and the worker loop, and the notifier's machine is a component of the pool's.
\<close>

section \<open>Clones of the sender\<close>

definition task_clone :: "'r spawned_task \<Rightarrow> bool" where
  "task_clone t \<longleftrightarrow> st_notify t \<and> st_pc t \<noteq> TRelease \<and> st_pc t \<noteq> TRemove \<and> st_pc t \<noteq> TDone"

fun worker_clone :: "'r dispatcher_pc \<Rightarrow> bool" where
  "worker_clone (DNotify _) = True"
| "worker_clone _ = False"

definition clones_inv :: "('r, 'n, 's, 'q, 'c, 'o, 'h) pool \<Rightarrow> bool" where
  "clones_inv p \<longleftrightarrow>
     clones (completion_notifier p) = count_if task_clone (tasks p) + of_bool (worker_clone (dispatcher p)) \<and>
     (\<forall>i < length (tasks p). \<forall>s. st_pc (tasks p ! i) = TNotify s \<longrightarrow> st_notify (tasks p ! i))"

lemma release_sink_notifier:
  "completion_notifier (release_sink E p) =
     (if shutdown_guard p = 0 \<and> dispatcher p = DStopped
      then sink_close (c_ops E) (completion_notifier p) else completion_notifier p)"
  by (simp add: release_sink_def)

text \<open>The notifier's part of every step that does not belong to a task or the worker loop.\<close>

definition notifier_calls :: "('r, 'n, 's, 'q, 'c, 'o, 'h) env \<Rightarrow> ('r, 'h) pool_event \<Rightarrow>
    ('r, 'n, 's, 'q, 'c, 'o, 'h) pool \<Rightarrow> 'h notifier_event list" where
  "notifier_calls E e p =
     (case e of
        AddHandlerInit \<Rightarrow> [EnsureWorker]
      | AddHandlerPush h \<Rightarrow> [PushHandler h]
      | StepNotifier now \<Rightarrow> [WorkerStep (look_core p) (shutting_down p) now]
      | StepShutdown i \<Rightarrow>
          (case shutdowns p ! i of HSink a \<Rightarrow> if a then [] else [CloseSink]
           | HTakeNotifier \<Rightarrow> [TakeJoinHandle] | _ \<Rightarrow> [])
      | StepDrop i \<Rightarrow>
          (case drops p ! i of DropSink \<Rightarrow> [CloseSink]
           | DropRelease \<Rightarrow> if shutdown_guard p \<le> 1 \<and> dispatcher p = DStopped then [CloseSink] else []
           | _ \<Rightarrow> [])
      | _ \<Rightarrow> [])"

lemma outside_notifier:
  assumes "pool_step E e p = Some q" "outside e"
  shows "run (notifier_step (c_ops E) (handler_panics E)) (notifier_calls E e p) (completion_notifier p) =
    Some (completion_notifier q)"
proof (cases e)
  case (StepShutdown i)
  then have "shutdown_step E i p = Some q" using assms by simp
  then show ?thesis unfolding StepShutdown
    by (auto simp: notifier_calls_def shutdown_step_def Let_def
        split: if_splits shutdown_pc.splits list.splits prod.splits)
next
  case (StepDrop i)
  then have "drop_step E i p = Some q" using assms by simp
  then show ?thesis unfolding StepDrop
    by (auto simp: notifier_calls_def drop_step_def Let_def release_sink_notifier
        split: if_splits drop_pc.splits)
next
  case (TimeoutShutdown i)
  then show ?thesis using assms shutdown_timeout_frame [of i p q] by (auto simp: notifier_calls_def)
next
  case (StepSubmit r)
  then have "step_send E r p = Some q" using assms by simp
  then obtain k os where "q = p\<lparr>task_queue := k, oneshots := os\<rparr>" by (rule step_send_cases)
  then show ?thesis by (simp add: StepSubmit notifier_calls_def)
qed (use assms in \<open>auto simp: notifier_calls_def pool_op_defs outside_def Let_def
      split: if_splits option.splits sum.splits prod.splits\<close>)

lemma notifier_calls_kind:
  "set (notifier_calls E e p) \<subseteq> {EnsureWorker, CloseSink, TakeJoinHandle} \<union> range PushHandler \<union>
     {WorkerStep l s t |l s t. True}"
  by (auto simp: notifier_calls_def split: pool_event.splits shutdown_pc.splits drop_pc.splits if_splits)

text \<open>The steps of the worker loop that touch the sink, and all the others.\<close>

lemma dispatcher_notifier:
  assumes "dispatcher_step E p = Some q"
  obtains (quiet) "\<forall>t. dispatcher p \<noteq> DCancelled t" "\<forall>t. dispatcher p \<noteq> DNotify t"
      "\<forall>t s. dispatcher p \<noteq> DSpawn t s" "tasks q = tasks p" "\<not> worker_clone (dispatcher q)"
      "completion_notifier q = completion_notifier p \<or>
       completion_notifier q = sink_close (c_ops E) (completion_notifier p)"
    | (sender) t b n where "dispatcher p = DCancelled t"
        "sink_sender (c_ops E) (completion_notifier p) = (b, n)"
        "q = p\<lparr>completion_notifier := n, dispatcher := (if b then DNotify t else DNext)\<rparr>"
    | (notify) t where "dispatcher p = DNotify t" "q = dispatch_notify E t p"
    | (spawn) t s where "dispatcher p = DSpawn t s" "q = dispatch_spawn E t s p"
  using assms
  by (cases "dispatcher p") (auto simp: dispatcher_step_def dispatch_cancelled_def dispatch_insert_def
      Let_def release_sink_notifier split: prod.splits recv.splits if_splits sum.splits)

lemma dispatch_notify_frame [simp]:
  "completion_notifier (dispatch_notify E t p) = send_completion (c_ops E)
     \<lparr>cm_pool_name = pool_name p, cm_core = mt_core t, cm_status = Cancelled\<rparr> (completion_notifier p)"
  "dispatcher (dispatch_notify E t p) = DNext" "tasks (dispatch_notify E t p) = tasks p"
  "task_queue (dispatch_notify E t p) = task_queue p" "oneshots (dispatch_notify E t p) = oneshots p"
  by (simp_all add: dispatch_notify_def)

lemma dispatcher_step_clones:
  assumes inv: "clones_inv p" and st: "dispatcher_step E p = Some q"
  shows "clones_inv q"
  using st
proof (cases rule: dispatcher_notifier)
  case quiet
  then have "\<not> worker_clone (dispatcher p)" by (cases "dispatcher p") auto
  with quiet inv show ?thesis by (auto simp: clones_inv_def)
next
  case (sender t b n)
  then show ?thesis using inv by (auto simp: clones_inv_def sink_sender_def split: if_splits)
next
  case (notify t)
  then show ?thesis using inv by (auto simp: clones_inv_def)
next
  case (spawn t s)
  then show ?thesis
    by (cases rule: dispatch_spawn_cases [of E p t s])
      (use inv in \<open>auto simp: spawn clones_inv_def task_clone_def nth_append\<close>)
qed

lemma task_step_notifier:
  assumes "task_step E i p = Some q"
  shows "completion_notifier q =
    (case st_pc (tasks p ! i) of
       TNotify s \<Rightarrow> send_completion (c_ops E) \<lparr>cm_pool_name = pool_name p,
          cm_core = mt_core (st_task (tasks p ! i)), cm_status = s\<rparr> (completion_notifier p)
     | _ \<Rightarrow> completion_notifier p)"
  using assms by (auto simp: task_step_def Let_def split: if_splits task_pc.splits option.splits)

lemma task_step_clone:
  assumes "task_step E i p = Some q" "\<forall>s. st_pc (tasks p ! i) = TNotify s \<longrightarrow> st_notify (tasks p ! i)"
  obtains t where "i < length (tasks p)" "tasks q = (tasks p)[i := t]"
    "\<forall>s. st_pc t = TNotify s \<longrightarrow> st_notify t"
    "task_clone (tasks p ! i) \<longleftrightarrow> task_clone t \<or> (\<exists>s. st_pc (tasks p ! i) = TNotify s)"
    "\<forall>s. st_pc (tasks p ! i) = TNotify s \<longrightarrow> \<not> task_clone t"
  using assms
  by (auto simp: task_step_def Let_def task_clone_def split: if_splits task_pc.splits option.splits)

lemma task_step_clones:
  assumes inv: "clones_inv p" and st: "task_step E i p = Some q"
  shows "clones_inv q"
proof -
  have i: "i < length (tasks p)" using st by (auto simp: task_step_def split: if_splits)
  with inv have "\<forall>s. st_pc (tasks p ! i) = TNotify s \<longrightarrow> st_notify (tasks p ! i)"
    by (simp add: clones_inv_def)
  with st show ?thesis
  proof (cases rule: task_step_clone)
    case (1 t)
    have d: "dispatcher q = dispatcher p" using task_step_frame [OF st] by blast
    have "clones (completion_notifier q) =
        count_if task_clone (tasks q) + of_bool (worker_clone (dispatcher q))"
      using inv task_step_notifier [OF st] count_if_update [OF 1(1), of task_clone t] 1(4,5)
      by (cases "st_pc (tasks p ! i)") (auto simp: clones_inv_def 1(2) d)
    with inv 1(2,3) show ?thesis by (auto simp: clones_inv_def nth_upd)
  qed
qed

lemma clones_step:
  assumes inv: "clones_inv p" and st: "pool_step E e p = Some q"
  shows "clones_inv q"
proof (cases "outside e")
  case True
  have "clones (completion_notifier q) = clones (completion_notifier p)"
    using run_clones [OF outside_notifier [OF st True] notifier_calls_kind] by blast
  with outside_frame [OF st True] inv show ?thesis by (simp add: clones_inv_def)
next
  case False
  then consider "e = StepDispatcher" | i where "e = StepTask i" by (auto simp: outside_def)
  then show ?thesis
    using st dispatcher_step_clones [OF inv] task_step_clones [OF inv] by cases auto
qed

interpretation clones: invariant "\<lambda>p. p = pool_new E limit cap name" "pool_step E" clones_inv
  for E limit cap name
proof unfold_locales
  show "p = pool_new E limit cap name \<Longrightarrow> clones_inv p" for p
    by (simp add: clones_inv_def pool_new_def notifier_new_def)
qed (rule clones_step)

lemma pool_clones: "pool_reach E limit cap name p \<Longrightarrow> clones_inv p"
  using clones.reach_inv by blast

section \<open>The notifier as a component\<close>

lemma task_notify_pos:
  assumes "clones_inv p" "i < length (tasks p)" "st_pc (tasks p ! i) = TNotify s"
  shows "0 < clones (completion_notifier p)"
proof -
  have "task_clone (tasks p ! i)" using assms by (simp add: clones_inv_def task_clone_def)
  with assms(1) count_if_pos [OF assms(2), of task_clone] show ?thesis by (simp add: clones_inv_def)
qed

text \<open>The notifier's part of every step.\<close>

definition notifier_part :: "('r, 'n, 's, 'q, 'c, 'o, 'h) env \<Rightarrow> ('r, 'h) pool_event \<Rightarrow>
    ('r, 'n, 's, 'q, 'c, 'o, 'h) pool \<Rightarrow> 'h notifier_event list" where
  "notifier_part E e p =
     (let msg = (\<lambda>r s. SendCompletion \<lparr>cm_pool_name = pool_name p, cm_core = r, cm_status = s\<rparr>) in
      case e of
        StepTask i \<Rightarrow>
          (case st_pc (tasks p ! i) of TNotify s \<Rightarrow> [msg (mt_core (st_task (tasks p ! i))) s] | _ \<Rightarrow> [])
      | StepDispatcher \<Rightarrow>
          (case dispatcher p of
             DCancelled t \<Rightarrow> [TakeSender]
           | DNotify t \<Rightarrow> [msg (mt_core t) Cancelled]
           | DSpawn t s \<Rightarrow> [TakeSender]
           | DExit \<Rightarrow> if shutdown_guard p = 0 then [CloseSink] else []
           | _ \<Rightarrow> [])
      | _ \<Rightarrow> notifier_calls E e p)"

lemma dispatcher_notifier_part:
  assumes inv: "clones_inv p" and st: "dispatcher_step E p = Some q"
  shows "run (notifier_step (c_ops E) P) (notifier_part E StepDispatcher p) (completion_notifier p) =
    Some (completion_notifier q)"
proof (cases "dispatcher p")
  case (DCancelled t)
  with st show ?thesis
    by (auto simp: dispatcher_step_def notifier_part_def split: prod.splits)
next
  case (DNotify t)
  with inv have "0 < clones (completion_notifier p)" by (simp add: clones_inv_def)
  with DNotify st show ?thesis by (auto simp: dispatcher_step_def notifier_part_def Let_def)
next
  case (DSpawn t s)
  with st show ?thesis
    by (auto simp: dispatcher_step_def dispatch_spawn_def notifier_part_def split: prod.splits)
next
  case DExit
  with st show ?thesis
    by (auto simp: dispatcher_step_def notifier_part_def release_sink_notifier split: prod.splits)
qed (use st in \<open>auto simp: dispatcher_step_def dispatch_cancelled_def dispatch_insert_def notifier_part_def Let_def
      split: prod.splits recv.splits if_splits sum.splits\<close>)

lemma pool_notifier_step:
  assumes inv: "clones_inv p" and st: "pool_step E e p = Some q"
  shows "run (notifier_step (c_ops E) (handler_panics E)) (notifier_part E e p) (completion_notifier p) =
    Some (completion_notifier q)"
proof (cases "outside e")
  case True
  then have "notifier_part E e p = notifier_calls E e p"
    by (auto simp: notifier_part_def outside_def split: pool_event.splits)
  with outside_notifier [OF st True] show ?thesis by simp
next
  case False
  then consider "e = StepDispatcher" | i where "e = StepTask i" by (auto simp: outside_def)
  then show ?thesis
  proof cases
    case 1
    then show ?thesis using st dispatcher_notifier_part [OF inv] by simp
  next
    case (2 i)
    then have t: "task_step E i p = Some q" using st by simp
    then have "i < length (tasks p)" by (auto simp: task_step_def split: if_splits)
    with task_step_notifier [OF t] task_notify_pos [OF inv] show ?thesis
      by (cases "st_pc (tasks p ! i)") (auto simp: 2 notifier_part_def)
  qed
qed

interpretation pool_notes: component "\<lambda>p. p = pool_new E limit cap name" "pool_step E"
    completion_notifier "\<lambda>n. n = notifier_new (c_ops E)" "notifier_step (c_ops E) (handler_panics E)"
  for E limit cap name
proof unfold_locales
  show "p = pool_new E limit cap name \<Longrightarrow> completion_notifier p = notifier_new (c_ops E)" for p
    by (simp add: pool_new_def)
  show "pool_reach E limit cap name p \<Longrightarrow> pool_step E e p = Some q \<Longrightarrow>
      \<exists>fs. run (notifier_step (c_ops E) (handler_panics E)) fs (completion_notifier p) =
        Some (completion_notifier q)" for p e q
    using pool_notifier_step pool_clones by blast
qed

lemmas pool_notifier_reach = pool_notes.reach_proj

end
