(* ===== verification/ManagerResult.thy ===== *)
theory ManagerResult
  imports ManagerNotes
begin

text \<open>
  Where results and completion messages come from: every result in a oneshot, every message
  posted and every outcome an awaiting caller gets is explained by the task's own future or by
  a cancellation of the task.
\<close>

section \<open>What never changes\<close>

definition submission :: "('r, 'n, 's, 'q, 'c, 'o, 'h) pool \<Rightarrow> core_ref \<Rightarrow> 'r managed_task" where
  "submission p r = fst (sends (task_queue p) ! r)"

definition same_or_more :: "'a list \<Rightarrow> 'a list \<Rightarrow> bool" where
  "same_or_more xs ys \<longleftrightarrow> ys = xs \<or> (\<exists>y. ys = xs @ [y])"

lemma same_or_more_refl [simp]: "same_or_more xs xs"
  by (simp add: same_or_more_def)

lemma same_or_more_snoc [simp]: "same_or_more xs (xs @ [y])"
  by (simp add: same_or_more_def)

lemma queue_step_submissions:
  assumes C: "chan_laws C" and S: "sem_laws S" and st: "queue_step C S e q = Some q2"
  shows "same_or_more (map fst (sends q)) (map fst (sends q2))"
proof (cases e)
  case (BeginSend t)
  with st show ?thesis by auto
next
  case (StepSend sd w)
  with st queue_step_send_targets [OF C S, of sd w q q2] show ?thesis by simp
next
  case (AbandonSend w)
  with st queue_abandon_targets [of S w q q2] show ?thesis by simp
next
  case Recv
  then show ?thesis using st queue_recv_tasks [OF C, of S q "fst (queue_recv C S q)" q2] by auto
next
  case DropConsumer
  then show ?thesis
    using st queue_drop_consumer_tasks(2) [OF C, of S q "fst (queue_drop_consumer C S q)" q2] by auto
qed (use st in auto)

lemma queue_run_submissions:
  assumes C: "chan_laws C" and S: "sem_laws S"
  shows "run (queue_step C S) es q = Some q2 \<Longrightarrow> prefix (map fst (sends q)) (map fst (sends q2))"
proof (induction es arbitrary: q)
  case Nil
  then show ?case by simp
next
  case (Cons e es)
  then obtain m where m: "queue_step C S e q = Some m" "run (queue_step C S) es m = Some q2"
    by (auto split: option.splits)
  have "prefix (map fst (sends q)) (map fst (sends m))"
    using queue_step_submissions [OF C S m(1)] by (auto simp: same_or_more_def)
  from this Cons.IH [OF m(2)] show ?case by (rule prefix_order.trans)
qed

lemma pool_step_submissions:
  assumes L: "lawful E" and st: "pool_step E e p = Some q"
  shows "prefix (map fst (sends (task_queue p))) (map fst (sends (task_queue q)))"
  using pool_queue_step [OF st] queue_run_submissions L unfolding lawful_def by blast

lemma prefix_image: "prefix xs ys \<Longrightarrow> set xs \<subseteq> set ys"
  by (auto simp: prefix_def)

lemma prefix_nth_eq: "prefix xs ys \<Longrightarrow> i < length xs \<Longrightarrow> ys ! i = xs ! i"
  by (auto simp: prefix_def nth_append)

text \<open>The heap of cores: it grows, ids and labels stay, cancellations stay.\<close>

definition cores_le :: "('r, 'n, 's, 'q, 'c, 'o, 'h) pool \<Rightarrow> ('r, 'n, 's, 'q, 'c, 'o, 'h) pool \<Rightarrow> bool" where
  "cores_le p q \<longleftrightarrow>
     length (cores p) \<le> length (cores q) \<and>
     (\<forall>r < length (cores p).
        task_id (cores q ! r) = task_id (cores p ! r) \<and> labels (cores q ! r) = labels (cores p ! r) \<and>
        (core_cancelled p r \<longrightarrow> core_cancelled q r))"

lemma cores_le_same: "cores q = cores p \<Longrightarrow> cores_le p q"
  by (simp add: cores_le_def core_cancelled_def)

lemma cores_le_cancel: "cores q = heap_cancel N r (cores p) \<Longrightarrow> cores_le p q"
  by (auto simp: cores_le_def core_cancelled_def)

lemma cores_le_cancel_all: "cores q = cancel_all N rs (cores p) \<Longrightarrow> cores_le p q"
  by (auto simp: cores_le_def core_cancelled_def)

lemma cores_le_new: "cores q = cores p @ [c] \<Longrightarrow> cores_le p q"
  by (auto simp: cores_le_def core_cancelled_def nth_append)

lemmas cores_le_intros = cores_le_same cores_le_cancel cores_le_cancel_all cores_le_new

lemma pool_step_cores:
  assumes "pool_step E e p = Some q"
  shows "cores_le p q"
proof (cases e)
  case (Submit ls f)
  with assms show ?thesis
    by (auto simp: with_manager_def submit_begin_def Let_def split: if_splits intro: cores_le_intros)
next
  case (StepSubmit r)
  then have "step_send E r p = Some q" using assms by simp
  then obtain k os where "q = p\<lparr>task_queue := k, oneshots := os\<rparr>" by (rule step_send_cases)
  then show ?thesis by (simp add: cores_le_same)
next
  case StepDispatcher
  with assms dispatcher_step_frame [of E p q] show ?thesis by (simp add: cores_le_same)
next
  case (StepTask i)
  with assms task_step_frame [of E i p q] show ?thesis by (simp add: cores_le_same)
next
  case (StepShutdown i)
  with assms shutdown_step_frame [of E i p q] show ?thesis
    by (auto intro: cores_le_same cores_le_cancel)
next
  case (TimeoutShutdown i)
  with assms shutdown_timeout_frame [of i p q] show ?thesis by (auto intro: cores_le_same)
next
  case (StepDrop i)
  with assms drop_step_frame [of E i p q] show ?thesis by (simp add: cores_le_same)
qed (use assms in \<open>auto simp: pool_op_defs handle_cancel_def Let_def
      split: if_splits option.splits sum.splits prod.splits intro: cores_le_intros\<close>)

section \<open>Explanations of a result\<close>

definition explained :: "('r, 'n, 's, 'q, 'c, 'o, 'h) pool \<Rightarrow> core_ref \<Rightarrow> 'r task_result \<Rightarrow> bool" where
  "explained p r res \<longleftrightarrow> r < length (cores p) \<and> explains (submission p r) (core_cancelled p r) res"

lemma explained_outcome: "explained p r res \<Longrightarrow> task_outcome res"
  by (auto simp: explained_def explains_def split: sum.splits)

lemma submission_mono:
  assumes "lawful E" "addresses p" "pool_step E e p = Some q" "r < length (cores p)"
  shows "submission q r = submission p r"
proof -
  have len: "length (sends (task_queue p)) = length (cores p)"
    using assms(2) unfolding addresses_def by (metis length_map length_upt minus_nat.diff_0)
  have pre: "prefix (map fst (sends (task_queue p))) (map fst (sends (task_queue q)))"
    by (rule pool_step_submissions [OF assms(1,3)])
  then have "length (sends (task_queue p)) \<le> length (sends (task_queue q))"
    using prefix_length_le [OF pre] by simp
  with prefix_nth_eq [OF pre, of r] assms(4) len show ?thesis by (simp add: submission_def)
qed

lemma explained_mono:
  assumes "lawful E" "addresses p" "pool_step E e p = Some q" "explained p r res"
  shows "explained q r res"
  using assms(4) pool_step_cores [OF assms(3)] submission_mono [OF assms(1-3), of r]
  by (auto simp: explained_def explains_def cores_le_def split: sum.splits)

lemma explained_cong:
  "cores q = cores p \<Longrightarrow> sends (task_queue q) = sends (task_queue p) \<Longrightarrow> explained q r res = explained p r res"
  by (cases res) (simp_all add: explained_def explains_def submission_def core_cancelled_def)

section \<open>Tasks come from submissions\<close>

definition is_submitted :: "('r, 'n, 's, 'q, 'c, 'o, 'h) pool \<Rightarrow> 'r managed_task \<Rightarrow> bool" where
  "is_submitted p t \<longleftrightarrow> t \<in> fst ` set (sends (task_queue p))"

definition source_inv :: "('r, 'n, 's, 'q, 'c, 'o, 'h) pool \<Rightarrow> bool" where
  "source_inv p \<longleftrightarrow>
     (\<forall>t \<in> set (opt_list (worker_task (dispatcher p)) @ map st_task (tasks p)). is_submitted p t)"

lemma source_mono:
  assumes "lawful E" "pool_step E e p = Some q" "source_inv p"
    and "set (opt_list (worker_task (dispatcher q)) @ map st_task (tasks q)) \<subseteq>
         set (opt_list (worker_task (dispatcher p)) @ map st_task (tasks p))"
  shows "source_inv q"
proof -
  have "is_submitted p t \<Longrightarrow> is_submitted q t" for t
    using prefix_image [OF pool_step_submissions [OF assms(1,2)]] by (auto simp: is_submitted_def)
  with assms(3,4) show ?thesis unfolding source_inv_def by blast
qed

lemma dispatcher_sources:
  assumes "dispatcher_step E p = Some q" "dispatcher p \<noteq> DPollRecv"
  shows "set (opt_list (worker_task (dispatcher q)) @ map st_task (tasks q)) \<subseteq>
    set (opt_list (worker_task (dispatcher p)) @ map st_task (tasks p))"
  using assms
  by (cases "dispatcher p") (auto simp: dispatcher_step_def dispatch_defs Let_def
      split: prod.splits if_splits sum.splits)

lemma source_step:
  assumes L: "lawful E" and src: "queue_sources (q_ops E) (task_queue p)"
    and inv: "source_inv p" and st: "pool_step E e p = Some q"
  shows "source_inv q"
proof (cases "outside e")
  case True
  from outside_frame [OF st True] show ?thesis by (intro source_mono [OF L st inv]) simp
next
  case False
  then consider "e = StepDispatcher" | i where "e = StepTask i" by (auto simp: outside_def)
  then show ?thesis
  proof cases
    case (2 i)
    then have t: "task_step E i p = Some q" using st by simp
    have "map st_task (tasks q) = map st_task (tasks p)"
      using t by (rule task_step_cases) (simp add: map_id_update)
    with task_step_frame [OF t] show ?thesis by (intro source_mono [OF L st inv]) simp
  next
    case 1
    then have d: "dispatcher_step E p = Some q" using st by simp
    have C: "chan_laws (q_ops E)" using L by (simp add: lawful_def)
    show ?thesis
    proof (cases "dispatcher p = DPollRecv")
      case recv: True
      obtain r k where r: "queue_recv (q_ops E) (s_ops E) (task_queue p) = (r, k)"
        by (cases "queue_recv (q_ops E) (s_ops E) (task_queue p)")
      have k: "sends k = sends (task_queue p)" "\<And>t. r = RecvOk t \<Longrightarrow> is_submitted p t"
        using queue_recv_tasks [OF C r] src by (auto simp: queue_sources_def is_submitted_def)
      have "task_queue q = k" using d r recv by (cases r) (auto simp: dispatcher_step_def)
      with k(1) have "is_submitted q t = is_submitted p t" for t by (simp add: is_submitted_def)
      with k(2) inv d r recv show ?thesis
        by (cases r) (auto simp: source_inv_def dispatcher_step_def)
    next
      case False
      from dispatcher_sources [OF d this] show ?thesis by (rule source_mono [OF L st inv])
    qed
  qed
qed

lemma pool_sources:
  "lawful E \<Longrightarrow> pool_reach E limit cap name p \<Longrightarrow> queue_sources (q_ops E) (task_queue p)"
  using sources.reach_inv [OF pool_queue.reach_proj, of E limit cap name p] by (simp add: lawful_def)

interpretation source: relative_invariant "\<lambda>p. p = pool_new E limit cap name" "pool_step E"
    "\<lambda>p. lawful E \<longrightarrow> source_inv p" for E limit cap name
proof unfold_locales
  show "p = pool_new E limit cap name \<Longrightarrow> lawful E \<longrightarrow> source_inv p" for p
    by (simp add: source_inv_def pool_new_def)
  show "pool_reach E limit cap name p \<Longrightarrow> lawful E \<longrightarrow> source_inv p \<Longrightarrow> pool_step E e p = Some q \<Longrightarrow>
      lawful E \<longrightarrow> source_inv q" for p e q
    using source_step pool_sources by blast
qed

lemma pool_source: "lawful E \<Longrightarrow> pool_reach E limit cap name p \<Longrightarrow> source_inv p"
  using source.reach_inv by blast

text \<open>So a task is the submission of its own address.\<close>

lemma source_submission:
  assumes "addresses p" "is_submitted p t"
  shows "submission p (mt_core t) = t" "mt_core t < length (cores p)"
proof -
  let ?s = "sends (task_queue p)"
  have a: "map (mt_core \<circ> fst) ?s = [0..<length (cores p)]" using assms(1) by (simp add: addresses_def)
  then have len: "length ?s = length (cores p)" by (metis length_map length_upt minus_nat.diff_0)
  from assms(2) obtain i where i: "i < length ?s" "t = fst (?s ! i)"
    by (auto simp: is_submitted_def in_set_conv_nth image_iff)
  have "(map (mt_core \<circ> fst) ?s) ! i = [0..<length (cores p)] ! i" by (simp add: a)
  then have "mt_core t = i" using i len by simp
  with i len show "submission p (mt_core t) = t" "mt_core t < length (cores p)"
    by (simp_all add: submission_def)
qed

section \<open>A task answered by the worker loop was cancelled\<close>

fun worker_answered :: "'r dispatcher_pc \<Rightarrow> 'r managed_task option" where
  "worker_answered (DCancelled t) = Some t"
| "worker_answered (DNotify t) = Some t"
| "worker_answered _ = None"

definition answered_inv :: "('r, 'n, 's, 'q, 'c, 'o, 'h) pool \<Rightarrow> bool" where
  "answered_inv p \<longleftrightarrow>
     (\<forall>t. worker_answered (dispatcher p) = Some t \<longrightarrow> explained p (mt_core t) (Inl TaskCancelled))"

lemma got_explained:
  assumes "addresses p" "source_inv p" "dispatcher p = DGot t" "core_cancelled p (mt_core t)"
  shows "explained p (mt_core t) (Inl TaskCancelled)"
proof -
  have "is_submitted p t" using assms(2,3) by (simp add: source_inv_def)
  from source_submission(2) [OF assms(1) this] assms(4) show ?thesis
    by (simp add: explained_def explains_def)
qed

lemma dispatcher_answers:
  assumes "dispatcher_step E p = Some q" "worker_answered (dispatcher q) = Some t"
  shows "worker_answered (dispatcher p) = Some t \<or>
    dispatcher p = DGot t \<and> core_cancelled p (mt_core t)"
  using assms
  by (cases "dispatcher p") (auto simp: dispatcher_step_def dispatch_defs Let_def
      split: prod.splits recv.splits if_splits sum.splits)

lemma answered_step:
  assumes L: "lawful E" and addr: "addresses p" and src: "source_inv p" and inv: "answered_inv p"
    and st: "pool_step E e p = Some q"
  shows "answered_inv q"
  unfolding answered_inv_def
proof (intro allI impI)
  fix t assume t: "worker_answered (dispatcher q) = Some t"
  have "explained p (mt_core t) (Inl TaskCancelled)"
  proof (cases "e = StepDispatcher")
    case True
    with st have "dispatcher_step E p = Some q" by simp
    from dispatcher_answers [OF this t] show ?thesis
      using inv got_explained [OF addr src] by (auto simp: answered_inv_def)
  next
    case False
    then have "dispatcher q = dispatcher p"
      using st outside_frame [OF st] task_step_frame [of E _ p q] by (cases e) (auto simp: outside_def)
    with t inv show ?thesis by (simp add: answered_inv_def)
  qed
  then show "explained q (mt_core t) (Inl TaskCancelled)" by (rule explained_mono [OF L addr st])
qed

interpretation answered: relative_invariant "\<lambda>p. p = pool_new E limit cap name" "pool_step E"
    "\<lambda>p. lawful E \<longrightarrow> answered_inv p" for E limit cap name
proof unfold_locales
  show "p = pool_new E limit cap name \<Longrightarrow> lawful E \<longrightarrow> answered_inv p" for p
    by (simp add: answered_inv_def pool_new_def)
  show "pool_reach E limit cap name p \<Longrightarrow> lawful E \<longrightarrow> answered_inv p \<Longrightarrow> pool_step E e p = Some q \<Longrightarrow>
      lawful E \<longrightarrow> answered_inv q" for p e q
    using answered_step pool_addresses pool_source by blast
qed

lemma pool_answered: "lawful E \<Longrightarrow> pool_reach E limit cap name p \<Longrightarrow> answered_inv p"
  using answered.reach_inv by blast

section \<open>The values of the oneshots\<close>

lemma outside_values:
  assumes L: "lawful E" and st: "pool_step E e p = Some q" and "outside e"
  shows "values_kept E (oneshots p) (oneshots q)"
proof -
  have O1: "oneshot_laws (o_ops E)" using L by (simp add: lawful_def)
  show ?thesis
  proof (cases e)
    case (Submit ls f)
    with st values_kept_new [OF O1] show ?thesis
      by (auto simp: with_manager_def submit_begin_def Let_def split: if_splits)
  next
    case (StepSubmit r)
    then have "step_send E r p = Some q" using st by simp
    then show ?thesis by (rule step_send_cases) (use values_kept_discard [OF O1] in auto)
  next
    case (AbandonSubmit r)
    with st values_kept_discard [OF O1] show ?thesis by (auto simp: step_abandon_def)
  next
    case (AwaitResult r)
    with st show ?thesis
      by (auto simp: step_await_def intro: await_step_values [OF O1] split: option.splits sum.splits if_splits)
  next
    case (Detach r)
    with st show ?thesis
      by (auto simp: step_detach_def intro: detach_step_values [OF O1] split: option.splits sum.splits if_splits)
  next
    case (StepShutdown i)
    with st shutdown_step_frame [of E i p q] show ?thesis by simp
  next
    case (TimeoutShutdown i)
    with st shutdown_timeout_frame [of i p q] show ?thesis by auto
  next
    case (StepDrop i)
    with st drop_step_frame [of E i p q] show ?thesis by simp
  qed (use st assms(3) in \<open>auto simp: pool_op_defs outside_def Let_def
        split: if_splits option.splits sum.splits prod.splits\<close>)
qed

section \<open>The invariant of the results\<close>

definition task_explained :: "('r, 'n, 's, 'q, 'c, 'o, 'h) pool \<Rightarrow> 'r spawned_task \<Rightarrow> bool" where
  "task_explained p t \<longleftrightarrow>
     (case st_pc t of
        TReady x \<Rightarrow> \<exists>k. catch_unwind (mt_future (st_task t) k) = Some x
      | TSend res \<Rightarrow> explained p (mt_core (st_task t)) res
      | TNotify s \<Rightarrow> \<exists>res. s = status_from res \<and> explained p (mt_core (st_task t)) res
      | _ \<Rightarrow> True)"

definition result_inv ::
  "('r, 'n, 's, 'q, 'c, 'o, 'h) env \<Rightarrow> ('r, 'n, 's, 'q, 'c, 'o, 'h) pool \<Rightarrow> bool" where
  "result_inv E p \<longleftrightarrow>
     (\<forall>t \<in> set (tasks p). task_explained p t) \<and>
     (\<forall>r < length (oneshots p). \<forall>res. result_value E p r = Some res \<longrightarrow> explained p r res) \<and>
     (\<forall>m \<in> set (posted (completion_notifier p)).
        \<exists>res. cm_status m = status_from res \<and> explained p (cm_core m) res)"

lemma task_explained_mono:
  assumes "lawful E" "addresses p" "pool_step E e p = Some q" "task_explained p t"
  shows "task_explained q t"
  using assms(4) explained_mono [OF assms(1-3)]
  by (auto simp: task_explained_def split: task_pc.splits)

lemma result_inv_add:
  assumes mono: "lawful E" "addresses p" "pool_step E e p = Some q" and inv: "result_inv E p"
    and tasks: "\<forall>t \<in> set (tasks q). t \<in> set (tasks p) \<or> task_explained q t"
    and os: "\<forall>r < length (oneshots q). \<forall>v. result_value E q r = Some v \<longrightarrow>
      r < length (oneshots p) \<and> result_value E p r = Some v \<or> explained q r v"
    and post: "\<forall>m \<in> set (posted (completion_notifier q)). m \<in> set (posted (completion_notifier p)) \<or>
      (\<exists>res. cm_status m = status_from res \<and> explained q (cm_core m) res)"
  shows "result_inv E q"
proof -
  note em = explained_mono [OF mono] and tm = task_explained_mono [OF mono]
  have "task_explained q x" if "x \<in> set (tasks q)" for x
    using that tasks inv tm unfolding result_inv_def by blast
  moreover have "explained q r v" if "r < length (oneshots q)" "result_value E q r = Some v" for r v
    using that os inv em unfolding result_inv_def by blast
  moreover have "\<exists>res. cm_status m = status_from res \<and> explained q (cm_core m) res"
    if "m \<in> set (posted (completion_notifier q))" for m
    using that post inv em unfolding result_inv_def by blast
  ultimately show ?thesis unfolding result_inv_def by blast
qed

lemma result_inv_keep:
  assumes "lawful E" "addresses p" "pool_step E e p = Some q" "result_inv E p"
    and "\<forall>t \<in> set (tasks q). t \<in> set (tasks p) \<or> task_explained q t"
    and "values_kept E (oneshots p) (oneshots q)"
    and "posted (completion_notifier q) = posted (completion_notifier p)"
  shows "result_inv E q"
  using assms(5-7) by (intro result_inv_add [OF assms(1-4)]) (auto simp: values_kept_def)

lemma result_inv_send:
  assumes mono: "lawful E" "addresses p" "pool_step E e p = Some q" and inv: "result_inv E p"
    and tasks: "\<forall>t \<in> set (tasks q). t \<in> set (tasks p) \<or> task_explained q t"
    and os: "oneshots q = (oneshots p)[r := snd (os_send (o_ops E) res (oneshots p ! r))]"
    and res: "explained q r res"
    and post: "\<forall>m \<in> set (posted (completion_notifier q)). m \<in> set (posted (completion_notifier p)) \<or>
      cm_core m = r \<and> cm_status m = status_from res"
  shows "result_inv E q"
proof (rule result_inv_add [OF mono inv tasks])
  have O1: "oneshot_laws (o_ops E)" using mono(1) by (simp add: lawful_def)
  have "v = res \<and> s = r \<or> result_value E p s = Some v"
    if "s < length (oneshots p)" "result_value E q s = Some v" for s v
    using that os send_value [OF O1, of res "oneshots p ! r" v] by (auto simp: nth_upd split: if_splits)
  then show "\<forall>s < length (oneshots q). \<forall>v. result_value E q s = Some v \<longrightarrow>
      s < length (oneshots p) \<and> result_value E p s = Some v \<or> explained q s v"
    using os res by (metis length_list_update)
  show "\<forall>m \<in> set (posted (completion_notifier q)). m \<in> set (posted (completion_notifier p)) \<or>
      (\<exists>res. cm_status m = status_from res \<and> explained q (cm_core m) res)"
    using post res by blast
qed

lemma ready_outcome_explained:
  assumes "addresses p" "is_submitted p t" "catch_unwind (mt_future t k) = Some x"
  shows "explained p (mt_core t) (ready_outcome (core_cancelled p (mt_core t)) x)"
  using source_submission [OF assms(1,2)] assms(3)
  by (cases "(core_cancelled p (mt_core t), x)" rule: ready_outcome.cases)
    (auto simp: explained_def explains_def catch_unwind_iffs)

lemma task_step_results:
  assumes L: "lawful E" and addr: "addresses p" and src: "source_inv p" and inv: "result_inv E p"
    and st: "pool_step E (StepTask i) p = Some q"
  shows "result_inv E q"
proof -
  have ts: "task_step E i p = Some q" using st by simp
  let ?t = "tasks p ! i" let ?r = "mt_core (st_task ?t)"
  have i: "i < length (tasks p)" using ts by (auto simp: task_step_def split: if_splits)
  then have mem: "?t \<in> set (tasks p)" by simp
  have exp: "task_explained p ?t" using inv mem by (simp add: result_inv_def)
  have sub: "is_submitted p (st_task ?t)" using src mem by (auto simp: source_inv_def)
  have frame: "explained q = explained p"
    using task_step_frame [OF ts] by (intro ext explained_cong) auto
  have quiet: "\<exists>u. tasks q = (tasks p)[i := u] \<and> task_explained q u \<and> oneshots q = oneshots p \<and>
      completion_notifier q = completion_notifier p \<Longrightarrow> result_inv E q"
    by (rule result_inv_keep [OF L addr st inv]) (auto dest: set_update_subset_insert [THEN subsetD])
  show ?thesis
  proof (cases "st_pc ?t")
    case (TSend res)
    let ?u = "?t\<lparr>st_pc := (if st_notify ?t then TNotify (status_from res) else TRelease)\<rparr>"
    have q: "q = p\<lparr>oneshots := (oneshots p)[?r := snd (os_send (o_ops E) res (oneshots p ! ?r))],
        tasks := (tasks p)[i := ?u]\<rparr>"
      using ts i TSend by (simp add: task_step_def Let_def)
    have res: "explained q ?r res" using exp TSend by (simp add: task_explained_def frame)
    then have "task_explained q ?u" by (auto simp: task_explained_def)
    then show ?thesis
      by (intro result_inv_send [OF L addr st inv _ _ res])
        (use set_update_subset_insert [of "tasks p" i ?u] in \<open>auto simp: q\<close>)
  next
    case (TNotify s)
    let ?u = "?t\<lparr>st_pc := TRelease\<rparr>"
    let ?m = "\<lparr>cm_pool_name = pool_name p, cm_core = ?r, cm_status = s\<rparr>"
    have q: "q = p\<lparr>completion_notifier := send_completion (c_ops E) ?m (completion_notifier p),
        tasks := (tasks p)[i := ?u]\<rparr>"
      using ts i TNotify by (simp add: task_step_def Let_def)
    obtain res where res: "s = status_from res" "explained p ?r res"
      using exp TNotify by (auto simp: task_explained_def)
    have post: "\<forall>m \<in> set (posted (completion_notifier q)). m \<in> set (posted (completion_notifier p)) \<or>
        (\<exists>res. cm_status m = status_from res \<and> explained q (cm_core m) res)"
    proof -
      have "set (posted (completion_notifier q)) \<subseteq> insert ?m (set (posted (completion_notifier p)))"
        by (auto simp: q send_completion_def Let_def split: prod.splits if_splits)
      moreover have "cm_status ?m = status_from res" "explained q (cm_core ?m) res"
        using res by (simp_all add: frame)
      ultimately show ?thesis by blast
    qed
    show ?thesis
      using set_update_subset_insert [of "tasks p" i ?u]
      by (intro result_inv_add [OF L addr st inv _ _ post]) (auto simp: q task_explained_def)
  next
    case (TReady x)
    let ?u = "?t\<lparr>st_pc := TSend (ready_outcome (core_cancelled p ?r) x)\<rparr>"
    have q: "q = p\<lparr>tasks := (tasks p)[i := ?u]\<rparr>"
      using ts i TReady by (simp add: task_step_def Let_def)
    obtain k where "catch_unwind (mt_future (st_task ?t) k) = Some x"
      using exp TReady by (auto simp: task_explained_def)
    from ready_outcome_explained [OF addr sub this] have "task_explained q ?u"
      by (simp add: task_explained_def frame)
    then show ?thesis
      using set_update_subset_insert [of "tasks p" i ?u]
      by (intro result_inv_keep [OF L addr st inv]) (auto simp: q)
  next
    case TPollCancel
    let ?u = "?t\<lparr>st_pc := (if core_cancelled p ?r then TSend (Inl TaskCancelled) else TPollFuture)\<rparr>"
    have q: "q = p\<lparr>tasks := (tasks p)[i := ?u]\<rparr>"
      using ts i TPollCancel by (simp add: task_step_def Let_def)
    have "task_explained q ?u"
      using source_submission(2) [OF addr sub]
      by (auto simp: task_explained_def frame) (simp add: explained_def explains_def)
    then show ?thesis
      using set_update_subset_insert [of "tasks p" i ?u]
      by (intro result_inv_keep [OF L addr st inv]) (auto simp: q)
  next
    case TPollFuture
    let ?c = "catch_unwind (mt_future (st_task ?t) (st_polls ?t))"
    let ?u = "?t\<lparr>st_polls := Suc (st_polls ?t), st_pc := (case ?c of Some x \<Rightarrow> TReady x | None \<Rightarrow> TPollCancel)\<rparr>"
    have "q = p\<lparr>tasks := (tasks p)[i := ?u]\<rparr>"
      using ts i TPollFuture by (auto simp: task_step_def Let_def split: option.splits)
    moreover have "task_explained q ?u"
      by (cases ?c) (auto simp: task_explained_def)
    ultimately show ?thesis by (intro quiet exI [of _ ?u]) simp
  next
    case TRelease
    with ts i show ?thesis
      by (intro quiet) (auto simp: task_step_def Let_def task_explained_def split: option.splits)
  next
    case TRemove
    with ts i show ?thesis
      by (intro quiet) (auto simp: task_step_def Let_def task_explained_def split: option.splits)
  next
    case TDone
    then show ?thesis using ts i by (simp add: task_step_def Let_def)
  qed
qed

lemma dispatcher_values:
  assumes L: "lawful E" and st: "dispatcher_step E p = Some q" and "\<forall>t. dispatcher p \<noteq> DGot t"
  shows "values_kept E (oneshots p) (oneshots q)"
proof -
  have O1: "oneshot_laws (o_ops E)" using L by (simp add: lawful_def)
  show ?thesis
    using st assms(3) values_kept_drop_senders [OF O1, of "oneshots p" "[_]"] values_kept_drop_senders [OF O1]
    by (cases "dispatcher p") (auto simp: dispatcher_step_def dispatch_notify_def dispatch_insert_def
        dispatch_spawn_def Let_def split: prod.splits recv.splits if_splits sum.splits)
qed

lemma dispatcher_step_results:
  assumes L: "lawful E" and addr: "addresses p" and src: "source_inv p" and ans: "answered_inv p"
    and inv: "result_inv E p" and st: "pool_step E StepDispatcher p = Some q"
  shows "result_inv E q"
proof -
  have ds: "dispatcher_step E p = Some q" using st by simp
  have kept: "values_kept E (oneshots p) (oneshots q)" if "\<forall>t. dispatcher p \<noteq> DGot t"
    by (rule dispatcher_values [OF L ds that])
  show ?thesis
  proof (cases "\<exists>t. dispatcher p = DGot t \<and> core_cancelled p (mt_core t)")
    case True
    then obtain t where t: "dispatcher p = DGot t" "core_cancelled p (mt_core t)" by blast
    from explained_mono [OF L addr st got_explained [OF addr src t]] have "explained q (mt_core t) (Inl TaskCancelled)" .
    then show ?thesis
      by (rule result_inv_send [OF L addr st inv, rotated 2])
        (use ds t in \<open>auto simp: dispatcher_step_def dispatch_cancelled_def Let_def\<close>)
  next
    case False
    from ds show ?thesis
    proof (cases rule: dispatcher_notifier)
      case quiet
      have "values_kept E (oneshots p) (oneshots q)"
        using kept False ds by (cases "dispatcher p") (auto simp: dispatcher_step_def)
      then show ?thesis using quiet by (intro result_inv_keep [OF L addr st inv]) auto
    next
      case (sender t b n)
      then show ?thesis
        using kept by (intro result_inv_keep [OF L addr st inv]) (auto simp: sink_sender_def split: if_splits)
    next
      case (notify t)
      have "explained p (mt_core t) (Inl TaskCancelled)" using ans notify(1) by (simp add: answered_inv_def)
      from explained_mono [OF L addr st this] have "explained q (mt_core t) (Inl TaskCancelled)" .
      then have "\<forall>m \<in> set (posted (completion_notifier q)). m \<in> set (posted (completion_notifier p)) \<or>
          (\<exists>res. cm_status m = status_from res \<and> explained q (cm_core m) res)"
        by (force simp: notify(2) send_completion_def Let_def split: prod.splits)
      then show ?thesis
        using kept inv explained_mono [OF L addr st] notify
        by (intro result_inv_add [OF L addr st inv]) (auto simp: values_kept_def)
    next
      case (spawn t s)
      then show ?thesis
        by (cases rule: dispatch_spawn_cases [of E p t s])
          (intro result_inv_keep [OF L addr st inv]; use kept in \<open>auto simp: spawn task_explained_def\<close>)
    qed
  qed
qed

lemma result_step:
  assumes L: "lawful E" and addr: "addresses p" and src: "source_inv p" and ans: "answered_inv p"
    and inv: "result_inv E p" and st: "pool_step E e p = Some q"
  shows "result_inv E q"
proof (cases "outside e")
  case True
  have "posted (completion_notifier q) = posted (completion_notifier p)"
    using run_clones [OF outside_notifier [OF st True] notifier_calls_kind] by blast
  with outside_frame [OF st True] outside_values [OF L st True] show ?thesis
    by (intro result_inv_keep [OF L addr st inv]) auto
next
  case False
  then consider "e = StepDispatcher" | i where "e = StepTask i" by (auto simp: outside_def)
  then show ?thesis
    using st dispatcher_step_results [OF L addr src ans inv] task_step_results [OF L addr src inv] by cases auto
qed

interpretation results: relative_invariant "\<lambda>p. p = pool_new E limit cap name" "pool_step E"
    "\<lambda>p. lawful E \<longrightarrow> result_inv E p" for E limit cap name
proof unfold_locales
  show "p = pool_new E limit cap name \<Longrightarrow> lawful E \<longrightarrow> result_inv E p" for p
    by (simp add: result_inv_def pool_new_def notifier_new_def)
  show "pool_reach E limit cap name p \<Longrightarrow> lawful E \<longrightarrow> result_inv E p \<Longrightarrow> pool_step E e p = Some q \<Longrightarrow>
      lawful E \<longrightarrow> result_inv E q" for p e q
    using result_step pool_addresses pool_source pool_answered by blast
qed

lemma pool_results: "lawful E \<Longrightarrow> pool_reach E limit cap name p \<Longrightarrow> result_inv E p"
  using results.reach_inv by blast

end
