(* ===== verification/ManagerSpec.thy ===== *)
theory ManagerSpec
  imports ManagerResult
begin

text \<open>
  What a pool promises, as a small machine: a list of waiting tasks and a set of running ones.
  The strict pool refines it.
\<close>

section \<open>The abstract pool\<close>

record pool_spec =
  waiting :: "core_ref list"
  running :: "core_ref set"

datatype spec_event =
    Accept core_ref   \<comment> \<open>a new task is queued behind the others\<close>
  | Start             \<comment> \<open>the oldest waiting task starts, if the limit allows\<close>
  | Discard           \<comment> \<open>the oldest waiting task is cancelled or dropped\<close>
  | Finish core_ref   \<comment> \<open>a running task ends\<close>

definition spec_new :: pool_spec where
  "spec_new = \<lparr>waiting = [], running = {}\<rparr>"

fun spec_step :: "nat \<Rightarrow> spec_event \<Rightarrow> pool_spec \<Rightarrow> pool_spec option" where
  "spec_step n (Accept r) s =
     (if r \<in> set (waiting s) \<union> running s then None else Some (s\<lparr>waiting := waiting s @ [r]\<rparr>))"
| "spec_step n Start s =
     (case waiting s of
        [] \<Rightarrow> None
      | r # rs \<Rightarrow> if card (running s) < n then Some \<lparr>waiting = rs, running = insert r (running s)\<rparr> else None)"
| "spec_step n Discard s = (case waiting s of [] \<Rightarrow> None | r # rs \<Rightarrow> Some (s\<lparr>waiting := rs\<rparr>))"
| "spec_step n (Finish r) s = (if r \<in> running s then Some (s\<lparr>running := running s - {r}\<rparr>) else None)"

definition spec_ok :: "nat \<Rightarrow> pool_spec \<Rightarrow> bool" where
  "spec_ok n s \<longleftrightarrow>
     finite (running s) \<and> card (running s) \<le> n \<and> distinct (waiting s) \<and> set (waiting s) \<inter> running s = {}"

interpretation abstract_pool: invariant "\<lambda>s. s = spec_new" "spec_step n" "spec_ok n" for n
proof unfold_locales
  show "s = spec_new \<Longrightarrow> spec_ok n s" for s by (simp add: spec_ok_def spec_new_def)
  show "spec_ok n s \<Longrightarrow> spec_step n e s = Some s' \<Longrightarrow> spec_ok n s'" for s e s'
    by (cases e) (auto simp: spec_ok_def card_insert_if card_Diff_singleton_if
        split: if_splits list.splits)
qed

lemma run_discard:
  "waiting s = rs @ w \<Longrightarrow> run (spec_step n) (replicate (length rs) Discard) s = Some (s\<lparr>waiting := w\<rparr>)"
  by (induction rs arbitrary: s) auto

section \<open>The abstraction of the strict pool\<close>

definition running_cores :: "('r, 'n, 's, 'q, 'c, 'o, 'h) pool \<Rightarrow> core_ref set" where
  "running_cores p = (mt_core \<circ> st_task) ` set (filter task_holds (tasks p))"

definition abs_pool ::
  "('r, 'n, 's, 'q, 'c, 'o, 'h) env \<Rightarrow> ('r, 'n, 's, 'q, 'c, 'o, 'h) pool \<Rightarrow> pool_spec" where
  "abs_pool E p = \<lparr>waiting = worker_core p @ queued (q_ops E) (task_queue p), running = running_cores p\<rparr>"

lemma card_running_cores:
  assumes "distinct (started p)"
  shows "card (running_cores p) = count_if task_holds (tasks p)"
proof -
  have "distinct (map (mt_core \<circ> st_task) (filter task_holds (tasks p)))"
    using assms unfolding started_def by (rule ManagerOrder.distinct_map_filter)
  from distinct_card [OF this] show ?thesis by (simp add: running_cores_def count_if_def)
qed

section \<open>The refinement\<close>

lemma outside_refines:
  assumes L: "lawful E" and r: "pool_reach E limit cap name p" and st: "pool_step E e p = Some q"
    and "outside e"
  shows "\<exists>fs. run (spec_step n) fs (abs_pool E p) = Some (abs_pool E q)"
proof -
  have C: "chan_laws (q_ops E)" and S: "sem_laws (s_ops E)" using L by (auto simp: lawful_def)
  have rq: "pool_reach E limit cap name q" using r st by (rule reach_step)
  note fr = outside_frame [OF st assms(4)]
  have same: "worker_core q = worker_core p" "running_cores q = running_cores p" "started q = started p"
    using fr by (simp_all add: worker_core_def running_cores_def started_def)
  have rec: "received (task_queue q) = received (task_queue p)"
    by (rule outside_received [OF L st assms(4)])
  have sq: "sent (task_queue q) = received (task_queue q) @ queued (q_ops E) (task_queue q)"
    and sp: "sent (task_queue p) = received (task_queue p) @ queued (q_ops E) (task_queue p)"
    and dq: "distinct (sent (task_queue q))"
    and oq: "subseq (started q @ worker_core q) (received (task_queue q))"
    using pool_started [OF L rq] pool_started [OF L r] by blast+
  have "queued (q_ops E) (task_queue q) = queued (q_ops E) (task_queue p) \<or>
      (\<exists>r. queued (q_ops E) (task_queue q) = queued (q_ops E) (task_queue p) @ [r])"
  proof -
    have "sent (task_queue q) = sent (task_queue p) \<or> (\<exists>r. sent (task_queue q) = sent (task_queue p) @ [r])"
    proof (cases e)
      case (StepSubmit w)
      then have "step_send E w p = Some q" using st by simp
      then obtain k os where k: "queue_step_send (q_ops E) (s_ops E) (shutting_down p) w (task_queue p) = Some k"
        "q = p\<lparr>task_queue := k, oneshots := os\<rparr>" by (rule step_send_cases)
      from k(1) show ?thesis
      proof (cases rule: queue_step_send_cases)
        case (1 t pc pc' q')
        with send_step_effect [OF C S 1(3)] k(2) show ?thesis by auto
      qed
    next
      case (AbandonSubmit w)
      then obtain k where "queue_abandon_send (s_ops E) w (task_queue p) = Some k" "task_queue q = k"
        using st by (auto simp: step_abandon_def)
      then show ?thesis using queue_abandon_cases [of "s_ops E" w "task_queue p" k] by metis
    next
      case (StepShutdown i)
      then show ?thesis using st shutdown_step_frame [of E i p q] by auto
    next
      case (TimeoutShutdown i)
      then show ?thesis using st shutdown_timeout_frame [of i p q] by auto
    next
      case (StepDrop i)
      then show ?thesis using st drop_step_frame [of E i p q] by auto
    qed (use st assms(4) in \<open>auto simp: pool_op_defs outside_def Let_def
          split: if_splits option.splits sum.splits prod.splits\<close>)
    with sq sp rec show ?thesis by auto
  qed
  then show ?thesis
  proof (elim disjE exE)
    assume "queued (q_ops E) (task_queue q) = queued (q_ops E) (task_queue p)"
    then show ?thesis by (intro exI [of _ "[]"]) (simp add: abs_pool_def same)
  next
    fix r assume a: "queued (q_ops E) (task_queue q) = queued (q_ops E) (task_queue p) @ [r]"
    have "r \<notin> set (received (task_queue q))" "r \<notin> set (queued (q_ops E) (task_queue p))"
      using dq sq a by auto
    moreover have "running_cores q \<union> set (worker_core q) \<subseteq> set (received (task_queue q))"
      using subseq_set [OF oq] by (auto simp: running_cores_def started_def)
    ultimately have "r \<notin> set (waiting (abs_pool E p)) \<union> running (abs_pool E p)"
      by (auto simp: abs_pool_def same)
    then show ?thesis by (intro exI [of _ "[Accept r]"]) (simp add: abs_pool_def same a)
  qed
qed

lemma dispatcher_refines:
  assumes L: "lawful E" and r: "pool_reach E limit cap name p" and st: "dispatcher_step E p = Some q"
  shows "\<exists>fs. run (spec_step (max limit 1)) fs (abs_pool E p) = Some (abs_pool E q)"
proof -
  have C: "chan_laws (q_ops E)" and S: "sem_laws (s_ops E)" using L by (auto simp: lawful_def)
  have run: "running_inv E (max limit 1) p" by (rule pool_running [OF L r])
  have stutter: "abs_pool E q = abs_pool E p \<Longrightarrow> ?thesis" by (intro exI [of _ "[]"]) simp
  have skip: "waiting (abs_pool E p) = rs @ waiting (abs_pool E q) \<Longrightarrow>
      running_cores q = running_cores p \<Longrightarrow> ?thesis" for rs
    using run_discard [of "abs_pool E p" rs "waiting (abs_pool E q)" "max limit 1"]
    by (auto simp: abs_pool_def)
  show ?thesis
  proof (cases "dispatcher p")
    case DPollRecv
    obtain x k where x: "queue_recv (q_ops E) (s_ops E) (task_queue p) = (x, k)"
      by (cases "queue_recv (q_ops E) (s_ops E) (task_queue p)")
    from queue_recv_effect [OF C S x] x st DPollRecv have "abs_pool E q = abs_pool E p"
      by (cases x) (auto simp: abs_pool_def worker_core_def running_cores_def dispatcher_step_def)
    then show ?thesis by (rule stutter)
  next
    case DExit
    obtain rs k where x: "queue_drop_consumer (q_ops E) (s_ops E) (task_queue p) = (rs, k)"
      by (cases "queue_drop_consumer (q_ops E) (s_ops E) (task_queue p)")
    from queue_drop_consumer_effect [OF C S x] x st DExit show ?thesis
      by (intro skip [of rs]) (auto simp: abs_pool_def worker_core_def running_cores_def dispatcher_step_def)
  next
    case (DReceived t)
    show ?thesis
    proof (cases "shutting_down p")
      case True
      with DReceived st show ?thesis
        by (intro skip [of "[mt_core t]"])
          (auto simp: abs_pool_def worker_core_def running_cores_def dispatcher_step_def)
    next
      case False
      with DReceived st show ?thesis
        by (intro stutter) (auto simp: abs_pool_def worker_core_def running_cores_def dispatcher_step_def)
    qed
  next
    case (DNotify t)
    with st show ?thesis
      by (intro skip [of "[mt_core t]"]) (auto simp: abs_pool_def worker_core_def running_cores_def dispatcher_step_def)
  next
    case (DCancelled t)
    obtain b n where b: "sink_sender (c_ops E) (completion_notifier p) = (b, n)" by fastforce
    show ?thesis
    proof (cases b)
      case True
      with DCancelled st b show ?thesis
        by (intro stutter) (auto simp: abs_pool_def worker_core_def running_cores_def dispatcher_step_def)
    next
      case False
      with DCancelled st b show ?thesis
        by (intro skip [of "[mt_core t]"])
          (auto simp: abs_pool_def worker_core_def running_cores_def dispatcher_step_def)
    qed
  next
    case (DInsert t)
    have "pool_reach E limit cap name q" using r by (rule reach_step [where e = StepDispatcher]) (simp add: st)
    then have "dispatcher q \<noteq> DPanicked" using pool_running [OF L] by (simp add: running_inv_def)
    with DInsert st show ?thesis
      by (intro stutter) (auto simp: abs_pool_def worker_core_def running_cores_def dispatcher_step_def
          dispatch_insert_def split: sum.splits)
  next
    case (DSpawn t s)
    with st have q: "q = dispatch_spawn E t s p" by (simp add: dispatcher_step_def)
    have "distinct (started p)" using pool_started(4) [OF L r] by simp
    from card_running_cores [OF this] run DSpawn have lt: "card (running_cores p) < max limit 1"
      by (simp add: running_inv_def permits_inv_def)
    show ?thesis
    proof (cases rule: dispatch_spawn_cases [of E p t s])
      case (1 b)
      have "running_cores q = insert (mt_core t) (running_cores p)"
        by (simp add: running_cores_def q 1(4) task_holds_def)
      moreover have "worker_core q = []" by (simp add: worker_core_def q 1(3))
      ultimately show ?thesis using lt DSpawn
        by (intro exI [of _ "[Start]"]) (simp add: abs_pool_def worker_core_def q)
    qed
  qed (use st in \<open>auto simp: abs_pool_def worker_core_def running_cores_def dispatcher_step_def
      dispatch_cancelled_def Let_def
      split: if_splits prod.splits intro: run_stutter\<close>)
qed

lemma task_refines:
  assumes L: "lawful E" and r: "pool_reach E limit cap name p" and st: "task_step E i p = Some q"
  shows "\<exists>fs. run (spec_step n) fs (abs_pool E p) = Some (abs_pool E q)"
  using st
proof (cases rule: task_step_cases)
  case (1 t)
  let ?f = "mt_core \<circ> st_task"
  have f: "?f t = ?f (tasks p ! i)" using 1(3) by simp
  have d: "distinct (map ?f (tasks p))" using pool_started(4) [OF L r] by (simp add: started_def)
  have w: "waiting (abs_pool E q) = waiting (abs_pool E p)"
    using task_step_frame [OF st] by (simp add: abs_pool_def worker_core_def)
  show ?thesis
  proof (cases "task_holds t = task_holds (tasks p ! i)")
    case True
    from filter_image_same [OF 1(1) f True] w show ?thesis
      by (intro exI [of _ "[]"]) (simp add: abs_pool_def running_cores_def 1(2))
  next
    case False
    then have h: "task_holds (tasks p ! i)" "\<not> task_holds t" using 1(9) by auto
    have "?f (tasks p ! i) \<in> running_cores p" using 1(1) h(1) by (force simp: running_cores_def)
    with filter_nth_distinct [OF d 1(1) f h] w show ?thesis
      by (intro exI [of _ "[Finish (?f (tasks p ! i))]"])
        (simp add: abs_pool_def running_cores_def 1(2))
  qed
qed

lemma pool_step_refines:
  assumes L: "lawful E" and r: "pool_reach E limit cap name p" and st: "pool_step E e p = Some q"
  shows "\<exists>fs. run (spec_step (max limit 1)) fs (abs_pool E p) = Some (abs_pool E q)"
proof (cases "outside e")
  case True
  then show ?thesis by (rule outside_refines [OF L r st])
next
  case False
  then consider "e = StepDispatcher" | i where "e = StepTask i" by (auto simp: outside_def)
  then show ?thesis
    using st dispatcher_refines [OF L r] task_refines [OF L r] by cases auto
qed

interpretation refinement: component "\<lambda>p. lawful E \<and> p = pool_new E limit cap name" "pool_step E"
    "abs_pool E" "\<lambda>s. s = spec_new" "spec_step (max limit 1)" for E limit cap name
proof unfold_locales
  show "lawful E \<and> p = pool_new E limit cap name \<Longrightarrow> abs_pool E p = spec_new" for p
    by (simp add: abs_pool_def spec_new_def worker_core_def running_cores_def pool_new_def queue_new_def
        queued_def lawful_def ch_new_items)
  fix p e q
  assume r: "reach (\<lambda>p. lawful E \<and> p = pool_new E limit cap name) (pool_step E) p"
    and st: "pool_step E e p = Some q"
  have L: "lawful E" using r by (induction rule: reach.induct) simp_all
  with r have "pool_reach E limit cap name p" by simp
  from pool_step_refines [OF L this st]
  show "\<exists>fs. run (spec_step (max limit 1)) fs (abs_pool E p) = Some (abs_pool E q)" .
qed

end
