(* ===== verification/ManagerLive.thy ===== *)
theory ManagerLive
  imports ManagerResult
begin

text \<open>
  Progress of the strict pool: how many of its own steps the worker loop, a cancelled task, a
  blocked submission and a call of \<open>shutdown\<close> need, whatever the other activities do
  meanwhile. Each has a rank that its own steps lower and that no other step raises.
\<close>

section \<open>The shutdown flag\<close>

lemma pool_step_flag:
  assumes "pool_step E e p = Some q" "shutting_down p"
  shows "shutting_down q"
proof -
  have k: "shutdown_token q = shutdown_token p \<or> shutdown_token q = cancel (n_ops E) (shutdown_token p)"
  proof (cases "outside e")
    case False
    then consider "e = StepDispatcher" | i where "e = StepTask i" by (auto simp: outside_def)
    then show ?thesis
      using assms(1) dispatcher_step_frame [of E p q] task_step_frame [of E _ p q] by cases auto
  next
    case True
    consider i where "e = StepShutdown i" | i where "e = TimeoutShutdown i" | i where "e = StepDrop i"
      | "\<forall>i. e \<noteq> StepShutdown i" "\<forall>i. e \<noteq> TimeoutShutdown i" "\<forall>i. e \<noteq> StepDrop i" by blast
    then show ?thesis
    proof cases
      case (1 i)
      then show ?thesis using assms(1) shutdown_step_frame [of E i p q] by simp
    next
      case (2 i)
      then show ?thesis using assms(1) shutdown_timeout_frame [of i p q] by auto
    next
      case (3 i)
      then show ?thesis using assms(1) drop_step_frame [of E i p q] by simp
    next
      case 4
      then show ?thesis using call_frame [OF assms(1) True] by blast
    qed
  qed
  with assms(2) show ?thesis by auto
qed

section \<open>The worker loop\<close>

fun dispatcher_rank :: "'r dispatcher_pc \<Rightarrow> nat" where
  "dispatcher_rank DStopped = 0"
| "dispatcher_rank DPanicked = 0"
| "dispatcher_rank DExit = 1"
| "dispatcher_rank DPollPermit = 3"
| "dispatcher_rank DPollRecv = 3"
| "dispatcher_rank DNext = 3"
| "dispatcher_rank (DSpawn _ _) = 3"
| "dispatcher_rank (DNotify _) = 4"
| "dispatcher_rank (DInsert _) = 4"
| "dispatcher_rank (DCancelled _) = 5"
| "dispatcher_rank (DGot _) = 6"
| "dispatcher_rank _ = 2"

lemma dispatcher_rank_le: "dispatcher_rank d \<le> 6"
  by (cases d) auto

lemma dispatcher_rank_step:
  assumes "shutting_down p" "dispatcher_step E p = Some q"
  shows "dispatcher_rank (dispatcher q) < dispatcher_rank (dispatcher p)"
  using assms
  by (cases "dispatcher p") (auto simp: dispatcher_step_def dispatch_defs Let_def
      split: prod.splits recv.splits if_splits sum.splits)

lemma dispatcher_enabled: "0 < dispatcher_rank (dispatcher p) \<Longrightarrow> dispatcher_step E p \<noteq> None"
  by (auto simp: dispatcher_step_def Let_def split: dispatcher_pc.splits prod.splits recv.splits)

lemma dispatcher_other:
  "pool_step E e p = Some q \<Longrightarrow> e \<noteq> StepDispatcher \<Longrightarrow> dispatcher q = dispatcher p"
  using outside_frame [of E e p q] task_step_frame [of E _ p q] by (cases e) (auto simp: outside_def)

interpretation worker_stops: ranked "pool_step E" StepDispatcher shutting_down
    "\<lambda>p. dispatcher_rank (dispatcher p)" for E
proof unfold_locales
  show "shutting_down p \<Longrightarrow> pool_step E e p = Some q \<Longrightarrow> shutting_down q" for p e q
    using pool_step_flag by blast
  show "shutting_down p \<Longrightarrow> pool_step E e p = Some q \<Longrightarrow> e \<noteq> StepDispatcher \<Longrightarrow>
      dispatcher_rank (dispatcher q) \<le> dispatcher_rank (dispatcher p)" for p e q
    using dispatcher_other [of E e p q] by simp
  show "shutting_down p \<Longrightarrow> pool_step E StepDispatcher p = Some q \<Longrightarrow>
      dispatcher_rank (dispatcher q) < dispatcher_rank (dispatcher p)" for p q
    using dispatcher_rank_step by simp
  show "shutting_down p \<Longrightarrow> 0 < dispatcher_rank (dispatcher p) \<Longrightarrow> pool_step E StepDispatcher p \<noteq> None" for p
    using dispatcher_enabled [of p E] by simp
qed

text \<open>After the flag is set at most the task the worker is committed to can still start.\<close>

fun committed :: "'r dispatcher_pc \<Rightarrow> bool" where
  "committed (DGot _) = True"
| "committed (DInsert _) = True"
| "committed (DSpawn _ _) = True"
| "committed _ = False"

definition start_bound :: "('r, 'n, 's, 'q, 'c, 'o, 'h) pool \<Rightarrow> nat" where
  "start_bound p = length (tasks p) + of_bool (committed (dispatcher p))"

lemma start_bound_step:
  assumes "shutting_down p" "pool_step E e p = Some q"
  shows "start_bound q \<le> start_bound p"
proof (cases "outside e")
  case True
  from outside_frame [OF assms(2) True] show ?thesis by (simp add: start_bound_def)
next
  case False
  then consider "e = StepDispatcher" | i where "e = StepTask i" by (auto simp: outside_def)
  then show ?thesis
  proof cases
    case 1
    then have "dispatcher_step E p = Some q" using assms(2) by simp
    with assms(1) show ?thesis
      by (cases "dispatcher p") (auto simp: start_bound_def dispatcher_step_def dispatch_defs Let_def
          split: prod.splits recv.splits if_splits sum.splits)
  next
    case (2 i)
    then have t: "task_step E i p = Some q" using assms(2) by simp
    then have "length (tasks q) = length (tasks p)" by (rule task_step_cases) simp
    with task_step_frame [OF t] show ?thesis by (simp add: start_bound_def)
  qed
qed

lemma start_bound_run:
  "shutting_down p \<Longrightarrow> run (pool_step E) es p = Some q \<Longrightarrow> start_bound q \<le> start_bound p"
proof (induction es arbitrary: p)
  case Nil
  then show ?case by simp
next
  case (Cons e es)
  then obtain m where m: "pool_step E e p = Some m" "run (pool_step E) es m = Some q"
    by (auto split: option.splits)
  from start_bound_step [OF Cons.prems(1) m(1)]
    Cons.IH [OF pool_step_flag [OF m(1) Cons.prems(1)] m(2)] show ?case by simp
qed

section \<open>A cancelled task\<close>

fun task_rank :: "'r task_pc \<Rightarrow> nat" where
  "task_rank TPollFuture = 6"
| "task_rank (TReady _) = 5"
| "task_rank TPollCancel = 5"
| "task_rank (TSend _) = 4"
| "task_rank (TNotify _) = 3"
| "task_rank TRelease = 2"
| "task_rank TRemove = 1"
| "task_rank TDone = 0"

lemma task_rank_le: "task_rank pc \<le> 6"
  by (cases pc) auto

lemma task_rank_zero: "task_rank pc = 0 \<longleftrightarrow> pc = TDone"
  by (cases pc) auto

definition doomed :: "nat \<Rightarrow> core_ref \<Rightarrow> ('r, 'n, 's, 'q, 'c, 'o, 'h) pool \<Rightarrow> bool" where
  "doomed i r p \<longleftrightarrow> i < length (tasks p) \<and> mt_core (st_task (tasks p ! i)) = r \<and>
     r < length (cores p) \<and> core_cancelled p r"

lemma tasks_other:
  assumes "pool_step E e p = Some q" "i < length (tasks p)" "e \<noteq> StepTask i"
  shows "i < length (tasks q) \<and> tasks q ! i = tasks p ! i"
proof (cases "outside e")
  case True
  with outside_frame [OF assms(1)] assms(2) show ?thesis by simp
next
  case False
  then consider "e = StepDispatcher" | j where "e = StepTask j" "j \<noteq> i"
    using assms(3) by (auto simp: outside_def)
  then show ?thesis
  proof cases
    case 1
    then have "dispatcher_step E p = Some q" using assms(1) by simp
    then have "tasks q = tasks p \<or> (\<exists>t. tasks q = tasks p @ [t])"
      by (cases "dispatcher p") (auto simp: dispatcher_step_def dispatch_defs Let_def
          split: prod.splits recv.splits if_splits sum.splits)
    with assms(2) show ?thesis by (auto simp: nth_append)
  next
    case (2 j)
    then have "task_step E j p = Some q" using assms(1) by simp
    then show ?thesis by (rule task_step_cases) (use assms(2) 2 in auto)
  qed
qed

lemma doomed_step:
  assumes "doomed i r p" "pool_step E e p = Some q"
  shows "doomed i r q"
proof -
  have "r < length (cores q) \<and> core_cancelled q r"
    using pool_step_cores [OF assms(2)] assms(1) by (auto simp: doomed_def cores_le_def)
  moreover have "i < length (tasks q) \<and> mt_core (st_task (tasks q ! i)) = r"
  proof (cases "e = StepTask i")
    case True
    then have "task_step E i p = Some q" using assms(2) by simp
    then show ?thesis by (rule task_step_cases) (use assms(1) in \<open>auto simp: doomed_def\<close>)
  next
    case False
    with tasks_other [OF assms(2) _ False] assms(1) show ?thesis by (auto simp: doomed_def)
  qed
  ultimately show ?thesis by (simp add: doomed_def)
qed

interpretation cancelled_task: ranked "pool_step E" "StepTask i" "doomed i r"
    "\<lambda>p. task_rank (st_pc (tasks p ! i))" for E i r
proof unfold_locales
  show "doomed i r p \<Longrightarrow> pool_step E e p = Some q \<Longrightarrow> doomed i r q" for p e q
    by (rule doomed_step)
  show "doomed i r p \<Longrightarrow> pool_step E e p = Some q \<Longrightarrow> e \<noteq> StepTask i \<Longrightarrow>
      task_rank (st_pc (tasks q ! i)) \<le> task_rank (st_pc (tasks p ! i))" for p e q
    using tasks_other [of E e p q i] by (auto simp: doomed_def)
  show "doomed i r p \<Longrightarrow> pool_step E (StepTask i) p = Some q \<Longrightarrow>
      task_rank (st_pc (tasks q ! i)) < task_rank (st_pc (tasks p ! i))" for p q
    by (auto simp: doomed_def task_step_def Let_def split: task_pc.splits option.splits)
  show "doomed i r p \<Longrightarrow> 0 < task_rank (st_pc (tasks p ! i)) \<Longrightarrow> pool_step E (StepTask i) p \<noteq> None" for p
    by (auto simp: doomed_def task_step_def Let_def split: task_pc.splits option.splits)
qed

text \<open>A cancelled task whose outcome is not yet decided can only be reported as cancelled.\<close>

definition cancelled_outcome :: "nat \<Rightarrow> ('r, 'n, 's, 'q, 'c, 'o, 'h) pool \<Rightarrow> bool" where
  "cancelled_outcome i p \<longleftrightarrow>
     (case st_pc (tasks p ! i) of
        TSend res \<Rightarrow> res = Inl TaskCancelled
      | TNotify s \<Rightarrow> s = Cancelled
      | _ \<Rightarrow> True)"

lemma cancelled_outcome_step:
  assumes "doomed i r p" "cancelled_outcome i p" "pool_step E e p = Some q"
  shows "cancelled_outcome i q"
proof (cases "e = StepTask i")
  case True
  with assms show ?thesis
    by (auto simp: doomed_def cancelled_outcome_def task_step_def Let_def
        split: task_pc.splits option.splits if_splits)
next
  case False
  with tasks_other [OF assms(3) _ False] assms(1,2) show ?thesis
    by (auto simp: doomed_def cancelled_outcome_def)
qed

lemma cancelled_outcome_run:
  "doomed i r p \<Longrightarrow> cancelled_outcome i p \<Longrightarrow> run (pool_step E) es p = Some q \<Longrightarrow> cancelled_outcome i q"
proof (induction es arbitrary: p)
  case Nil
  then show ?case by simp
next
  case (Cons e es)
  then obtain m where m: "pool_step E e p = Some m" "run (pool_step E) es m = Some q"
    by (auto split: option.splits)
  from Cons.IH [OF doomed_step [OF Cons.prems(1) m(1)]
      cancelled_outcome_step [OF Cons.prems(1,2) m(1)] m(2)] show ?case .
qed

section \<open>A blocked submission\<close>

fun send_rank :: "send_pc \<Rightarrow> nat" where
  "send_rank SendCheck = 1"
| "send_rank SendPollShutdown = 1"
| "send_rank SendPollGate = 2"
| "send_rank SendMessage = 1"
| "send_rank (SendDone _) = 0"
| "send_rank SendDropped = 0"

abbreviation send_state :: "('r, 'n, 's, 'q, 'c, 'o, 'h) pool \<Rightarrow> nat \<Rightarrow> send_pc" where
  "send_state p w \<equiv> snd (sends (task_queue p) ! w)"

lemma queue_sends_other:
  assumes C: "chan_laws C" and S: "sem_laws S" and st: "queue_step C S e q = Some q2"
    and w: "w < length (sends q)" and e: "\<forall>sd. e \<noteq> StepSend sd w"
  shows "w < length (sends q2) \<and> (sends q2 ! w = sends q ! w \<or> snd (sends q2 ! w) = SendDropped)"
proof (cases e)
  case (BeginSend t)
  with st w show ?thesis by (auto simp: nth_append)
next
  case (StepSend sd v)
  then have "queue_step_send C S sd v q = Some q2" using st by simp
  then show ?thesis
  proof (cases rule: queue_step_send_cases)
    case (1 t pc pc' q')
    with send_step_effect [OF C S 1(3)] w e StepSend show ?thesis by auto
  qed
next
  case (AbandonSend v)
  then have "queue_abandon_send S v q = Some q2" using st by simp
  then show ?thesis by (rule queue_abandon_cases) (use w in \<open>auto simp: nth_upd\<close>)
next
  case Recv
  then have "queue_recv C S q = (fst (queue_recv C S q), q2)" using st by auto
  from queue_recv_tasks [OF C this] w show ?thesis by simp
next
  case DropConsumer
  then have "queue_drop_consumer C S q = (fst (queue_drop_consumer C S q), q2)" using st by auto
  from queue_drop_consumer_tasks(2) [OF C this] w show ?thesis by simp
qed (use st w in auto)

text \<open>The queue's events of a pool step, without the sends of one caller.\<close>

lemma pool_sends_other:
  assumes L: "lawful E" and st: "pool_step E e p = Some q" and w: "w < length (sends (task_queue p))"
    and e: "e \<noteq> StepSubmit w"
  shows "w < length (sends (task_queue q)) \<and> send_rank (send_state q w) \<le> send_rank (send_state p w)"
proof -
  have C: "chan_laws (q_ops E)" and S: "sem_laws (s_ops E)" using L by (auto simp: lawful_def)
  note other = queue_sends_other [OF C S, of _ "task_queue p" "task_queue q" w]
  have same: "sends (task_queue q) = sends (task_queue p) \<Longrightarrow> ?thesis" using w by simp
  show ?thesis
  proof (cases e)
    case (Submit ls f)
    with st consider "q = p" | t where "task_queue q = queue_begin_send t (task_queue p)"
      by (auto simp: with_manager_def submit_begin_def Let_def split: if_splits)
    then show ?thesis using w by cases (auto simp: nth_append)
  next
    case (StepSubmit v)
    then have "step_send E v p = Some q" using st by simp
    then obtain k os where k: "queue_step_send (q_ops E) (s_ops E) (shutting_down p) v (task_queue p) = Some k"
      "q = p\<lparr>task_queue := k, oneshots := os\<rparr>" by (rule step_send_cases)
    then show ?thesis using other [of "StepSend (shutting_down p) v"] w e StepSubmit by auto
  next
    case (AbandonSubmit v)
    with st have "queue_step (q_ops E) (s_ops E) (AbandonSend v) (task_queue p) = Some (task_queue q)"
      by (auto simp: step_abandon_def)
    from other [OF this w] show ?thesis by auto
  next
    case StepDispatcher
    then have ds: "dispatcher_step E p = Some q" using st by simp
    consider (recv) "dispatcher p = DPollRecv" | (exit) "dispatcher p = DExit"
      | (rest) "dispatcher p \<noteq> DPollRecv" "dispatcher p \<noteq> DExit" by blast
    then show ?thesis
    proof cases
      case recv
      obtain x k where x: "queue_recv (q_ops E) (s_ops E) (task_queue p) = (x, k)" by fastforce
      with recv ds have "task_queue q = k" by (cases x) (auto simp: dispatcher_step_def)
      with queue_recv_tasks [OF C x] show ?thesis by (intro same) simp
    next
      case exit
      obtain x k where x: "queue_drop_consumer (q_ops E) (s_ops E) (task_queue p) = (x, k)" by fastforce
      with exit ds have "task_queue q = k" by (auto simp: dispatcher_step_def)
      with queue_drop_consumer_tasks(2) [OF C x] show ?thesis by (intro same) simp
    next
      case rest
      with ds show ?thesis
        by (intro same) (cases "dispatcher p"; auto simp: dispatcher_step_def dispatch_defs Let_def
            split: if_splits prod.splits sum.splits)
    qed
  next
    case (StepTask i)
    with st task_step_frame [of E i p q] show ?thesis by (intro same) simp
  next
    case (StepShutdown i)
    with st shutdown_step_frame [of E i p q] show ?thesis by (intro same) auto
  next
    case (TimeoutShutdown i)
    with st shutdown_timeout_frame [of i p q] show ?thesis by (intro same) auto
  next
    case (StepDrop i)
    with st drop_step_frame [of E i p q] show ?thesis by (intro same) auto
  qed (use st w in \<open>auto simp: pool_op_defs Let_def
        split: if_splits option.splits sum.splits prod.splits\<close>)
qed

definition closing :: "('r, 'n, 's, 'q, 'c, 'o, 'h) env \<Rightarrow> nat \<Rightarrow> ('r, 'n, 's, 'q, 'c, 'o, 'h) pool \<Rightarrow> bool" where
  "closing E w p \<longleftrightarrow> lawful E \<and> shutting_down p \<and> w < length (sends (task_queue p))"

lemma step_send_rank:
  assumes "closing E w p" "step_send E w p = Some q"
  shows "w < length (sends (task_queue q)) \<and> send_rank (send_state q w) < send_rank (send_state p w)"
  using assms(2)
proof (cases rule: step_send_cases)
  case (1 k os)
  have C: "chan_laws (q_ops E)" and S: "sem_laws (s_ops E)" and sd: "shutting_down p"
    using assms(1) by (auto simp: closing_def lawful_def)
  from 1(1) show ?thesis
  proof (cases rule: queue_step_send_cases)
    case (1 t pc pc' q')
    have "sends q' = sends (task_queue p)" using send_step_effect [OF C S 1(3)] by blast
    moreover have "send_rank pc' < send_rank pc"
      using 1(3) sd by (cases pc) (auto split: if_splits prod.splits)
    ultimately show ?thesis using 1 \<open>q = _\<close> by simp
  qed
qed

lemma step_send_enabled:
  assumes "closing E w p" "0 < send_rank (send_state p w)"
  shows "step_send E w p \<noteq> None"
proof -
  obtain t pc where t: "sends (task_queue p) ! w = (t, pc)" by fastforce
  with assms(2) have "send_step (q_ops E) (s_ops E) (shutting_down p) w t pc (task_queue p) \<noteq> None"
    by (cases pc) (auto split: prod.splits)
  with t assms(1) show ?thesis
    by (auto simp: step_send_def queue_step_send_def closing_def split: option.splits)
qed

interpretation submission_ends: ranked "pool_step E" "StepSubmit w" "closing E w"
    "\<lambda>p. send_rank (send_state p w)" for E w
proof unfold_locales
  show "closing E w p \<Longrightarrow> pool_step E e p = Some q \<Longrightarrow> closing E w q" for p e q
    using pool_step_flag [of E e p q] pool_sends_other [of E e p q w] step_send_rank [of E w p q]
    by (cases "e = StepSubmit w") (auto simp: closing_def)
  show "closing E w p \<Longrightarrow> pool_step E e p = Some q \<Longrightarrow> e \<noteq> StepSubmit w \<Longrightarrow>
      send_rank (send_state q w) \<le> send_rank (send_state p w)" for p e q
    using pool_sends_other [of E e p q w] by (simp add: closing_def)
  show "closing E w p \<Longrightarrow> pool_step E (StepSubmit w) p = Some q \<Longrightarrow>
      send_rank (send_state q w) < send_rank (send_state p w)" for p q
    using step_send_rank [of E w p q] by simp
  show "closing E w p \<Longrightarrow> 0 < send_rank (send_state p w) \<Longrightarrow> pool_step E (StepSubmit w) p \<noteq> None" for p
    using step_send_enabled [of E w p] by simp
qed

section \<open>A call of \<open>shutdown\<close>\<close>

fun shutdown_rank :: "nat \<Rightarrow> shutdown_pc \<Rightarrow> nat" where
  "shutdown_rank n (HStart _) = n + 14"
| "shutdown_rank n (HCancel _) = n + 13"
| "shutdown_rank n (HClose _) = n + 12"
| "shutdown_rank n HSweep = n + 11"
| "shutdown_rank n (HCancelTasks rs) = length rs + 10"
| "shutdown_rank n (HActive _) = 9"
| "shutdown_rank n (HWait _) = 8"
| "shutdown_rank n (HTakeWorker _) = 7"
| "shutdown_rank n (HJoinWorker _) = 6"
| "shutdown_rank n (HSink _) = 5"
| "shutdown_rank n HTakeNotifier = 4"
| "shutdown_rank n HJoinNotifier = 3"
| "shutdown_rank n HDrop = 2"
| "shutdown_rank n HDone = 0"
| "shutdown_rank n HPanicked = 1"
| "shutdown_rank n HAbandoned = 1"

definition own_rank :: "nat \<Rightarrow> ('r, 'n, 's, 'q, 'c, 'o, 'h) pool \<Rightarrow> nat" where
  "own_rank i p = shutdown_rank (length (slots_all_tokens (active_task_info p))) (shutdowns p ! i)"

text \<open>With the timers, the call can always move on its own.\<close>

definition own_event :: "nat \<Rightarrow> ('r, 'n, 's, 'q, 'c, 'o, 'h) pool \<Rightarrow> ('r, 'h) pool_event" where
  "own_event i p =
     (case shutdowns p ! i of
        HWait _ \<Rightarrow> TimeoutShutdown i
      | HJoinWorker _ \<Rightarrow> TimeoutShutdown i
      | HJoinNotifier \<Rightarrow> TimeoutShutdown i
      | _ \<Rightarrow> StepShutdown i)"

definition alive_call :: "nat \<Rightarrow> ('r, 'n, 's, 'q, 'c, 'o, 'h) pool \<Rightarrow> bool" where
  "alive_call i p \<longleftrightarrow>
     i < length (shutdowns p) \<and> slots_wf (active_task_info p) \<and> shutdowns p ! i \<noteq> HPanicked \<and>
     shutdowns p ! i \<noteq> HAbandoned"

lemma own_step:
  assumes "alive_call i p" "shutdowns p ! i \<noteq> HDone"
  shows "\<exists>q. pool_step E (own_event i p) p = Some q \<and> alive_call i q \<and> own_rank i q < own_rank i p"
proof -
  have i: "i < length (shutdowns p)" and len: "active_task_count p = Inr (occupied (active_task_info p))"
    using assms(1) by (auto simp: alive_call_def active_task_count_def slots_len_occupied)
  have "pool_step E (own_event i p) p \<noteq> None"
    using i assms by (cases "shutdowns p ! i")
      (auto simp: own_event_def shutdown_step_def shutdown_timeout_def alive_call_def Let_def
        split: prod.splits list.splits)
  then obtain q where q: "pool_step E (own_event i p) p = Some q" by blast
  have "active_task_info q = active_task_info p"
    using outside_frame [OF q] by (auto simp: own_event_def outside_def split: shutdown_pc.splits)
  moreover have "own_rank i q < own_rank i p \<and> i < length (shutdowns q) \<and> shutdowns q ! i \<noteq> HPanicked \<and>
      shutdowns q ! i \<noteq> HAbandoned"
    using q i assms len by (cases "shutdowns p ! i")
      (auto simp: own_event_def own_rank_def shutdown_step_def shutdown_timeout_def alive_call_def Let_def
        split: prod.splits list.splits if_splits)
  ultimately show ?thesis using q assms(1) by (simp add: alive_call_def)
qed

abbreviation own_events :: "nat \<Rightarrow> ('r, 'h) pool_event set" where
  "own_events i \<equiv> {StepShutdown i, TimeoutShutdown i}"

interpretation own_call: solo "pool_step E" "own_event i" "alive_call i" "own_rank i" "\<lambda>p. shutdowns p ! i = HDone"
  for E i
  by unfold_locales (rule own_step)

lemma own_run:
  assumes "alive_call i p"
  shows "\<exists>es q. set es \<subseteq> own_events i \<and> length es \<le> own_rank i p \<and>
    run (pool_step E) es p = Some q \<and> shutdowns q ! i = HDone"
proof -
  have "range (own_event i) \<subseteq> own_events i" by (auto simp: own_event_def split: shutdown_pc.splits)
  with own_call.finishes [OF assms, of E] show ?thesis by blast
qed

text \<open>The cancellation loop of a forceful shutdown, among the steps of all the others.\<close>

definition sweeping :: "core_ref set \<Rightarrow> nat \<Rightarrow> ('r, 'n, 's, 'q, 'c, 'o, 'h) pool \<Rightarrow> bool" where
  "sweeping R i p \<longleftrightarrow>
     i < length (shutdowns p) \<and>
     (\<forall>r \<in> R. r < length (cores p) \<and>
        (core_cancelled p r \<or> (\<exists>rs. shutdowns p ! i = HCancelTasks rs \<and> r \<in> set rs)))"

lemma shutdowns_other:
  assumes "pool_step E e p = Some q" "i < length (shutdowns p)"
    and "e \<noteq> StepShutdown i" "e \<noteq> TimeoutShutdown i" "e \<noteq> AbandonShutdown i"
  shows "i < length (shutdowns q) \<and> shutdowns q ! i = shutdowns p ! i"
proof (cases e)
  case StepDispatcher
  with assms dispatcher_step_frame [of E p q] show ?thesis by simp
next
  case (StepTask j)
  with assms task_step_frame [of E j p q] show ?thesis by simp
next
  case (StepDrop j)
  with assms drop_step_frame [of E j p q] show ?thesis by simp
next
  case (StepSubmit r)
  then have "step_send E r p = Some q" using assms by simp
  then show ?thesis by (rule step_send_cases) (use assms(2) in simp)
next
  case (StepShutdown j)
  then have "shutdown_step E j p = Some q" "j \<noteq> i" using assms by simp_all
  then show ?thesis using assms(2)
    by (auto simp: shutdown_step_def Let_def split: if_splits shutdown_pc.splits list.splits prod.splits)
next
  case (TimeoutShutdown j)
  then have "shutdown_timeout j p = Some q" "j \<noteq> i" using assms by simp_all
  then show ?thesis using assms(2)
    by (auto simp: shutdown_timeout_def Let_def split: if_splits shutdown_pc.splits)
qed (use assms in \<open>auto simp: pool_op_defs Let_def nth_append
      split: if_splits option.splits sum.splits prod.splits\<close>)

lemma sweeping_step:
  assumes sw: "sweeping R i p" and st: "pool_step E e p = Some q"
  shows "sweeping R i q"
proof -
  have mono: "r < length (cores p) \<Longrightarrow> r < length (cores q) \<and> (core_cancelled p r \<longrightarrow> core_cancelled q r)" for r
    using pool_step_cores [OF st] by (auto simp: cores_le_def)
  have i: "i < length (shutdowns p)" using sw by (simp add: sweeping_def)
  show ?thesis
  proof (cases "e = StepShutdown i \<or> e = TimeoutShutdown i \<or> e = AbandonShutdown i")
    case False
    with shutdowns_other [OF st i] sw mono show ?thesis unfolding sweeping_def by metis
  next
    case True
    have cut: "\<exists>s. shutdowns p ! i = HCancelTasks (s # rs) \<and> cores q = heap_cancel (n_ops E) s (cores p) \<and>
          shutdowns q ! i = HCancelTasks rs \<and> length (shutdowns q) = length (shutdowns p)"
      if "shutdowns p ! i = HCancelTasks (s' # rs)" for rs s'
      using that True st i
      by (auto simp: shutdown_step_def shutdown_timeout_def shutdown_abandon_def Let_def)
    have len: "i < length (shutdowns q)"
      using True st i
      by (auto simp: shutdown_step_def shutdown_timeout_def shutdown_abandon_def Let_def
          split: if_splits shutdown_pc.splits list.splits prod.splits)
    have "core_cancelled q r \<or> (\<exists>rs. shutdowns q ! i = HCancelTasks rs \<and> r \<in> set rs)" if "r \<in> R" for r
    proof (cases "core_cancelled p r")
      case True
      then show ?thesis using mono that sw by (auto simp: sweeping_def)
    next
      case False
      with that sw obtain ss where ss: "shutdowns p ! i = HCancelTasks ss" "r \<in> set ss"
        and r: "r < length (cores p)" by (auto simp: sweeping_def)
      then obtain s rs where "ss = s # rs" by (cases ss) auto
      with cut ss r show ?thesis by (fastforce simp: core_cancelled_def)
    qed
    with len sw mono show ?thesis unfolding sweeping_def by blast
  qed
qed

lemma sweeping_run: "sweeping R i p \<Longrightarrow> run (pool_step E) es p = Some q \<Longrightarrow> sweeping R i q"
  by (induction es arbitrary: p) (auto split: option.splits intro: sweeping_step)

end
