(* ===== verification/ManagerCancel.thy ===== *)
theory ManagerCancel
  imports ManagerLive
begin

text \<open>
  Cancellation of active tasks in the strict pool: which tasks the registry lists, and a call of
  \<open>cancel_tasks_by_labels\<close> among the steps of all the others.
\<close>

section \<open>The listed tasks\<close>

lemma launched_cores:
  "map (mt_core \<circ> st_task) (launched p) =
     started p @ (case dispatcher p of DSpawn t _ \<Rightarrow> [mt_core t] | _ \<Rightarrow> [])"
  by (cases "dispatcher p") (simp_all add: started_def)

lemma launched_distinct:
  assumes "lawful E" "pool_reach E limit cap name p"
  shows "distinct (map (mt_core \<circ> st_task) (launched p))"
proof -
  have "distinct (started p @ worker_core p)" by (rule pool_started(4) [OF assms])
  then show ?thesis unfolding launched_cores by (cases "dispatcher p") (simp_all add: worker_core_def)
qed

lemma active_cores_filter:
  "active_cores p = set (map (mt_core \<circ> st_task) (filter task_registered (launched p)))"
  by (auto simp: active_cores_def)

lemma card_active_cores:
  assumes "lawful E" "pool_reach E limit cap name p"
  shows "card (active_cores p) = count_if task_registered (launched p)"
proof -
  have "distinct (map (mt_core \<circ> st_task) (filter task_registered (launched p)))"
    by (rule ManagerOrder.distinct_map_filter [OF launched_distinct [OF assms]])
  from distinct_card [OF this] show ?thesis unfolding active_cores_filter by (simp add: count_if_def)
qed

lemma active_cores_bound:
  assumes "lawful E" "pool_reach E limit cap name p"
  shows "active_cores p \<subseteq> {..<length (cores p)}"
proof -
  have "active_cores p \<subseteq> set (started p @ worker_core p)"
    by (cases "dispatcher p") (auto simp: active_cores_def started_def worker_core_def)
  also have "\<dots> \<subseteq> set (received (task_queue p))"
    by (rule subseq_set [OF pool_started(1) [OF assms]])
  also have "\<dots> \<subseteq> set (sent (task_queue p))" using pool_started(2) [OF assms] by auto
  also have "\<dots> \<subseteq> {..<length (cores p)}"
    by (rule sent_distinct(2) [OF pool_addresses [OF assms] pool_queue_inv [OF assms]])
  finally show ?thesis .
qed

lemma all_tokens_distinct:
  assumes "lawful E" "pool_reach E limit cap name p"
  shows "distinct (slots_all_tokens (active_task_info p))"
proof (rule card_distinct)
  note run = pool_running [OF assms]
  have "length (slots_all_tokens (active_task_info p)) = occupied (active_task_info p)"
    by (simp add: slots_all_tokens_def length_flatten occupied_def)
  also have "\<dots> = count_if task_registered (launched p)"
    using run by (simp add: running_inv_def registry_inv_def)
  finally show "card (set (slots_all_tokens (active_task_info p))) = length (slots_all_tokens (active_task_info p))"
    by (simp add: running_active [OF run] card_active_cores [OF assms])
qed

lemma matching_active:
  fixes ls :: "task_label set"
  assumes "lawful E" "pool_reach E limit cap name p"
  defines "rs \<equiv> slots_tokens_matching (cores p) ls (active_task_info p)"
  shows "set rs = {r \<in> active_cores p. labels (cores p ! r) \<inter> ls \<noteq> {}}" and "distinct rs"
    and "set rs \<subseteq> {..<length (cores p)}"
proof -
  have "rs = filter (\<lambda>r. labels (cores p ! r) \<inter> ls \<noteq> {}) (slots_all_tokens (active_task_info p))"
    by (simp add: rs_def slots_tokens_matching_def slots_all_tokens_def)
  then show s: "set rs = {r \<in> active_cores p. labels (cores p ! r) \<inter> ls \<noteq> {}}" and "distinct rs"
    using all_tokens_distinct [OF assms(1,2)] running_active [OF pool_running [OF assms(1,2)]] by simp_all
  show "set rs \<subseteq> {..<length (cores p)}" using active_cores_bound [OF assms(1,2)] unfolding s by blast
qed

section \<open>A call of \<open>cancel_tasks_by_labels\<close>\<close>

text \<open>The \<open>k\<close>-th call listed \<open>rs\<close> and has taken \<open>n\<close> steps.\<close>

definition label_call :: "nat \<Rightarrow> core_ref list \<Rightarrow> nat \<Rightarrow> ('r, 'n, 's, 'q, 'c, 'o, 'h) pool \<Rightarrow> bool" where
  "label_call k rs n p \<longleftrightarrow>
     k < length (label_cancels p) \<and> n \<le> length rs \<and> label_cancels p ! k = drop n rs \<and>
     set rs \<subseteq> {..<length (cores p)} \<and> (\<forall>r \<in> set (take n rs). core_cancelled p r)"

lemma label_cancels_other:
  assumes "pool_step E e p = Some q" "k < length (label_cancels p)" "e \<noteq> StepCancel k"
  shows "k < length (label_cancels q) \<and> label_cancels q ! k = label_cancels p ! k"
proof (cases e)
  case StepDispatcher
  with assms dispatcher_step_frame [of E p q] show ?thesis by simp
next
  case (StepTask j)
  with assms task_step_frame [of E j p q] show ?thesis by simp
next
  case (StepDrop j)
  with assms drop_step_frame [of E j p q] show ?thesis by simp
next
  case (StepShutdown j)
  with assms shutdown_step_frame [of E j p q] show ?thesis by simp
next
  case (TimeoutShutdown j)
  with assms shutdown_timeout_frame [of j p q] show ?thesis by auto
next
  case (StepSubmit r)
  then have "step_send E r p = Some q" using assms by simp
  then show ?thesis by (rule step_send_cases) (use assms(2) in simp)
qed (use assms in \<open>auto simp: pool_op_defs Let_def nth_append
      split: if_splits option.splits sum.splits prod.splits\<close>)

lemma label_call_step:
  assumes c: "label_call k rs n p" and st: "pool_step E e p = Some q"
  shows "label_call k rs (n + of_bool (e = StepCancel k)) q"
proof -
  have mono: "r < length (cores p) \<Longrightarrow> r < length (cores q) \<and> (core_cancelled p r \<longrightarrow> core_cancelled q r)" for r
    using pool_step_cores [OF st] by (auto simp: cores_le_def)
  have k: "k < length (label_cancels p)" using c by (simp add: label_call_def)
  have b: "set rs \<subseteq> {..<length (cores p)}" and t: "\<forall>r \<in> set (take n rs). core_cancelled p r"
    using c by (simp_all add: label_call_def)
  have len: "set rs \<subseteq> {..<length (cores q)}" using b mono by blast
  have old: "\<forall>r \<in> set (take n rs). core_cancelled q r"
    using b t mono set_take_subset [of n rs] by blast
  show ?thesis
  proof (cases "e = StepCancel k")
    case False
    with label_cancels_other [OF st k] c len old show ?thesis by (simp add: label_call_def)
  next
    case True
    with st k have ne: "label_cancels p ! k \<noteq> []" by (auto simp: label_cancel_step_eq split: if_splits)
    with c have n: "n < length rs" and hd: "hd (label_cancels p ! k) = rs ! n"
      by (auto simp: label_call_def hd_drop_conv_nth)
    have q: "q = p\<lparr>cores := heap_cancel (n_ops E) (rs ! n) (cores p),
        label_cancels := (label_cancels p)[k := drop (Suc n) rs]\<rparr>"
      using True st k ne c hd by (simp add: label_cancel_step_eq label_call_def drop_Suc tl_drop)
    have "rs ! n < length (cores p)" using b nth_mem [OF n] by auto
    then have "core_cancelled q (rs ! n)" by (simp add: q core_cancelled_def)
    with old have "\<forall>r \<in> set (take (Suc n) rs). core_cancelled q r"
      using n by (simp add: take_Suc_conv_app_nth)
    with n k len True show ?thesis by (simp add: label_call_def q)
  qed
qed

lemma label_call_run:
  "label_call k rs n p \<Longrightarrow> run (pool_step E) es p = Some q \<Longrightarrow>
     label_call k rs (n + count_list es (StepCancel k)) q"
proof (induction es arbitrary: n p)
  case Nil
  then show ?case by simp
next
  case (Cons e es)
  then obtain m where m: "pool_step E e p = Some m" "run (pool_step E) es m = Some q"
    by (auto split: option.splits)
  from Cons.IH [OF label_call_step [OF Cons.prems(1) m(1)] m(2)] show ?case
    by (cases "e = StepCancel k") simp_all
qed

lemma label_call_over:
  assumes "label_call k rs n p" "label_cancels p ! k = []" "r \<in> set rs"
  shows "core_cancelled p r"
  using assms by (auto simp: label_call_def)

lemma label_call_sound:
  assumes c: "label_call k rs n p" and st: "pool_step E (StepCancel k) p = Some q"
    and r: "r < length (cores p)" "core_cancelled q r"
  shows "core_cancelled p r \<or> r \<in> set rs"
proof -
  obtain s ss where s: "label_cancels p ! k = s # ss" "cores q = heap_cancel (n_ops E) s (cores p)"
    using st by (auto simp: label_cancel_step_def split: if_splits list.splits)
  then have "drop n rs = s # ss" using c by (simp add: label_call_def)
  then have "s \<in> set (drop n rs)" by simp
  then have "s \<in> set rs" by (rule in_set_dropD)
  with r s show ?thesis by (cases "r = s") (auto simp: core_cancelled_def)
qed

end
