(* ===== verification/ManagerAwait.thy ===== *)
theory ManagerAwait
  imports ManagerResult
begin

text \<open>
  What the outside sees of a finished task: the result that \<open>await_result\<close> returns through the
  handle, and the completion messages posted to the notifier.
\<close>

section \<open>Awaited results\<close>

definition await_inv ::
  "('r, 'n, 's, 'q, 'c, 'o, 'h) env \<Rightarrow> ('r, 'n, 's, 'q, 'c, 'o, 'h) pool \<Rightarrow> bool" where
  "await_inv E p \<longleftrightarrow> (\<forall>r < length (handles p). handle_ok (explained p r) (closed_error E p r) (handles p ! r))"

lemma addresses_lengths:
  assumes "addresses p"
  shows "length (handles p) = length (cores p)" "length (oneshots p) = length (cores p)"
    "length (sends (task_queue p)) = length (cores p)"
    "r < length (cores p) \<Longrightarrow> th_core (hs_handle (handles p ! r)) = r"
proof -
  have h: "map (th_core \<circ> hs_handle) (handles p) = [0..<length (cores p)]"
    and s: "map (mt_core \<circ> fst) (sends (task_queue p)) = [0..<length (cores p)]"
    and o: "length (oneshots p) = length (cores p)"
    using assms unfolding addresses_def by blast+
  show l: "length (handles p) = length (cores p)" using h by (metis length_map length_upt minus_nat.diff_0)
  show "length (sends (task_queue p)) = length (cores p)" using s by (metis length_map length_upt minus_nat.diff_0)
  show "length (oneshots p) = length (cores p)" by (rule o)
  assume "r < length (cores p)"
  then show "th_core (hs_handle (handles p ! r)) = r"
    using arg_cong [OF h, of "\<lambda>xs. xs ! r"] l by simp
qed

lemma addresses_task_id:
  assumes "addresses p" "r < length (cores p)"
  shows "task_id (cores p ! r) = of_nat r"
proof -
  have "map task_id (cores p) = map of_nat [0..<length (cores p)]"
    using assms(1) unfolding addresses_def by blast
  from arg_cong [OF this, of "\<lambda>xs. xs ! r"] assms(2) show ?thesis by simp
qed

lemma handle_ok_mono:
  assumes "lawful E" "addresses p" "pool_step E e p = Some q" "r < length (cores p)" "handle_ok (explained p r) (closed_error E p r) h"
  shows "handle_ok (explained q r) (closed_error E q r) h"
proof -
  have "task_id (cores q ! r) = task_id (cores p ! r)"
    using pool_step_cores [OF assms(3)] assms(4) by (auto simp: cores_le_def)
  then have "closed_error E q r = closed_error E p r" by (simp add: closed_error_def)
  with assms(5) explained_mono [OF assms(1-3)] show ?thesis unfolding handle_ok_def by metis
qed

lemma handles_frame:
  assumes "pool_step E e p = Some q" "\<forall>ls f. e \<noteq> Submit ls f" "\<forall>r. e \<noteq> AwaitResult r" "\<forall>r. e \<noteq> Detach r"
  shows "handles q = handles p"
proof (cases e)
  case StepDispatcher
  with assms dispatcher_step_frame [of E p q] show ?thesis by simp
next
  case (StepTask i)
  with assms task_step_frame [of E i p q] show ?thesis by simp
next
  case (StepShutdown i)
  with assms shutdown_step_frame [of E i p q] show ?thesis by simp
next
  case (TimeoutShutdown i)
  with assms shutdown_timeout_frame [of i p q] show ?thesis by auto
next
  case (StepDrop i)
  with assms drop_step_frame [of E i p q] show ?thesis by simp
next
  case (StepSubmit r)
  then have "step_send E r p = Some q" using assms by simp
  then show ?thesis by (rule step_send_cases) simp
qed (use assms in \<open>auto simp: pool_op_defs Let_def split: if_splits option.splits sum.splits prod.splits\<close>)

lemma submit_result_handle: "submit_result p r = Some (Inr t) \<Longrightarrow> t = hs_handle (handles p ! r)"
  by (auto simp: submit_result_def split: send_pc.splits sum.splits)

text \<open>A step on a handle replaces one slot by another that is again in order.\<close>

lemma await_handle:
  assumes L: "lawful E" and addr: "addresses p" and res: "result_inv E p" and inv: "await_inv E p"
    and st: "step_await E r p = Some q"
  obtains h where "r < length (handles p)" "handles q = (handles p)[r := h]" "handle_ok (explained p r) (closed_error E p r) h"
proof -
  have O1: "oneshot_laws (o_ops E)" using L by (simp add: lawful_def)
  have a: "await_step E r (hs_handle (handles p ! r)) p = Some q"
    using st by (auto simp: step_await_def split: option.splits sum.splits if_splits dest: submit_result_handle)
  then have r: "r < length (handles p)" by (auto simp: await_step_def split: if_splits)
  have c: "th_core (hs_handle (handles p ! r)) = r" and l: "r < length (oneshots p)"
    using addresses_lengths [OF addr] r by simp_all
  have ok: "handle_ok (explained p r) (closed_error E p r) (handles p ! r)" using inv r by (simp add: await_inv_def)
  have "result_value E p r = Some v \<Longrightarrow> explained p r v" for v
    using res l by (simp add: result_inv_def)
  from await_step_handle [OF O1 a c ok this] show ?thesis using that by blast
qed

lemma detach_handle:
  assumes inv: "await_inv E p" and st: "step_detach E r p = Some q"
  obtains h where "r < length (handles p)" "handles q = (handles p)[r := h]" "handle_ok (explained p r) (closed_error E p r) h"
proof -
  have d: "detach_step E r (hs_handle (handles p ! r)) p = Some q"
    using st by (auto simp: step_detach_def split: option.splits sum.splits if_splits dest: submit_result_handle)
  then have r: "r < length (handles p)" by (auto simp: detach_step_def split: if_splits)
  have ok: "handle_ok (explained p r) (closed_error E p r) (handles p ! r)" using inv r by (simp add: await_inv_def)
  from detach_step_handle [OF d ok] show ?thesis using that by blast
qed

lemma await_inv_step:
  assumes L: "lawful E" and addr: "addresses p" and res: "result_inv E p" and inv: "await_inv E p"
    and st: "pool_step E e p = Some q"
  shows "await_inv E q"
proof -
  have mono: "r < length (handles p) \<Longrightarrow> handle_ok (explained p r) (closed_error E p r) h \<Longrightarrow> handle_ok (explained q r) (closed_error E q r) h" for r h
    using handle_ok_mono [OF L addr st] addresses_lengths(1) [OF addr] by simp
  have upd: "handles q = (handles p)[r := h] \<Longrightarrow> r < length (handles p) \<Longrightarrow> handle_ok (explained p r) (closed_error E p r) h \<Longrightarrow> ?thesis" for r h
    using inv mono unfolding await_inv_def by (metis length_list_update nth_list_update)
  consider (sub) ls f where "e = Submit ls f" | (aw) r where "e = AwaitResult r" | (det) r where "e = Detach r"
    | (other) "\<forall>ls f. e \<noteq> Submit ls f" "\<forall>r. e \<noteq> AwaitResult r" "\<forall>r. e \<noteq> Detach r" by blast
  then show ?thesis
  proof cases
    case sub
    with st consider "q = p" | r where "handles q = handles p @
        [\<lparr>hs_handle = handle_new r, hs_polling = False, hs_result = None\<rparr>]"
      by (auto simp: with_manager_def submit_begin_def Let_def split: if_splits)
    then show ?thesis
    proof cases
      case 1
      then show ?thesis using inv by simp
    next
      case 2
      have new: "handle_ok (explained q (length (handles p))) (closed_error E q (length (handles p)))
          \<lparr>hs_handle = handle_new r, hs_polling = False, hs_result = None\<rparr>"
        by simp
      have "i < length (handles p) \<Longrightarrow> handle_ok (explained q i) (closed_error E q i) (handles p ! i)" for i
        using inv mono by (simp add: await_inv_def)
      with new 2 show ?thesis by (simp add: await_inv_def nth_append less_Suc_eq)
    qed
  next
    case (aw r)
    then have "step_await E r p = Some q" using st by simp
    then show ?thesis by (rule await_handle [OF L addr res inv]) (rule upd)
  next
    case (det r)
    then have "step_detach E r p = Some q" using st by simp
    then show ?thesis by (rule detach_handle [OF inv]) (rule upd)
  next
    case other
    with handles_frame [OF st] inv mono show ?thesis by (simp add: await_inv_def)
  qed
qed

interpretation awaited: relative_invariant "\<lambda>p. p = pool_new E limit cap name" "pool_step E"
    "\<lambda>p. lawful E \<longrightarrow> await_inv E p" for E limit cap name
proof unfold_locales
  show "p = pool_new E limit cap name \<Longrightarrow> lawful E \<longrightarrow> await_inv E p" for p
    by (simp add: await_inv_def pool_new_def)
  show "pool_reach E limit cap name p \<Longrightarrow> lawful E \<longrightarrow> await_inv E p \<Longrightarrow> pool_step E e p = Some q \<Longrightarrow>
      lawful E \<longrightarrow> await_inv E q" for p e q
    using await_inv_step pool_addresses pool_results by blast
qed

lemma pool_awaited: "lawful E \<Longrightarrow> pool_reach E limit cap name p \<Longrightarrow> await_inv E p"
  using awaited.reach_inv by blast

section \<open>At most one completion message per task\<close>

definition posted_cores :: "('r, 'n, 's, 'q, 'c, 'o, 'h) pool \<Rightarrow> core_ref list" where
  "posted_cores p = map cm_core (posted (completion_notifier p))"

definition before_notice :: "'r spawned_task \<Rightarrow> bool" where
  "before_notice t \<longleftrightarrow> st_pc t \<noteq> TRelease \<and> st_pc t \<noteq> TRemove \<and> st_pc t \<noteq> TDone"

definition once_inv :: "('r, 'n, 's, 'q, 'c, 'o, 'h) pool \<Rightarrow> bool" where
  "once_inv p \<longleftrightarrow>
     distinct (posted_cores p) \<and> set (posted_cores p) \<subseteq> set (received (task_queue p)) \<and>
     set (worker_core p) \<inter> set (posted_cores p) = {} \<and>
     (\<forall>i < length (tasks p). before_notice (tasks p ! i) \<longrightarrow>
        mt_core (st_task (tasks p ! i)) \<notin> set (posted_cores p))"

lemma started_nth: "i < length (tasks p) \<Longrightarrow> mt_core (st_task (tasks p ! i)) \<in> set (started p)"
  using nth_mem [of i "started p"] by (simp add: started_def del: nth_mem)

lemma once_dispatcher:
  assumes L: "lawful E" and r: "pool_reach E limit cap name p" and inv: "once_inv p"
    and st: "dispatcher_step E p = Some q"
  shows "once_inv q"
proof -
  have C: "chan_laws (q_ops E)" and S: "sem_laws (s_ops E)" using L by (auto simp: lawful_def)
  note sp = pool_started [OF L r]
  from st show ?thesis
  proof (cases rule: dispatcher_notifier)
    case quiet
    then have post: "posted_cores q = posted_cores p" by (auto simp: posted_cores_def)
    have "set (received (task_queue p)) \<subseteq> set (received (task_queue q)) \<and>
        set (worker_core q) \<inter> set (posted_cores p) = {}"
    proof (cases "dispatcher p")
      case DPollRecv
      obtain x k where x: "queue_recv (q_ops E) (s_ops E) (task_queue p) = (x, k)" by fastforce
      show ?thesis
      proof (cases x)
        case (RecvOk t)
        have "mt_core t \<notin> set (received (task_queue p))" "received k = received (task_queue p) @ [mt_core t]"
          using queue_recv_effect [OF C S x] RecvOk sp(2,3) by auto
        with inv DPollRecv st x RecvOk show ?thesis
          by (auto simp: dispatcher_step_def worker_core_def once_inv_def)
      qed (use queue_recv_effect [OF C S x] DPollRecv st x in \<open>auto simp: dispatcher_step_def worker_core_def\<close>)
    next
      case DExit
      obtain x k where x: "queue_drop_consumer (q_ops E) (s_ops E) (task_queue p) = (x, k)" by fastforce
      with queue_drop_consumer_effect [OF C S x] DExit st show ?thesis
        by (auto simp: dispatcher_step_def worker_core_def)
    qed (use st inv quiet(1-3) in \<open>auto simp: dispatcher_step_def dispatch_cancelled_def dispatch_insert_def
          worker_core_def once_inv_def Let_def split: if_splits prod.splits sum.splits\<close>)
    with inv quiet(4) post show ?thesis unfolding once_inv_def by auto
  next
    case (sender t b n)
    then have "posted_cores q = posted_cores p"
      by (auto simp: posted_cores_def sink_sender_def split: if_splits)
    then show ?thesis using inv sender by (auto simp: once_inv_def worker_core_def)
  next
    case (notify t)
    let ?r = "mt_core t"
    have post: "posted_cores q = posted_cores p \<or> posted_cores q = posted_cores p @ [?r]"
      using send_completion_posted [of "c_ops E" "\<lparr>cm_pool_name = pool_name p, cm_core = ?r, cm_status = Cancelled\<rparr>"
          "completion_notifier p"] by (auto simp: notify(2) posted_cores_def)
    have w: "worker_core p = [?r]" "worker_core q = []" by (simp_all add: worker_core_def notify)
    have "?r \<in> set (received (task_queue p))" using subseq_set [OF sp(1)] w by simp
    moreover have "?r \<notin> set (started p)" using sp(4) w by simp
    then have "\<forall>i < length (tasks p). mt_core (st_task (tasks p ! i)) \<noteq> ?r"
      using started_nth by metis
    ultimately show ?thesis using inv post w unfolding once_inv_def by (auto simp: notify(2))
  next
    case (spawn t s)
    show ?thesis
    proof (cases rule: dispatch_spawn_cases [of E p t s])
      case (1 b)
      have "posted_cores q = posted_cores p" by (simp add: posted_cores_def spawn(2) 1(2))
      then show ?thesis using inv spawn(1)
        by (auto simp: once_inv_def spawn(2) 1 worker_core_def nth_append less_Suc_eq)
    qed
  qed
qed

lemma once_task:
  assumes L: "lawful E" and r: "pool_reach E limit cap name p" and inv: "once_inv p"
    and st: "task_step E i p = Some q"
  shows "once_inv q"
proof -
  note fr = task_step_frame [OF st]
  let ?c = "\<lambda>t. mt_core (st_task t)"
  have w: "worker_core q = worker_core p" using fr by (simp add: worker_core_def)
  from st obtain t where t: "i < length (tasks p)" "tasks q = (tasks p)[i := t]" "st_task t = st_task (tasks p ! i)"
    and before: "before_notice t \<longrightarrow> before_notice (tasks p ! i) \<and> (\<forall>s. st_pc (tasks p ! i) \<noteq> TNotify s)"
    by (auto simp: task_step_def Let_def before_notice_def split: if_splits task_pc.splits option.splits)
  have nn: "j < length (tasks p) \<Longrightarrow> j \<noteq> i \<Longrightarrow> ?c (tasks p ! j) \<noteq> ?c (tasks p ! i)" for j
    using pool_started(4) [OF L r] t(1) nth_eq_iff_index_eq [of "started p" j i]
    by (simp add: started_def)
  have rec: "?c (tasks p ! i) \<in> set (received (task_queue p))"
    using subseq_set [OF pool_started(1) [OF L r]] t(1) by (auto simp: started_def)
  have "?c (tasks p ! i) \<in> set (started p)" using t(1) by (rule started_nth)
  then have wn: "?c (tasks p ! i) \<notin> set (worker_core p)" using pool_started(4) [OF L r] by auto
  show ?thesis
  proof (cases "\<exists>s. st_pc (tasks p ! i) = TNotify s")
    case True
    then obtain s where "st_pc (tasks p ! i) = TNotify s" by blast
    then have "posted_cores q = posted_cores p \<or> posted_cores q = posted_cores p @ [?c (tasks p ! i)]"
      using task_step_notifier [OF st] send_completion_posted [of "c_ops E"
          "\<lparr>cm_pool_name = pool_name p, cm_core = ?c (tasks p ! i), cm_status = s\<rparr>" "completion_notifier p"]
      by (auto simp: posted_cores_def)
    moreover have "\<not> before_notice t" "?c (tasks p ! i) \<notin> set (posted_cores p)"
      using before True inv t(1) by (auto simp: once_inv_def before_notice_def)
    ultimately show ?thesis using inv fr w t nn rec wn
      unfolding once_inv_def by (auto simp: nth_upd)
  next
    case False
    then have "posted_cores q = posted_cores p"
      using task_step_notifier [OF st] by (auto simp: posted_cores_def split: task_pc.splits)
    with inv fr w t before show ?thesis unfolding once_inv_def by (auto simp: nth_upd)
  qed
qed

interpretation once: relative_invariant "\<lambda>p. p = pool_new E limit cap name" "pool_step E"
    "\<lambda>p. lawful E \<longrightarrow> once_inv p" for E limit cap name
proof unfold_locales
  show "p = pool_new E limit cap name \<Longrightarrow> lawful E \<longrightarrow> once_inv p" for p
    by (simp add: once_inv_def posted_cores_def pool_new_def notifier_new_def)
  fix p e q
  assume r: "pool_reach E limit cap name p" and inv: "lawful E \<longrightarrow> once_inv p"
    and st: "pool_step E e p = Some q"
  show "lawful E \<longrightarrow> once_inv q"
  proof
    assume L: "lawful E"
    show "once_inv q"
    proof (cases "outside e")
      case True
      have "posted (completion_notifier q) = posted (completion_notifier p)"
        using run_clones [OF outside_notifier [OF st True] notifier_calls_kind] by blast
      with outside_frame [OF st True] outside_received [OF L st True] inv L show ?thesis
        by (simp add: once_inv_def posted_cores_def worker_core_def)
    next
      case False
      then consider "e = StepDispatcher" | i where "e = StepTask i" by (auto simp: outside_def)
      then show ?thesis
      proof cases
        case 1
        then show ?thesis using st inv L by (auto intro: once_dispatcher [OF L r])
      next
        case (2 i)
        then show ?thesis using st inv L by (auto intro: once_task [OF L r])
      qed
    qed
  qed
qed

lemma pool_once: "lawful E \<Longrightarrow> pool_reach E limit cap name p \<Longrightarrow> once_inv p"
  using once.reach_inv by blast

section \<open>Refused and abandoned submissions\<close>

text \<open>The tasks that entered the queue are those whose \<open>submit\<close> returned a handle.\<close>

lemma sent_accepted:
  assumes addr: "addresses p" and inv: "queue_inv C S n (task_queue p)" and r: "r < length (handles p)"
  shows "r \<in> set (sent (task_queue p)) \<longleftrightarrow> (\<exists>t. submit_result p r = Some (Inr t))"
proof -
  let ?s = "sends (task_queue p)"
  have m: "mset (sent (task_queue p)) = mset (map (mt_core \<circ> fst) (filter succeeded_send ?s))"
    using inv unfolding queue_inv_def by blast
  have a: "map (mt_core \<circ> fst) ?s = [0..<length (cores p)]" using addr by (simp add: addresses_def)
  then have len: "length ?s = length (cores p)" by (metis length_map length_upt diff_zero)
  have core: "mt_core (fst (?s ! i)) = i" if "i < length ?s" for i
    using arg_cong [OF a, where f = "\<lambda>xs. xs ! i"] that len by simp
  have "r \<in> set (sent (task_queue p)) \<longleftrightarrow> (\<exists>i < length ?s. succeeded_send (?s ! i) \<and> mt_core (fst (?s ! i)) = r)"
    unfolding mset_eq_setD [OF m] by (auto simp: in_set_conv_nth)
  also have "\<dots> \<longleftrightarrow> succeeded_send (?s ! r)" using core r len addresses_lengths(1) [OF addr] by auto
  finally show ?thesis by (auto simp: submit_result_def split: send_pc.splits sum.splits)
qed

lemma pool_send_over:
  assumes "run (pool_step E) es p = Some q" "pool_reach E limit cap name p"
    and "r < length (sends (task_queue p))" "send_over (snd (sends (task_queue p) ! r))"
  shows "r < length (sends (task_queue q)) \<and> sends (task_queue q) ! r = sends (task_queue p) ! r"
  using pool_queue.run_proj [OF assms(2,1)] queue_run_over [OF _ assms(3,4)] by blast

lemma pool_send_errors: "pool_reach E limit cap name p \<Longrightarrow> send_errors_ok (task_queue p)"
  using send_errors.reach_inv [OF pool_queue.reach_proj] .

end
