(* ===== verification/ManagerDeliver.thy ===== *)
theory ManagerDeliver
  imports ManagerAwait
begin

text \<open>
  No result stays away in the strict pool: every oneshot is settled (its sender was consumed or
  dropped) unless the task is still on its way: being submitted, queued, in the worker's hands or
  running and not yet reported.
\<close>

section \<open>Tasks on their way\<close>

fun worker_unanswered :: "'r dispatcher_pc \<Rightarrow> 'r managed_task list" where
  "worker_unanswered (DReceived t) = [t]"
| "worker_unanswered (DGot t) = [t]"
| "worker_unanswered (DInsert t) = [t]"
| "worker_unanswered (DSpawn t _) = [t]"
| "worker_unanswered _ = []"

fun task_unsent :: "'r task_pc \<Rightarrow> bool" where
  "task_unsent TPollFuture = True"
| "task_unsent (TReady _) = True"
| "task_unsent TPollCancel = True"
| "task_unsent (TSend _) = True"
| "task_unsent _ = False"

text \<open>The cores of the worker loop and of the tasks whose result has not been sent.\<close>

definition unsent_tasks :: "'r spawned_task list \<Rightarrow> core_ref set" where
  "unsent_tasks ts = {mt_core (st_task t) |t. t \<in> set ts \<and> task_unsent (st_pc t)}"

lemma unsent_tasks_append [simp]:
  "unsent_tasks [] = {}" "unsent_tasks (ts @ us) = unsent_tasks ts \<union> unsent_tasks us"
  "unsent_tasks [t] = (if task_unsent (st_pc t) then {mt_core (st_task t)} else {})"
  by (auto simp: unsent_tasks_def)

definition unsent_cores :: "('r, 'n, 's, 'q, 'c, 'o, 'h) pool \<Rightarrow> core_ref set" where
  "unsent_cores p =
     mt_core ` set (worker_unanswered (dispatcher p)) \<union> unsent_tasks (tasks p)"

definition on_its_way ::
  "('r, 'n, 's, 'q, 'c, 'o, 'h) env \<Rightarrow> ('r, 'n, 's, 'q, 'c, 'o, 'h) pool \<Rightarrow> core_ref \<Rightarrow> bool" where
  "on_its_way E p r \<longleftrightarrow>
     r < length (sends (task_queue p)) \<and> \<not> send_over (snd (sends (task_queue p) ! r)) \<or>
     r \<in> set (queued (q_ops E) (task_queue p)) \<or> r \<in> unsent_cores p"

definition deliver_inv ::
  "('r, 'n, 's, 'q, 'c, 'o, 'h) env \<Rightarrow> ('r, 'n, 's, 'q, 'c, 'o, 'h) pool \<Rightarrow> bool" where
  "deliver_inv E p \<longleftrightarrow> (\<forall>r < length (oneshots p). on_its_way E p r \<or> settled E p r)"

text \<open>A step keeps the invariant if it settles every oneshot whose task leaves the way.\<close>

lemma deliver_keep:
  assumes "deliver_inv E p" "settles E R (oneshots p) (oneshots q)"
    and "\<And>r. r < length (oneshots p) \<Longrightarrow> on_its_way E p r \<Longrightarrow> on_its_way E q r \<or> r \<in> R"
    and "length (oneshots q) = length (oneshots p)"
  shows "deliver_inv E q"
  using assms unfolding deliver_inv_def settles_def by metis

section \<open>Submissions and the calls from outside\<close>

lemma deliver_submit:
  assumes addr: "addresses p" and inv: "deliver_inv E p" and st: "submit_begin E ls f p = Inr q"
  shows "deliver_inv E q"
proof -
  let ?n = "length (cores p)"
  have l: "length (oneshots p) = ?n" "length (sends (task_queue p)) = ?n"
    using addresses_lengths [OF addr] by simp_all
  have q: "oneshots q = oneshots p @ [os_new (o_ops E)]"
    "task_queue q = queue_begin_send \<lparr>mt_core = ?n, mt_future = f\<rparr> (task_queue p)"
    "unsent_cores q = unsent_cores p"
    using st by (auto simp: submit_begin_def Let_def unsent_cores_def split: if_splits)
  have "on_its_way E q ?n" using l by (simp add: on_its_way_def q(2) queue_begin_send_def nth_append)
  moreover have "on_its_way E p r \<Longrightarrow> on_its_way E q r" for r
    unfolding on_its_way_def q(2,3) by (auto simp: queue_begin_send_def queued_def nth_append)
  ultimately show ?thesis
    using inv l unfolding deliver_inv_def q(1) by (auto simp: nth_append less_Suc_eq)
qed

lemma deliver_send:
  assumes L: "lawful E" and R: "oneshot_resolves (o_ops E)" and addr: "addresses p"
    and inv: "deliver_inv E p" and st: "step_send E w p = Some q"
  shows "deliver_inv E q"
proof -
  have C: "chan_laws (q_ops E)" and S: "sem_laws (s_ops E)" using L by (auto simp: lawful_def)
  obtain k where k: "queue_step_send (q_ops E) (s_ops E) (shutting_down p) w (task_queue p) = Some k"
    using st by (auto simp: step_send_def)
  then show ?thesis
  proof (cases rule: queue_step_send_cases)
    case (1 t pc pc' q')
    note e = send_step_effect [OF C S 1(3)]
    have wt: "mt_core t = w" using addr 1(1,2) addresses_lengths(3) [OF addr]
      by (auto simp: addresses_def dest: arg_cong [where f = "\<lambda>xs. xs ! w"])
    let ?os = "case pc' of SendDone (Inl _) \<Rightarrow> discard_oneshot E w (oneshots p) | _ \<Rightarrow> oneshots p"
    have q: "q = p\<lparr>task_queue := k, oneshots := ?os\<rparr>"
      using st k 1(1,4) e by (auto simp: step_send_def)
    have s: "sends k = (sends (task_queue p))[w := (t, pc')]"
      "queued (q_ops E) k = queued (q_ops E) (task_queue p) @ pushed t pc'"
      using 1(4) e by (auto simp: queued_def)
    let ?R = "case pc' of SendDone (Inl _) \<Rightarrow> {w} | _ \<Rightarrow> {}"
    have "settles E ?R (oneshots p) (oneshots q)"
      using settles_discard [OF R] by (auto simp: q split: send_pc.splits sum.splits)
    moreover have "on_its_way E q r \<or> r \<in> ?R" if "on_its_way E p r" for r
    proof (cases "r = w")
      case False
      with that s show ?thesis
        by (auto simp: on_its_way_def q unsent_cores_def)
    next
      case True
      have "pc' \<noteq> SendDropped" using 1(3) by (cases pc) (auto split: if_splits prod.splits)
      moreover have "w < length (sends k)" using 1(1) s by simp
      ultimately show ?thesis
        using True s 1(1) wt that by (cases pc') (auto simp: on_its_way_def q unsent_cores_def split: sum.splits)
    qed
    moreover have "length (oneshots q) = length (oneshots p)"
      by (simp add: q split: send_pc.splits sum.splits)
    ultimately show ?thesis by (rule deliver_keep [OF inv])
  qed
qed

lemma deliver_abandon:
  assumes R: "oneshot_resolves (o_ops E)" and inv: "deliver_inv E p" and st: "step_abandon E w p = Some q"
  shows "deliver_inv E q"
proof -
  obtain k where k: "queue_abandon_send (s_ops E) w (task_queue p) = Some k"
    and q: "q = p\<lparr>task_queue := k, oneshots := discard_oneshot E w (oneshots p)\<rparr>"
    using st by (auto simp: step_abandon_def)
  from k obtain t where s: "sends k = (sends (task_queue p))[w := (t, SendDropped)]" "chan k = chan (task_queue p)"
    by (rule queue_abandon_cases) blast
  show ?thesis
  proof (rule deliver_keep [OF inv])
    show "settles E {w} (oneshots p) (oneshots q)" by (simp add: q settles_discard [OF R])
    show "on_its_way E q r \<or> r \<in> {w}" if "on_its_way E p r" for r
      using that s by (cases "r = w") (auto simp: on_its_way_def q unsent_cores_def queued_def)
  qed (simp add: q)
qed

text \<open>Everything else from outside leaves the tasks where they are.\<close>

lemma outside_ways:
  assumes L: "lawful E" and st: "pool_step E e p = Some q" and out: "outside e"
    and e: "\<forall>ls f. e \<noteq> Submit ls f" "\<forall>r. e \<noteq> StepSubmit r" "\<forall>r. e \<noteq> AbandonSubmit r"
  shows "on_its_way E q = on_its_way E p \<and> sends (task_queue q) = sends (task_queue p)"
proof -
  have C: "chan_laws (q_ops E)" using L by (simp add: lawful_def)
  have "task_queue q = task_queue p \<or> task_queue q = queue_close (q_ops E) (task_queue p) \<or>
      task_queue q = queue_drop_producer (q_ops E) (task_queue p) \<or>
      task_queue q = queue_clone_producer (q_ops E) (task_queue p)"
  proof (cases e)
    case (StepShutdown i)
    with st shutdown_step_frame [of E i p q] show ?thesis by auto
  next
    case (TimeoutShutdown i)
    with st shutdown_timeout_frame [of i p q] show ?thesis by auto
  next
    case (StepDrop i)
    with st drop_step_frame [of E i p q] show ?thesis by auto
  qed (use st e out in \<open>auto simp: pool_op_defs outside_def Let_def
        split: if_splits option.splits sum.splits prod.splits\<close>)
  then have "queued (q_ops E) (task_queue q) = queued (q_ops E) (task_queue p) \<and>
      sends (task_queue q) = sends (task_queue p)"
    using queue_producer_queued [OF C]
    by (auto simp: queue_close_def queue_drop_producer_def queue_clone_producer_def)
  with outside_frame [OF st out] show ?thesis
    by (simp add: on_its_way_def unsent_cores_def fun_eq_iff)
qed

lemma outside_settles:
  assumes R: "oneshot_resolves (o_ops E)" and st: "pool_step E e p = Some q" and out: "outside e"
    and e: "\<forall>ls f. e \<noteq> Submit ls f" "\<forall>r. e \<noteq> StepSubmit r" "\<forall>r. e \<noteq> AbandonSubmit r"
  shows "settles E {} (oneshots p) (oneshots q)"
proof (cases e)
  case (AwaitResult r)
  with st show ?thesis
    by (auto simp: step_await_def intro: await_step_settles [OF R] split: option.splits sum.splits if_splits)
next
  case (Detach r)
  with st show ?thesis
    by (auto simp: step_detach_def intro: detach_step_settles [OF R] split: option.splits sum.splits if_splits)
next
  case (StepShutdown i)
  with st shutdown_step_frame [of E i p q] show ?thesis by simp
next
  case (TimeoutShutdown i)
  with st shutdown_timeout_frame [of i p q] show ?thesis by auto
next
  case (StepDrop i)
  with st drop_step_frame [of E i p q] show ?thesis by simp
qed (use st e out in \<open>auto simp: pool_op_defs outside_def Let_def
      split: if_splits option.splits sum.splits prod.splits\<close>)

section \<open>The worker loop and the tasks\<close>

lemma deliver_dispatcher:
  assumes L: "lawful E" and R: "oneshot_resolves (o_ops E)" and ok: "dispatcher q \<noteq> DPanicked"
    and inv: "deliver_inv E p" and st: "dispatcher_step E p = Some q"
  shows "deliver_inv E q"
proof -
  have C: "chan_laws (q_ops E)" and S: "sem_laws (s_ops E)" using L by (auto simp: lawful_def)
  note way = on_its_way_def unsent_cores_def
  have keep: "deliver_inv E q"
    if "settles E X (oneshots p) (oneshots q)" "length (oneshots q) = length (oneshots p)"
      "sends (task_queue q) = sends (task_queue p)"
      "set (queued (q_ops E) (task_queue p)) \<union> unsent_cores p \<subseteq>
         set (queued (q_ops E) (task_queue q)) \<union> unsent_cores q \<union> X" for X
    by (rule deliver_keep [OF inv that(1) _ that(2)]) (use that(3,4) in \<open>auto simp: on_its_way_def\<close>)
  have simple: "deliver_inv E q"
    if "oneshots q = oneshots p" "task_queue q = task_queue p" "unsent_cores p \<subseteq> unsent_cores q"
    by (rule keep [of "{}"]) (use that in auto)
  show ?thesis
  proof (cases "dispatcher p")
    case DPollRecv
    obtain x k where x: "queue_recv (q_ops E) (s_ops E) (task_queue p) = (x, k)" by fastforce
    from queue_recv_effect [OF C S x] x st DPollRecv show ?thesis
      by (intro keep [of "{}"]) (cases x; auto simp: dispatcher_step_def unsent_cores_def)+
  next
    case DExit
    obtain rs k where x: "queue_drop_consumer (q_ops E) (s_ops E) (task_queue p) = (rs, k)" by fastforce
    from queue_drop_consumer_effect [OF C S x] x st DExit settles_drop_senders [OF R, of rs "oneshots p"]
    show ?thesis by (intro keep [of "set rs"]) (auto simp: dispatcher_step_def unsent_cores_def)
  next
    case (DReceived t)
    with st have q: "q = (if shutting_down p
        then release_permit E (p\<lparr>oneshots := drop_senders E [mt_core t] (oneshots p), dispatcher := DExit\<rparr>)
        else p\<lparr>dispatcher := DGot t\<rparr>)"
      by (auto simp: dispatcher_step_def)
    show ?thesis
      using settles_drop_senders [OF R, of "[mt_core t]" "oneshots p"] DReceived
      by (intro keep [of "if shutting_down p then {mt_core t} else {}"]) (auto simp: q unsent_cores_def)
  next
    case (DGot t)
    with st have q: "q = (if core_cancelled p (mt_core t) then dispatch_cancelled E t p
        else p\<lparr>dispatcher := DInsert t\<rparr>)"
      by (auto simp: dispatcher_step_def)
    show ?thesis
      using settles_send [OF R, of "mt_core t" "oneshots p" "Inl TaskCancelled"] DGot
      by (intro keep [of "if core_cancelled p (mt_core t) then {mt_core t} else {}"])
        (auto simp: q dispatch_cancelled_def Let_def unsent_cores_def)
  next
    case (DInsert t)
    with st ok show ?thesis
      by (intro simple) (auto simp: dispatcher_step_def dispatch_insert_def unsent_cores_def split: sum.splits)
  next
    case (DSpawn t s)
    with st show ?thesis
      by (intro simple) (auto simp: dispatcher_step_def dispatch_spawn_def unsent_cores_def split: prod.splits)
  qed (insert st, (rule simple; auto simp: dispatcher_step_def dispatch_notify_def Let_def unsent_cores_def
        split: if_splits prod.splits)+)
qed

lemma deliver_task:
  assumes R: "oneshot_resolves (o_ops E)" and inv: "deliver_inv E p" and st: "task_step E i p = Some q"
  shows "deliver_inv E q"
proof -
  let ?t = "tasks p ! i"
  let ?r = "mt_core (st_task ?t)"
  let ?X = "case st_pc ?t of TSend _ \<Rightarrow> {?r} | _ \<Rightarrow> {}"
  have i: "i < length (tasks p)" using st by (auto simp: task_step_def split: if_splits)
  from st obtain t where t: "tasks q = (tasks p)[i := t]" "st_task t = st_task ?t"
    and unsent: "task_unsent (st_pc ?t) \<longrightarrow> task_unsent (st_pc t) \<or> (\<exists>res. st_pc ?t = TSend res)"
    by (auto simp: task_step_def Let_def split: if_splits task_pc.splits option.splits)
  note fr = task_step_frame [OF st]
  show ?thesis
  proof (rule deliver_keep [OF inv])
    show "settles E ?X (oneshots p) (oneshots q)"
      using st i settles_send [OF R]
      by (auto simp: task_step_def Let_def split: task_pc.splits option.splits)
    show "length (oneshots q) = length (oneshots p)" by (rule task_step_oneshots_length [OF st])
    fix r assume "on_its_way E p r"
    moreover have "r \<in> unsent_cores q \<or> r \<in> ?X" if "r \<in> unsent_cores p"
    proof -
      from that consider "r \<in> mt_core ` set (worker_unanswered (dispatcher p))"
        | j where "j < length (tasks p)" "r = mt_core (st_task (tasks p ! j))" "task_unsent (st_pc (tasks p ! j))"
        by (auto simp: unsent_cores_def unsent_tasks_def in_set_conv_nth)
      then show ?thesis
      proof cases
        case 1
        then show ?thesis using fr by (simp add: unsent_cores_def)
      next
        case (2 j)
        then have "tasks q ! j \<in> set (tasks q)" by (simp add: t(1))
        moreover have "task_unsent (st_pc (tasks q ! j)) \<or> r \<in> ?X"
          using 2 i t unsent by (cases "j = i") (auto simp: nth_upd split: task_pc.splits)
        moreover have "mt_core (st_task (tasks q ! j)) = r" using 2 i t by (auto simp: nth_upd)
        ultimately show ?thesis unfolding unsent_cores_def unsent_tasks_def by blast
      qed
    qed
    ultimately show "on_its_way E q r \<or> r \<in> ?X" using fr by (auto simp: on_its_way_def)
  qed
qed

lemma deliver_step:
  assumes L: "lawful E" and R: "oneshot_resolves (o_ops E)" and addr: "addresses p"
    and ok: "dispatcher q \<noteq> DPanicked" and inv: "deliver_inv E p" and st: "pool_step E e p = Some q"
  shows "deliver_inv E q"
proof -
  consider (sub) ls f where "e = Submit ls f" | (send) r where "e = StepSubmit r" | (drop) r where "e = AbandonSubmit r"
    | (worker) "e = StepDispatcher" | (task) i where "e = StepTask i"
    | (rest) "outside e" "\<forall>ls f. e \<noteq> Submit ls f" "\<forall>r. e \<noteq> StepSubmit r" "\<forall>r. e \<noteq> AbandonSubmit r"
    unfolding outside_def by blast
  then show ?thesis
  proof cases
    case sub
    with st inv show ?thesis
      by (cases "submit_begin E ls f p") (auto simp: with_manager_def split: if_splits intro: deliver_submit [OF addr])
  next
    case send
    with st deliver_send [OF L R addr inv] show ?thesis by simp
  next
    case drop
    with st deliver_abandon [OF R inv] show ?thesis by simp
  next
    case worker
    with st deliver_dispatcher [OF L R ok inv] show ?thesis by simp
  next
    case task
    with st deliver_task [OF R inv] show ?thesis by simp
  next
    case rest
    have s: "settles E {} (oneshots p) (oneshots q)" by (rule outside_settles [OF R st rest])
    note same = outside_ways [OF L st rest]
    have "length (oneshots q) = length (oneshots p)"
      using addresses_lengths(2,3) [OF addr] addresses_lengths(2,3) [OF addresses_step [OF L addr st]] same by simp
    with deliver_keep [OF inv s] same show ?thesis by simp
  qed
qed

interpretation delivered: relative_invariant "\<lambda>p. p = pool_new E limit cap name" "pool_step E"
    "\<lambda>p. lawful E \<longrightarrow> oneshot_resolves (o_ops E) \<longrightarrow> deliver_inv E p" for E limit cap name
proof unfold_locales
  show "p = pool_new E limit cap name \<Longrightarrow> lawful E \<longrightarrow> oneshot_resolves (o_ops E) \<longrightarrow> deliver_inv E p" for p
    by (simp add: deliver_inv_def pool_new_def)
  fix p e q
  assume r: "pool_reach E limit cap name p" and st: "pool_step E e p = Some q"
    and inv: "lawful E \<longrightarrow> oneshot_resolves (o_ops E) \<longrightarrow> deliver_inv E p"
  show "lawful E \<longrightarrow> oneshot_resolves (o_ops E) \<longrightarrow> deliver_inv E q"
  proof (intro impI)
    assume L: "lawful E" and R: "oneshot_resolves (o_ops E)"
    have "dispatcher q \<noteq> DPanicked" using pool_running [OF L reach_step [OF r st]] by (simp add: running_inv_def)
    with inv L R show "deliver_inv E q" by (intro deliver_step [OF L R pool_addresses [OF L r] _ _ st]) simp_all
  qed
qed

lemma pool_delivered:
  "lawful E \<Longrightarrow> oneshot_resolves (o_ops E) \<Longrightarrow> pool_reach E limit cap name p \<Longrightarrow> deliver_inv E p"
  using delivered.reach_inv by blast

end
