(* ===== verification/ManagerReports.thy ===== *)
theory ManagerReports
  imports ManagerAwait
begin

text \<open>
  Completions are reported exactly. Along a run, the results sent while the sender of the result
  holds a clone of the completion sender are written down; the messages posted are those results,
  each once, except the ones that are just being posted.
\<close>

section \<open>What is to be reported\<close>

text \<open>
  The message for the outcome \<open>res\<close> of task \<open>r\<close>, and what an observer writes down: a task that sends
  its result and holds a clone, and the worker loop as it takes a clone for a task it answered.
\<close>

definition reports ::
  "('r, 'h) pool_event \<Rightarrow> ('r, 'n, 's, 'q, 'c, 'o, 'h) pool \<Rightarrow> internal_completion_message list" where
  "reports e p =
     (case e of
        StepTask i \<Rightarrow>
          (case st_pc (tasks p ! i) of
             TSend res \<Rightarrow> if st_notify (tasks p ! i) then [completion_of p (mt_core (st_task (tasks p ! i))) res] else []
           | _ \<Rightarrow> [])
      | StepDispatcher \<Rightarrow>
          (case dispatcher p of
             DCancelled t \<Rightarrow> if sink_open p then [completion_of p (mt_core t) (Inl TaskCancelled)] else []
           | _ \<Rightarrow> [])
      | _ \<Rightarrow> [])"

text \<open>Every started task, and whether the sink was open when it was spawned.\<close>

definition launches :: "('r, 'h) pool_event \<Rightarrow> ('r, 'n, 's, 'q, 'c, 'o, 'h) pool \<Rightarrow> (core_ref \<times> bool) list" where
  "launches e p =
     (case e of
        StepDispatcher \<Rightarrow> (case dispatcher p of DSpawn t s \<Rightarrow> [(mt_core t, sink_open p)] | _ \<Rightarrow> [])
      | _ \<Rightarrow> [])"

text \<open>The messages about to be posted.\<close>

definition task_unposted :: "string \<Rightarrow> 'r spawned_task \<Rightarrow> internal_completion_message list" where
  "task_unposted name t =
     (case st_pc t of
        TNotify s \<Rightarrow> [\<lparr>cm_pool_name = name, cm_core = mt_core (st_task t), cm_status = s\<rparr>] | _ \<Rightarrow> [])"

definition worker_unposted :: "string \<Rightarrow> 'r dispatcher_pc \<Rightarrow> internal_completion_message list" where
  "worker_unposted name d =
     (case d of
        DNotify t \<Rightarrow> [\<lparr>cm_pool_name = name, cm_core = mt_core t, cm_status = Cancelled\<rparr>] | _ \<Rightarrow> [])"

definition unposted :: "('r, 'n, 's, 'q, 'c, 'o, 'h) pool \<Rightarrow> internal_completion_message list" where
  "unposted p = worker_unposted (pool_name p) (dispatcher p) @ concat (map (task_unposted (pool_name p)) (tasks p))"

section \<open>The accounts\<close>

definition report_inv ::
  "internal_completion_message list \<Rightarrow> ('r, 'n, 's, 'q, 'c, 'o, 'h) pool \<Rightarrow> bool" where
  "report_inv ms p \<longleftrightarrow> mset ms = mset (posted (completion_notifier p)) + mset (unposted p)"

definition launch_inv :: "(core_ref \<times> bool) list \<Rightarrow> ('r, 'n, 's, 'q, 'c, 'o, 'h) pool \<Rightarrow> bool" where
  "launch_inv ls p \<longleftrightarrow> ls = map (\<lambda>t. (mt_core (st_task t), st_notify t)) (tasks p)"

lemma outside_reports:
  assumes "pool_step E e p = Some q" "outside e"
  shows "reports e p = [] \<and> launches e p = [] \<and> posted (completion_notifier q) = posted (completion_notifier p) \<and>
    unposted q = unposted p \<and> tasks q = tasks p"
proof -
  have "posted (completion_notifier q) = posted (completion_notifier p)"
    using run_clones [OF outside_notifier [OF assms] notifier_calls_kind] by blast
  with outside_frame [OF assms] assms(2) show ?thesis
    by (auto simp: reports_def launches_def unposted_def outside_def split: pool_event.splits)
qed

lemma report_dispatcher:
  assumes acc: "chan_accepts (c_ops E)" and reach: "pool_reach E limit cap name p"
    and inv: "report_inv ms p" and st: "dispatcher_step E p = Some q"
  shows "report_inv (ms @ reports StepDispatcher p) q"
proof -
  have name: "pool_name q = pool_name p" using dispatcher_step_frame [OF st] by simp
  note defs = report_inv_def unposted_def worker_unposted_def
  from st show ?thesis
  proof (cases rule: dispatcher_notifier)
    case quiet
    have "worker_unposted name (dispatcher q) = []" for name
      using quiet(5) by (cases "dispatcher q") (auto simp: worker_unposted_def)
    moreover have "worker_unposted name (dispatcher p) = []" "reports StepDispatcher p = []" for name
      using quiet(1,2) by (cases "dispatcher p"; auto simp: worker_unposted_def reports_def)+
    ultimately show ?thesis using inv name quiet(4,6) by (auto simp: report_inv_def unposted_def)
  next
    case (sender t b n)
    have b: "b = sink_open p" using sink_sender_open [of "c_ops E" p] sender(2) by simp
    have n: "posted n = posted (completion_notifier p)"
      using notifier_op_posted(3) [of "c_ops E" "completion_notifier p"] sender(2) by simp
    show ?thesis using inv sender(1) b n
      by (auto simp: sender(3) defs reports_def completion_of_def)
  next
    case (notify t)
    have "posted (completion_notifier q) = posted (completion_notifier p) @
        [\<lparr>cm_pool_name = pool_name p, cm_core = mt_core t, cm_status = Cancelled\<rparr>]"
      using send_completion_accepted [OF acc pool_notifier_reach [OF reach]] by (simp add: notify(2))
    with notify inv name show ?thesis by (simp add: defs reports_def)
  next
    case (spawn t s)
    show ?thesis
      by (cases rule: dispatch_spawn_cases [of E p t s])
        (use inv spawn name [unfolded spawn(2)] in \<open>auto simp: defs reports_def task_unposted_def\<close>)
  qed
qed

lemma report_task:
  assumes acc: "chan_accepts (c_ops E)" and reach: "pool_reach E limit cap name p"
    and inv: "report_inv ms p" and st: "task_step E i p = Some q"
  shows "report_inv (ms @ reports (StepTask i) p) q"
proof -
  let ?t = "tasks p ! i" and ?n = "pool_name p"
  note fr = task_step_frame [OF st]
  have i: "i < length (tasks p)" using st by (auto simp: task_step_def split: if_splits)
  from st obtain t where t: "tasks q = (tasks p)[i := t]" "st_task t = st_task ?t"
    and new: "reports (StepTask i) p = task_unposted ?n t"
    by (auto simp: task_step_def reports_def task_unposted_def completion_of_def Let_def
        split: if_splits task_pc.splits option.splits)
  have "posted (completion_notifier q) = posted (completion_notifier p) @ task_unposted ?n ?t"
    using task_step_notifier [OF st] send_completion_accepted [OF acc pool_notifier_reach [OF reach]]
    by (simp add: task_unposted_def split: task_pc.splits)
  moreover have "mset (unposted q) + mset (task_unposted ?n ?t) = mset (unposted p) + mset (task_unposted ?n t)"
    using mset_concat_update [OF i, of "task_unposted ?n" t] fr by (simp add: unposted_def t(1))
  ultimately show ?thesis using inv new by (auto simp: report_inv_def ac_simps)
qed

interpretation reported: logged "\<lambda>p. p = pool_new E limit cap name" "pool_step E" reports
    "\<lambda>ms p. chan_accepts (c_ops E) \<longrightarrow> report_inv ms p" for E limit cap name
proof unfold_locales
  show "p = pool_new E limit cap name \<Longrightarrow> chan_accepts (c_ops E) \<longrightarrow> report_inv [] p" for p
    by (simp add: report_inv_def unposted_def worker_unposted_def pool_new_def notifier_new_def)
  fix p ms e q
  assume r: "pool_reach E limit cap name p" and inv: "chan_accepts (c_ops E) \<longrightarrow> report_inv ms p"
    and st: "pool_step E e p = Some q"
  show "chan_accepts (c_ops E) \<longrightarrow> report_inv (ms @ reports e p) q"
  proof
    assume acc: "chan_accepts (c_ops E)"
    consider "outside e" | "e = StepDispatcher" | i where "e = StepTask i" by (auto simp: outside_def)
    then show "report_inv (ms @ reports e p) q"
    proof cases
      case 1
      with outside_reports [OF st 1] inv acc show ?thesis by (simp add: report_inv_def)
    next
      case 2
      with report_dispatcher [OF acc r] inv acc st show ?thesis by simp
    next
      case (3 i)
      with report_task [OF acc r] inv acc st show ?thesis by simp
    qed
  qed
qed

interpretation launched: logged "\<lambda>p. p = pool_new E limit cap name" "pool_step E" launches launch_inv
  for E limit cap name
proof unfold_locales
  show "p = pool_new E limit cap name \<Longrightarrow> launch_inv [] p" for p by (simp add: launch_inv_def pool_new_def)
  fix p ls e q
  assume inv: "launch_inv ls p" and st: "pool_step E e p = Some q"
  consider "outside e" | "e = StepDispatcher" | i where "e = StepTask i" by (auto simp: outside_def)
  then show "launch_inv (ls @ launches e p) q"
  proof cases
    case 1
    with outside_reports [OF st 1] inv show ?thesis by (simp add: launch_inv_def)
  next
    case 2
    with st have "dispatcher_step E p = Some q" by simp
    then show ?thesis
    proof (cases rule: dispatcher_notifier)
      case quiet
      with 2 inv show ?thesis by (auto simp: launch_inv_def launches_def split: dispatcher_pc.splits)
    next
      case (spawn t s)
      show ?thesis
        by (cases rule: dispatch_spawn_cases [of E p t s])
          (use 2 inv spawn sink_sender_open [of "c_ops E" p] in \<open>auto simp: launch_inv_def launches_def\<close>)
    qed (use 2 inv in \<open>auto simp: launch_inv_def launches_def\<close>)
  next
    case (3 i)
    with st obtain t where "i < length (tasks p)" "tasks q = (tasks p)[i := t]" "st_task t = st_task (tasks p ! i)"
      "st_notify t = st_notify (tasks p ! i)"
      by (auto simp: task_step_def Let_def split: if_splits task_pc.splits option.splits)
    then show ?thesis using 3 inv by (simp add: launch_inv_def launches_def map_id_update)
  qed
qed

section \<open>No task is left out\<close>

text \<open>A task that holds a clone and has sent its result is written down.\<close>

fun past_send :: "'r task_pc \<Rightarrow> bool" where
  "past_send (TNotify _) = True"
| "past_send TRelease = True"
| "past_send TRemove = True"
| "past_send TDone = True"
| "past_send _ = False"

definition told :: "internal_completion_message list \<Rightarrow> ('r, 'n, 's, 'q, 'c, 'o, 'h) pool \<Rightarrow> bool" where
  "told ms p \<longleftrightarrow> (\<forall>t \<in> set (tasks p). st_notify t \<and> past_send (st_pc t) \<longrightarrow> mt_core (st_task t) \<in> cm_core ` set ms)"

lemma told_task:
  assumes inv: "told ms p" and st: "task_step E i p = Some q"
  shows "told (ms @ reports (StepTask i) p) q"
proof -
  from st have i: "i < length (tasks p)" by (auto simp: task_step_def split: if_splits)
  then have mem: "tasks p ! i \<in> set (tasks p)" by simp
  from st obtain t where q: "tasks q = (tasks p)[i := t]" "st_task t = st_task (tasks p ! i)"
      "st_notify t = st_notify (tasks p ! i)"
    and past: "st_notify t \<and> past_send (st_pc t) \<longrightarrow>
      past_send (st_pc (tasks p ! i)) \<or> mt_core (st_task t) \<in> cm_core ` set (reports (StepTask i) p)"
    by (auto simp: task_step_def reports_def completion_of_def Let_def split: if_splits task_pc.splits option.splits)
  have "st_notify x \<and> past_send (st_pc x) \<longrightarrow> mt_core (st_task x) \<in> cm_core ` set (ms @ reports (StepTask i) p)"
    if "x \<in> set (tasks q)" for x
  proof (cases "x \<in> set (tasks p)")
    case True
    with inv show ?thesis by (auto simp: told_def)
  next
    case False
    with that q(1) set_update_subset_insert [of "tasks p" i t] have x: "x = t" by auto
    show ?thesis unfolding x using past inv mem q(2,3) by (auto simp: told_def)
  qed
  then show ?thesis by (simp add: told_def)
qed

interpretation told: logged "\<lambda>p. p = pool_new E limit cap name" "pool_step E" reports told for E limit cap name
proof unfold_locales
  show "p = pool_new E limit cap name \<Longrightarrow> told [] p" for p by (simp add: told_def pool_new_def)
  fix p ms e q
  assume inv: "told ms p" and st: "pool_step E e p = Some q"
  consider "outside e" | "e = StepDispatcher" | i where "e = StepTask i" by (auto simp: outside_def)
  then show "told (ms @ reports e p) q"
  proof cases
    case 1
    with outside_reports [OF st 1] inv show ?thesis by (simp add: told_def)
  next
    case 2
    with st have "dispatcher_step E p = Some q" by simp
    then have "tasks q = tasks p \<or> (\<exists>t. tasks q = tasks p @ [t] \<and> st_pc t = TPollFuture)"
    proof (cases rule: dispatcher_notifier)
      case (spawn t s)
      show ?thesis by (cases rule: dispatch_spawn_cases [of E p t s]) (use spawn in auto)
    qed auto
    with inv show ?thesis by (auto simp: told_def)
  next
    case (3 i)
    with told_task [OF inv] st show ?thesis by simp
  qed
qed

section \<open>No task is reported twice\<close>

lemma task_unposted_cores:
  "map cm_core (concat (map (task_unposted n) ts)) =
     map (mt_core \<circ> st_task) (filter (\<lambda>t. \<exists>s. st_pc t = TNotify s) ts)"
  by (induction ts) (auto simp: task_unposted_def split: task_pc.splits)

lemma worker_unposted_cores:
  "set (map cm_core (worker_unposted (pool_name p) (dispatcher p))) \<subseteq> set (worker_core p) \<and>
     distinct (map cm_core (worker_unposted (pool_name p) (dispatcher p)))"
  by (cases "dispatcher p") (auto simp: worker_unposted_def worker_core_def)

lemma reports_distinct:
  assumes L: "lawful E" and r: "pool_reach E limit cap name p" and inv: "report_inv ms p"
  shows "distinct (map cm_core ms)"
proof -
  let ?w = "map cm_core (worker_unposted (pool_name p) (dispatcher p))"
  let ?ts = "filter (\<lambda>t. \<exists>s. st_pc t = TNotify s) (tasks p)"
  let ?t = "map (mt_core \<circ> st_task) ?ts"
  note once = pool_once [OF L r, unfolded once_inv_def]
  have st: "distinct (started p @ worker_core p)" by (rule pool_started [OF L r])
  have w: "set ?w \<subseteq> set (worker_core p)" "distinct ?w" using worker_unposted_cores [of p] by blast+
  have t: "distinct ?t" using st by (simp add: started_def distinct_map_filter)
  have ts: "set ?t \<subseteq> set (started p)" by (auto simp: started_def)
  have "set (posted_cores p) \<inter> set ?t = {}"
  proof -
    have "mt_core (st_task x) \<notin> set (posted_cores p)" if "x \<in> set ?ts" for x
    proof -
      from that obtain i where "i < length (tasks p)" "x = tasks p ! i" "before_notice x"
        by (auto simp: in_set_conv_nth before_notice_def)
      with once show ?thesis by blast
    qed
    then show ?thesis by auto
  qed
  moreover have "set (posted_cores p) \<inter> set ?w = {}" "distinct (posted_cores p)" using once w by blast+
  moreover have "set ?w \<inter> set ?t = {}" using st w ts unfolding distinct_append by blast
  ultimately have d: "distinct (posted_cores p @ ?w @ ?t)"
    using w(2) t unfolding distinct_append set_append by blast
  have "mset (map cm_core ms) = image_mset cm_core (mset (posted (completion_notifier p) @ unposted p))"
    using inv by (simp add: report_inv_def)
  also have "\<dots> = mset (posted_cores p @ ?w @ ?t)"
    unfolding mset_map [symmetric] unposted_def map_append task_unposted_cores by (simp add: posted_cores_def)
  finally show ?thesis using d by (metis mset_eq_imp_distinct_iff)
qed

end
