(* ===== verification/ManagerExample.thy ===== *)
theory ManagerExample
  imports Manager
begin

text \<open>
  Concrete runs of a pool on the concrete crates of \<open>Externals\<close>, for the witnesses: concurrency 1,
  queue capacity 2, one completion handler that panics, and two tasks.
\<close>

type_synonym example_pool =
  "(nat, nat set \<times> nat set, nat, nat queue_message list \<times> bool \<times> nat,
    internal_completion_message list \<times> bool \<times> nat, nat task_result option \<times> bool, bool) pool"

definition example_env ::
  "(nat, nat set \<times> nat set, nat, nat queue_message list \<times> bool \<times> nat,
    internal_completion_message list \<times> bool \<times> nat, nat task_result option \<times> bool, bool) env" where
  "example_env = \<lparr>n_ops = set_notify, s_ops = counting_sem, q_ops = list_chan, c_ops = list_chan,
     o_ops = option_oneshot, handler_panics = (\<lambda>h _. h), recv_error_text = ''disconnected''\<rparr>"

lemma example_lawful: "lawful example_env"
  by (simp add: lawful_def example_env_def law_simps)

lemma example_resolves: "oneshot_resolves (o_ops example_env)"
  by (simp add: example_env_def option_oneshot_resolves)

lemma example_accepts: "chan_accepts (c_ops example_env)"
  by (simp add: example_env_def list_chan_accepts)

abbreviation example_new :: example_pool where
  "example_new \<equiv> pool_new example_env 1 2 ''p''"

abbreviation example_run :: "(nat, bool) pool_event list \<Rightarrow> example_pool option" where
  "example_run es \<equiv> run (pool_step example_env) es example_new"

abbreviation example_reach :: "example_pool \<Rightarrow> bool" where
  "example_reach \<equiv> pool_reach example_env 1 2 ''p''"

definition after :: "(nat, bool) pool_event list \<Rightarrow> example_pool" where
  "after es = (case example_run es of Some p \<Rightarrow> p | None \<Rightarrow> example_new)"

lemma after_run: "example_run es \<noteq> None \<Longrightarrow> example_run es = Some (after es)"
  by (auto simp: after_def)

lemma reach_after: "example_run es \<noteq> None \<Longrightarrow> example_reach (after es)"
  by (rule reach_run [OF reach_init after_run]) simp_all

lemma run_after:
  assumes "example_run es \<noteq> None" "example_run (es @ fs) \<noteq> None"
  shows "run (pool_step example_env) fs (after es) = Some (after (es @ fs))"
  using assms by (auto simp: after_def run_append)

section \<open>Runs\<close>

definition two_submitted :: "(nat, bool) pool_event list" where
  "two_submitted = [AddHandlerInit, AddHandlerPush True] @
     Submit {''a''} (\<lambda>k. if k = 0 then Pending else Ready 7) # replicate 4 (StepSubmit 0) @
     Submit {''b''} (\<lambda>k. Ready 8) # replicate 4 (StepSubmit 1)"

definition first_started :: "(nat, bool) pool_event list" where
  "first_started = two_submitted @ replicate 8 StepDispatcher"

definition first_finished :: "(nat, bool) pool_event list" where
  "first_finished = first_started @ replicate 8 (StepTask 0) @ [AwaitResult 0, AwaitResult 0]"

definition first_cancelled :: "(nat, bool) pool_event list" where
  "first_cancelled = first_started @ [StepTask 0, CancelHandle 0]"

definition stopping :: "(nat, bool) pool_event list" where
  "stopping = first_started @ Shutdown ForcefulCancel # replicate 3 (StepShutdown 0)"

lemma example_runs:
  "example_run two_submitted \<noteq> None" "example_run first_started \<noteq> None"
  "example_run first_finished \<noteq> None" "example_run first_cancelled \<noteq> None"
  "example_run stopping \<noteq> None"
  by code_simp+

lemma example_facts:
  "map (mt_core \<circ> st_task) (tasks (after first_started)) = [0]"
  "hs_result (handles (after first_finished) ! 0) = Some (Inr 7)"
  "shutdowns (after stopping) = [HSweep]"
  by code_simp+

end
