(* ===== verification/ManagerProps.thy ===== *)
theory ManagerProps
  imports ManagerSpec ManagerCancel ManagerDeliver ManagerReports ManagerExample
begin

text \<open>
  The properties of the strict pool, each for every reachable state and every interleaving of
  submissions, worker loop, tasks, handles, handlers, shutdowns and drops.
\<close>

section \<open>Running tasks\<close>

text \<open>
  C1. The strict pool implements the abstract one: every run of the pool from a reachable state
  is a run of the specification, in which tasks are accepted once, started oldest first and
  only while fewer than \<open>max limit 1\<close> run, discarded oldest first, and finish once.
\<close>

theorem pool_refines_spec:
  assumes "lawful E" "pool_reach E limit cap name p" "run (pool_step E) es p = Some q"
  shows "\<exists>fs. run (spec_step (max limit 1)) fs (abs_pool E p) = Some (abs_pool E q) \<and>
           spec_ok (max limit 1) (abs_pool E q)"
proof -
  have r: "reach (\<lambda>p. lawful E \<and> p = pool_new E limit cap name) (pool_step E) p"
    using assms(1,2) by simp
  have "spec_ok (max limit 1) (abs_pool E q)"
    using abstract_pool.reach_inv [OF refinement.reach_proj [OF reach_run [OF r assms(3)]]] .
  with refinement.run_proj [OF r assms(3)] show ?thesis by blast
qed

lemma pool_refines_spec_witness:
  "\<exists>fs. run (spec_step 1) fs (abs_pool example_env (after two_submitted)) =
          Some (abs_pool example_env (after first_started)) \<and>
        running (abs_pool example_env (after first_started)) = {0}"
proof -
  have "run (pool_step example_env) (replicate 8 StepDispatcher) (after two_submitted) =
      Some (after first_started)"
    using run_after [of two_submitted "replicate 8 StepDispatcher"] example_runs
    by (simp add: first_started_def)
  from pool_refines_spec [OF example_lawful reach_after this, OF example_runs(1)]
  have "\<exists>fs. run (spec_step 1) fs (abs_pool example_env (after two_submitted)) =
      Some (abs_pool example_env (after first_started))" by auto
  moreover have "running (abs_pool example_env (after first_started)) = {0}" by code_simp
  ultimately show ?thesis by blast
qed

text \<open>
  C6. The concurrency limit. Every permit of the gate is available, held by the worker loop or
  held by exactly one unfinished task, so at most \<open>max limit 1\<close> tasks run at once.
\<close>

theorem concurrency_limited:
  assumes "lawful E" "pool_reach E limit cap name p"
  shows "gate_get_permits (s_ops E) (concurrency_gate p) + of_bool (worker_holds (dispatcher p)) +
           count_if task_holds (tasks p) = max limit 1 \<and>
         count_if task_holds (tasks p) \<le> max limit 1"
  using pool_running [OF assms] by (simp add: running_inv_def permits_inv_def)

lemma concurrency_limited_witness:
  "count_if task_holds (tasks (after first_started)) = 1 \<and>
   gate_get_permits (s_ops example_env) (concurrency_gate (after first_started)) = 0"
proof -
  have "count_if task_holds (tasks (after first_started)) = 1" by code_simp
  with concurrency_limited [OF example_lawful reach_after [OF example_runs(2)]] show ?thesis by simp
qed

text \<open>
  C30. The registry of active tasks is exact: it holds the started tasks whose continuation has
  not yet removed them, with the one that the worker loop is about to spawn, and no others;
  \<open>active_task_count\<close> returns their number without underflow, and no operation on it ever panics
  in the worker loop.
\<close>

theorem active_registry_exact:
  assumes "lawful E" "pool_reach E limit cap name p"
  shows "active_task_count p = Inr (count_if task_registered (launched p)) \<and>
         set (slots_all_tokens (active_task_info p)) = active_cores p \<and>
         dispatcher p \<noteq> DPanicked"
proof -
  note run = pool_running [OF assms]
  then have "slots_wf (active_task_info p)" "occupied (active_task_info p) = count_if task_registered (launched p)"
    by (simp_all add: running_inv_def registry_inv_def)
  with run running_active [OF run] show ?thesis
    by (simp add: running_inv_def active_task_count_def slots_len_occupied)
qed

lemma active_registry_exact_witness:
  "active_task_count (after first_started) = Inr 1"
proof -
  have "count_if task_registered (launched (after first_started)) = 1" by code_simp
  with active_registry_exact [OF example_lawful reach_after [OF example_runs(2)]] show ?thesis by simp
qed

text \<open>
  C22. Tasks start in submission order and at most once. The started tasks are a subsequence of
  the tasks that left the queue, which left it in the order in which their sends succeeded, and
  \<open>queued_task_count\<close> counts the sent tasks that have not left it.
\<close>

theorem tasks_start_in_order:
  assumes "lawful E" "pool_reach E limit cap name p"
  shows "subseq (started p) (received (task_queue p)) \<and> distinct (started p) \<and>
         sent (task_queue p) = received (task_queue p) @ queued (q_ops E) (task_queue p) \<and>
         distinct (sent (task_queue p)) \<and>
         length (sent (task_queue p)) = length (received (task_queue p)) + queued_task_count E p"
proof -
  note s = pool_started [OF assms]
  have "chan_laws (q_ops E)" using assms(1) by (simp add: lawful_def)
  then have "queued_task_count E p = length (queued (q_ops E) (task_queue p))"
    by (simp add: queued_task_count_def queue_len_def queued_def ch_len_items)
  with s(2,3,4) subseq_drop_last [OF s(1)] show ?thesis by auto
qed

lemma tasks_start_in_order_witness:
  "subseq [0] (received (task_queue (after first_started))) \<and>
   queued_task_count example_env (after first_started) = 1"
proof -
  have "queued_task_count example_env (after first_started) = 1" by code_simp
  with tasks_start_in_order [OF example_lawful reach_after [OF example_runs(2)]] example_facts(1)
  show ?thesis by (simp add: started_def)
qed

text \<open>
  C38. A refused submission leaves no trace. A task enters the queue exactly if its \<open>submit\<close>
  returns a handle. When \<open>submit\<close> has returned an error, or its future has been dropped, then in
  every continuation its outcome stands, the error is \<open>PoolShuttingDown\<close> or
  \<open>QueueSendChannelClosed\<close>, and the task is never queued, never received, never started and never
  reported.
\<close>

theorem refused_submission_leaves_no_trace:
  assumes "lawful E" "pool_reach E limit cap name p" "run (pool_step E) es p = Some q" "r < length (handles p)"
    and "(\<exists>e. submit_result p r = Some (Inl e)) \<or> snd (sends (task_queue p) ! r) = SendDropped"
  shows "submit_result q r = submit_result p r \<and>
    (\<forall>e. submit_result q r = Some (Inl e) \<longrightarrow> e = PoolShuttingDown \<or> e = QueueSendChannelClosed) \<and>
    (\<forall>x < length (handles q). x \<in> set (sent (task_queue q)) \<longleftrightarrow> (\<exists>t. submit_result q x = Some (Inr t))) \<and>
    r \<notin> set (sent (task_queue q)) \<and> r \<notin> set (queued (q_ops E) (task_queue q)) \<and>
    r \<notin> set (received (task_queue q)) \<and> r \<notin> set (started q) \<and> r \<notin> set (posted_cores q)"
proof -
  let ?x = "sends (task_queue p) ! r"
  have reach: "pool_reach E limit cap name q" by (rule reach_run [OF assms(2,3)])
  note addr = pool_addresses [OF assms(1) reach] and inv = pool_queue_inv [OF assms(1) reach]
  note addr_p = addresses_lengths [OF pool_addresses [OF assms(1,2)]] and addr_q = addresses_lengths [OF addr]
  have over: "send_over (snd ?x)" and no: "\<not> (\<exists>t. submit_result p r = Some (Inr t))"
    using assms(5) by (auto simp: submit_result_def split: send_pc.splits sum.splits)
  have r: "r < length (sends (task_queue p))" using assms(4) addr_p by simp
  note same = pool_send_over [OF assms(3,2) r over]
  then have rq: "r < length (handles q)" using addr_q by simp
  have res: "submit_result q r = submit_result p r"
    using no same by (auto simp: submit_result_def split: send_pc.splits sum.splits)
  have err: "e = PoolShuttingDown \<or> e = QueueSendChannelClosed" if "submit_result q r = Some (Inl e)" for e
  proof -
    have "snd (sends (task_queue q) ! r) = SendDone (Inl e)"
      using that by (auto simp: submit_result_def split: send_pc.splits sum.splits)
    with pool_send_errors [OF reach] same nth_mem show ?thesis unfolding send_errors_ok_def by metis
  qed
  note s = pool_started [OF assms(1) reach]
  have sent: "r \<notin> set (sent (task_queue q))" using sent_accepted [OF addr inv rq] no res by simp
  moreover have "set (started q) \<subseteq> set (received (task_queue q))" by (rule subseq_set [OF subseq_drop_last [OF s(1)]])
  moreover have "set (posted_cores q) \<subseteq> set (received (task_queue q))"
    using pool_once [OF assms(1) reach] by (simp add: once_inv_def)
  ultimately show ?thesis using res err s(2) sent_accepted [OF addr inv] by auto
qed

text \<open>The first task is running, the pool shuts down, and a second submission finds it closed.\<close>

definition second_refused :: "(nat, bool) pool_event list" where
  "second_refused = Submit {} (\<lambda>k. Ready 7) # replicate 4 (StepSubmit 0) @
     Submit {} (\<lambda>k. Ready 8) # StepSubmit 1 # CloneManager # Shutdown Graceful # replicate 2 (StepShutdown 0) @ [StepSubmit 1]"

lemma second_refused_run: "example_run second_refused \<noteq> None"
  by code_simp

lemma refused_submission_leaves_no_trace_witness:
  "submit_result (after second_refused) 1 = Some (Inl PoolShuttingDown) \<and>
   1 \<notin> set (sent (task_queue (after (second_refused @ replicate 2 StepDispatcher)))) \<and>
   0 \<in> set (sent (task_queue (after (second_refused @ replicate 2 StepDispatcher))))"
proof -
  let ?q = "after (second_refused @ replicate 2 StepDispatcher)"
  have run: "example_run (second_refused @ replicate 2 StepDispatcher) \<noteq> None" by code_simp
  have p: "1 < length (handles (after second_refused))"
    "submit_result (after second_refused) 1 = Some (Inl PoolShuttingDown)" by code_simp+
  have q: "0 < length (handles ?q)" "submit_result ?q 0 = Some (Inr (handle_new 0))" by code_simp+
  note C = refused_submission_leaves_no_trace [OF example_lawful reach_after [OF second_refused_run]
      run_after [OF second_refused_run run] p(1) disjI1 [OF exI [where P = "\<lambda>e. submit_result (after second_refused) 1 = Some (Inl e)", OF p(2)]]]
  then show ?thesis using p(2) q by blast
qed

section \<open>Results\<close>

text \<open>
  C3. Results are never mixed up or invented. What \<open>await_result\<close> returns for a task is a value
  that a poll of that task's own future returned, \<open>TaskPanicked\<close> where a poll of it panicked,
  \<open>TaskCancelled\<close> where that task was cancelled, or \<open>ResultChannelError\<close> with the task's id;
  \<open>ResultUnavailable\<close> and the other errors never come out.
\<close>

theorem awaited_results_sound:
  assumes "lawful E" "pool_reach E limit cap name p" "r < length (handles p)"
    and "hs_result (handles p ! r) = Some res"
  shows "(\<exists>v k. res = Inr v \<and> mt_future (submission p r) k = Ready v) \<or>
         (\<exists>k. res = Inl TaskPanicked \<and> mt_future (submission p r) k = Panics) \<or>
         res = Inl TaskCancelled \<and> core_cancelled p r \<or>
         res = Inl (ResultChannelError (channel_closed_message (of_nat r) (recv_error_text E)))"
proof -
  note addr = pool_addresses [OF assms(1,2)]
  have "r < length (cores p)" using assms(3) addresses_lengths(1) [OF addr] by simp
  from addresses_task_id [OF addr this] have "closed_error E p r =
      Inl (ResultChannelError (channel_closed_message (of_nat r) (recv_error_text E)))"
    by (simp add: closed_error_def)
  moreover have "explained p r res \<or> res = closed_error E p r"
    using pool_awaited [OF assms(1,2)] assms(3,4) by (simp add: await_inv_def handle_ok_def)
  ultimately show ?thesis by (auto simp: explained_def explains_def split: sum.splits)
qed

lemma awaited_results_sound_witness:
  "\<exists>k. mt_future (submission (after first_finished) 0) k = Ready 7"
proof -
  have "0 < length (handles (after first_finished))" by code_simp
  from awaited_results_sound [OF example_lawful reach_after [OF example_runs(3)] this example_facts(2)]
  show ?thesis by auto
qed

text \<open>
  C4. No result stays away. When the task of a returned handle is no longer on its way (being
  submitted, queued, in the worker loop's hands, or running and not yet reported), two polls of
  \<open>await_result\<close> at most return: whatever became of the task, finished, cancelled, thrown out by
  a shutdown, its oneshot has been used or its sender dropped.
\<close>

theorem awaited_results_arrive:
  assumes L: "lawful E" and R: "oneshot_resolves (o_ops E)" and reach: "pool_reach E limit cap name p"
    and r: "r < length (handles p)" and ret: "submit_result p r = Some (Inr t)"
    and h: "\<not> is_detached t" "hs_result (handles p ! r) = None" and way: "\<not> on_its_way E p r"
  shows "\<exists>n q. n \<le> 2 \<and> run (pool_step E) (replicate n (AwaitResult r)) p = Some q \<and>
           hs_result (handles q ! r) \<noteq> None"
proof -
  have "r < length (oneshots p)" using addresses_lengths(1,2) [OF pool_addresses [OF L reach]] r by simp
  with pool_delivered [OF L R reach] way have "settled E p r" by (auto simp: deliver_inv_def)
  from r this h show ?thesis
  proof (cases rule: await_arrives)
    case (once q)
    with ret show ?thesis by (intro exI [of _ 1] exI [of _ q]) (simp add: step_await_def)
  next
    case (twice x q)
    let ?p = "p\<lparr>handles := (handles p)[r := x]\<rparr>"
    have "submit_result ?p r = Some (Inr (hs_handle x))"
      using ret r by (auto simp: submit_result_def split: send_pc.splits sum.splits)
    with twice ret show ?thesis by (intro exI [of _ 2] exI [of _ q]) (simp add: step_await_def numeral_2_eq_2)
  qed
qed

lemma awaited_results_arrive_witness:
  "\<exists>n q. n \<le> 2 \<and> run (pool_step example_env) (replicate n (AwaitResult 0))
       (after (first_started @ replicate 8 (StepTask 0))) = Some q \<and> hs_result (handles q ! 0) \<noteq> None"
proof -
  let ?p = "after (first_started @ replicate 8 (StepTask 0))"
  have reach: "example_reach ?p" by (rule reach_after) code_simp
  have p: "0 < length (handles ?p)" "submit_result ?p 0 = Some (Inr (handle_new 0))" "\<not> is_detached (handle_new 0)"
    "hs_result (handles ?p ! 0) = None" "send_over (snd (sends (task_queue ?p) ! 0))"
    "list_all (\<lambda>t. \<not> task_unsent (st_pc t)) (tasks ?p)" "worker_unanswered (dispatcher ?p) = []"
    "0 \<notin> set (queued (q_ops example_env) (task_queue ?p))"
    by code_simp+
  then have "\<not> on_its_way example_env ?p 0"
    by (auto simp: on_its_way_def unsent_cores_def unsent_tasks_def list_all_iff)
  from awaited_results_arrive [OF example_lawful example_resolves reach p(1-3) p(4) this] show ?thesis .
qed

text \<open>
  C24. Completion messages are sound and unique. Each task has at most one accepted message; a
  message says \<open>Success\<close> only where the task's future returned a value, \<open>Panicked\<close> only where
  it panicked, \<open>Cancelled\<close> only where the task was cancelled, and never \<open>PoolErrorOccurred\<close>.
\<close>

theorem completion_messages_sound:
  assumes "lawful E" "pool_reach E limit cap name p"
  shows "distinct (map cm_core (posted (completion_notifier p))) \<and>
    (\<forall>m \<in> set (posted (completion_notifier p)).
       cm_status m = Success \<and> (\<exists>v k. mt_future (submission p (cm_core m)) k = Ready v) \<or>
       cm_status m = Panicked \<and> (\<exists>k. mt_future (submission p (cm_core m)) k = Panics) \<or>
       cm_status m = Cancelled \<and> core_cancelled p (cm_core m))"
proof -
  have "distinct (map cm_core (posted (completion_notifier p)))"
    using pool_once [OF assms] by (simp add: once_inv_def posted_cores_def)
  moreover have "\<exists>res. cm_status m = status_from res \<and> explained p (cm_core m) res"
    if "m \<in> set (posted (completion_notifier p))" for m
    using pool_results [OF assms] that unfolding result_inv_def by blast
  ultimately show ?thesis by (fastforce simp: explained_def explains_def split: sum.splits)
qed

lemma completion_messages_sound_witness:
  "\<exists>v k. mt_future (submission (after first_finished) 0) k = Ready v"
proof -
  let ?p = "after first_finished"
  have m: "\<lparr>cm_pool_name = ''p'', cm_core = 0, cm_status = Success\<rparr> \<in> set (posted (completion_notifier ?p))"
    by code_simp
  show ?thesis
    using bspec [OF conjunct2 [OF completion_messages_sound
          [OF example_lawful reach_after [OF example_runs(3)]]] m] by simp
qed

definition first_notified :: "(nat, bool) pool_event list" where
  "first_notified = first_finished @ [StepNotifier 5, StepNotifier 6, StepNotifier 7]"

lemma first_notified_run: "example_run first_notified \<noteq> None"
  by code_simp

text \<open>
  C37. Every completion reaches the handlers, once. Along a run, let the log be the outcomes of the
  tasks that sent a result while holding a clone of the completion sender and of the cancelled
  tasks for which the worker loop took one. The messages processed, in the notifier's hands,
  queued and about to be posted are exactly the log; the handler calls made and still owed are one
  per processed message and handler; no task is logged twice; a task holds a clone exactly if the
  sink was open when it was spawned, and every task that holds one and is past its result is in
  the log.
\<close>

theorem completions_reach_handlers:
  assumes "lawful E" "chan_accepts (c_ops E)" "run (pool_step E) es (pool_new E limit cap name) = Some p"
  shows "let note = completion_notifier p;
             log = run_log reports (pool_step E) es (pool_new E limit cap name) in
    mset log = mset (map fst (processed note) @ in_hand (nworker note) @ ch_items (c_ops E) (nchan note)) +
      mset (unposted p) \<and>
    calls note @ owed (nworker note) = due_calls (processed note) \<and>
    distinct (map cm_core log) \<and>
    run_log launches (pool_step E) es (pool_new E limit cap name) =
      map (\<lambda>t. (mt_core (st_task t), st_notify t)) (tasks p) \<and>
    (\<forall>t \<in> set (tasks p). st_notify t \<and> past_send (st_pc t) \<longrightarrow> mt_core (st_task t) \<in> cm_core ` set log)"
proof -
  let ?new = "pool_new E limit cap name"
  let ?log = "run_log reports (pool_step E) es ?new"
  have r: "pool_reach E limit cap name p" by (rule reach_run [OF reach_init assms(3)]) simp
  have "chan_laws (c_ops E)" using assms(1) by (simp add: lawful_def)
  note note_inv = reach_notifier_inv [OF this pool_notifier_reach [OF r], unfolded notifier_inv_def]
  have rep: "report_inv ?log p" using reported.run_logged [OF refl assms(3)] assms(2) by blast
  then have acc: "mset ?log = mset (map fst (processed (completion_notifier p)) @
      in_hand (nworker (completion_notifier p)) @ ch_items (c_ops E) (nchan (completion_notifier p))) + mset (unposted p)"
    using note_inv unfolding report_inv_def by simp
  have told: "told ?log p" using told.run_logged [OF refl assms(3)] .
  have launch: "launch_inv (run_log launches (pool_step E) es ?new) p" using launched.run_logged [OF refl assms(3)] .
  show ?thesis
    unfolding Let_def using acc note_inv reports_distinct [OF assms(1) r rep]
      launch [unfolded launch_inv_def] told [unfolded told_def] by (intro conjI) blast+
qed

lemma completions_reach_handlers_witness:
  "let p = after first_notified; m = \<lparr>cm_pool_name = ''p'', cm_core = 0, cm_status = Success\<rparr> in
   run_log reports (pool_step example_env) first_notified example_new = [m] \<and>
   map fst (processed (completion_notifier p)) = [m] \<and> started p = [0] \<and>
   map fst (due_calls (processed (completion_notifier p))) = [True]"
proof -
  let ?p = "after first_notified" and ?m = "\<lparr>cm_pool_name = ''p'', cm_core = 0, cm_status = Success\<rparr>"
  let ?n = "completion_notifier ?p"
  note C = completions_reach_handlers
    [OF example_lawful example_accepts after_run [OF first_notified_run], unfolded Let_def]
  have c: "map fst (calls ?n @ owed (nworker ?n)) = [True]" "in_hand (nworker ?n) = []"
    "ch_items (c_ops example_env) (nchan ?n) = []" "unposted ?p = []" "map fst (processed ?n) = [?m]"
    "started ?p = [0]" by code_simp+
  have "mset (run_log reports (pool_step example_env) first_notified example_new) = {#?m#}"
    using conjunct1 [OF C] unfolding c by simp
  moreover have "map fst (due_calls (processed ?n)) = [True]" using C c(1) by metis
  ultimately show ?thesis using c(5,6) by (simp add: Let_def)
qed

section \<open>Cancellation\<close>

text \<open>
  C31. Cancellation by labels is exact, whatever runs between its cancels. The call lists the active
  tasks that share a label with the set; each of its own steps cancels one of them and no other
  task, it is never blocked, and when none of its steps are left every listed task is cancelled.
\<close>

theorem label_cancellation_exact:
  assumes "lawful E" "pool_reach E limit cap name p" "ls \<noteq> {}"
    and "run (pool_step E) (CancelLabels ls # es) p = Some q"
  shows "let k = length (label_cancels p); M = {r \<in> active_cores p. labels (cores p ! r) \<inter> ls \<noteq> {}} in
    (label_cancels q ! k = [] \<longrightarrow> (\<forall>r \<in> M. core_cancelled q r)) \<and>
    (\<forall>q' r. pool_step E (StepCancel k) q = Some q' \<longrightarrow> r < length (cores q) \<longrightarrow>
       core_cancelled q' r \<longrightarrow> core_cancelled q r \<or> r \<in> M) \<and>
    (label_cancels q ! k = [] \<or> pool_step E (StepCancel k) q \<noteq> None) \<and>
    length (label_cancels q ! k) + count_list es (StepCancel k) = card M"
proof -
  let ?k = "length (label_cancels p)"
  let ?M = "{r \<in> active_cores p. labels (cores p ! r) \<inter> ls \<noteq> {}}"
  let ?rs = "slots_tokens_matching (cores p) ls (active_task_info p)"
  note rs = matching_active [OF assms(1,2), of ls]
  obtain m where m: "pool_step E (CancelLabels ls) p = Some m" "run (pool_step E) es m = Some q"
    using assms(4) by (auto split: option.splits)
  then have "m = p\<lparr>label_cancels := label_cancels p @ [?rs]\<rparr>"
    using assms(3) by (auto simp: with_manager_def cancel_tasks_by_labels_def split: if_splits)
  then have "label_call ?k ?rs 0 m" using rs by (auto simp: label_call_def)
  then have c: "label_call ?k ?rs (count_list es (StepCancel ?k)) q"
    using label_call_run [OF _ m(2)] by fastforce
  have "label_cancels q ! ?k = [] \<longrightarrow> (\<forall>r \<in> ?M. core_cancelled q r)"
    using label_call_over [OF c] rs(1) by blast
  moreover have "core_cancelled q r \<or> r \<in> ?M"
    if "pool_step E (StepCancel ?k) q = Some q'" "r < length (cores q)" "core_cancelled q' r" for q' r
    using label_call_sound [OF c that] rs(1) by blast
  moreover have "label_cancels q ! ?k = [] \<or> pool_step E (StepCancel ?k) q \<noteq> None"
    using c by (simp add: label_call_def label_cancel_step_eq)
  moreover have "length (label_cancels q ! ?k) + count_list es (StepCancel ?k) = card ?M"
    using c rs distinct_card [OF rs(2)] by (simp add: label_call_def)
  ultimately show ?thesis by (auto simp: Let_def)
qed

lemma label_cancellation_exact_witness:
  "core_cancelled (after (first_started @ [CancelLabels {''a'', ''b''}, StepCancel 0])) 0 \<and>
   label_cancels (after (first_started @ [CancelLabels {''a'', ''b''}, StepCancel 0])) = [[]]"
proof -
  let ?p = "after first_started" and ?es = "[CancelLabels {''a'', ''b''}, StepCancel 0]"
  let ?q = "after (first_started @ ?es)"
  have "example_run (first_started @ ?es) \<noteq> None" by code_simp
  from run_after [OF example_runs(2) this] have q: "run (pool_step example_env) ?es ?p = Some ?q" .
  have e: "label_cancels ?p = []" "label_cancels ?q = [[]]" by code_simp+
  have "labels (cores ?p ! 0) \<inter> {''a'', ''b''} \<noteq> {}"
    "\<exists>t \<in> set (launched ?p). task_registered t \<and> mt_core (st_task t) = 0"
    by code_simp+
  with label_cancellation_exact [OF example_lawful reach_after [OF example_runs(2)] _ q] e
  show ?thesis by (auto simp: active_cores_def)
qed

text \<open>
  C25. A cancelled task ends, whatever its future does. From the moment a running task is
  cancelled, each of its own steps brings it closer to its end, of which at most 6 are left;
  it is never blocked, and no step of anything else sets it back.
\<close>

theorem cancelled_task_finishes:
  assumes "i < length (tasks p)" "mt_core (st_task (tasks p ! i)) < length (cores p)"
    and "core_cancelled p (mt_core (st_task (tasks p ! i)))" "run (pool_step E) es p = Some q"
  shows "task_rank (st_pc (tasks q ! i)) + count_list es (StepTask i) \<le> 6 \<and>
         (st_pc (tasks q ! i) = TDone \<or> pool_step E (StepTask i) q \<noteq> None)"
proof -
  have "doomed i (mt_core (st_task (tasks p ! i))) p" using assms by (simp add: doomed_def)
  from cancelled_task.progress [OF this assms(4)] task_rank_le [of "st_pc (tasks p ! i)"]
  show ?thesis by (simp add: task_rank_zero)
qed

lemma cancelled_task_finishes_witness:
  "\<exists>q. run (pool_step example_env) (replicate 5 (StepTask 0)) (after first_cancelled) = Some q \<and>
     st_pc (tasks q ! 0) = TDone"
proof -
  let ?p = "after first_cancelled" let ?es = "replicate 5 (StepTask 0) :: (nat, bool) pool_event list"
  have f: "0 < length (tasks ?p)" "mt_core (st_task (tasks ?p ! 0)) < length (cores ?p)"
    "core_cancelled ?p (mt_core (st_task (tasks ?p ! 0)))"
    by code_simp+
  have "example_run (first_cancelled @ ?es) \<noteq> None" by code_simp
  from run_after [OF example_runs(4) this]
  have q: "run (pool_step example_env) ?es ?p = Some (after (first_cancelled @ ?es))" .
  have "pool_step example_env (StepTask 0) (after (first_cancelled @ ?es)) = None"
    unfolding Option.is_none_def [symmetric] by code_simp
  with cancelled_task_finishes [OF f q] q show ?thesis by blast
qed

text \<open>
  C26. Cancellation wins over completion. If a task is cancelled while its outcome is undecided
  (its future pending, or finished and not yet examined), then the only result it can send is
  \<open>TaskCancelled\<close> and the only status it can post is \<open>Cancelled\<close>.
\<close>

theorem cancellation_wins:
  assumes "i < length (tasks p)" "mt_core (st_task (tasks p ! i)) < length (cores p)"
    and "core_cancelled p (mt_core (st_task (tasks p ! i)))"
    and "\<forall>res s. st_pc (tasks p ! i) \<noteq> TSend res \<and> st_pc (tasks p ! i) \<noteq> TNotify s"
    and "run (pool_step E) es p = Some q"
  shows "(\<forall>res. st_pc (tasks q ! i) = TSend res \<longrightarrow> res = Inl TaskCancelled) \<and>
         (\<forall>s. st_pc (tasks q ! i) = TNotify s \<longrightarrow> s = Cancelled)"
proof -
  have "doomed i (mt_core (st_task (tasks p ! i))) p" "cancelled_outcome i p"
    using assms by (simp_all add: doomed_def cancelled_outcome_def split: task_pc.splits)
  from cancelled_outcome_run [OF this assms(5)] show ?thesis by (auto simp: cancelled_outcome_def)
qed

lemma cancellation_wins_witness:
  "st_pc (tasks (after (first_cancelled @ [StepTask 0])) ! 0) = TSend (Inl TaskCancelled)"
proof -
  let ?p = "after first_cancelled" let ?q = "after (first_cancelled @ [StepTask 0])"
  have f: "0 < length (tasks ?p)" "mt_core (st_task (tasks ?p ! 0)) < length (cores ?p)"
    "core_cancelled ?p (mt_core (st_task (tasks ?p ! 0)))"
    by code_simp+
  have "st_pc (tasks ?p ! 0) = TPollCancel" by code_simp
  then have n: "\<forall>res s. st_pc (tasks ?p ! 0) \<noteq> TSend res \<and> st_pc (tasks ?p ! 0) \<noteq> TNotify s" by simp
  have "example_run (first_cancelled @ [StepTask 0]) \<noteq> None" by code_simp
  from run_after [OF example_runs(4) this]
  have q: "run (pool_step example_env) [StepTask 0] ?p = Some ?q" .
  have "case st_pc (tasks ?q ! 0) of TSend _ \<Rightarrow> True | _ \<Rightarrow> False" by code_simp
  with cancellation_wins [OF f n q] show ?thesis by (simp split: task_pc.splits)
qed

end
