(* ===== verification/ManagerShutdown.thy ===== *)
theory ManagerShutdown
  imports ManagerProps
begin

text \<open>
  The shutdown of the strict pool: what a set shutdown flag brings to an end and in how many
  steps, what a forceful shutdown cancels, and the schedules in which it does less than its
  documentation says.
\<close>

section \<open>What ends\<close>

text \<open>
  C21. The worker loop stops. Once the shutdown flag is set, at most 6 of its own steps are left,
  however full the queue is and whatever the others do, and until then it is never blocked.
\<close>

theorem shutdown_stops_worker:
  assumes "lawful E" "pool_reach E limit cap name p" "shutting_down p" "run (pool_step E) es p = Some q"
  shows "dispatcher_rank (dispatcher q) + count_list es StepDispatcher \<le> 6 \<and>
         (dispatcher q = DStopped \<or> pool_step E StepDispatcher q \<noteq> None)"
proof -
  have "dispatcher q \<noteq> DPanicked"
    using pool_running [OF assms(1) reach_run [OF assms(2,4)]] by (simp add: running_inv_def)
  then have "dispatcher_rank (dispatcher q) = 0 \<longleftrightarrow> dispatcher q = DStopped"
    by (cases "dispatcher q") auto
  with worker_stops.progress [OF assms(3,4)] dispatcher_rank_le [of "dispatcher p"]
  show ?thesis by simp
qed

lemma shutdown_stops_worker_witness:
  "\<exists>q. run (pool_step example_env) [StepDispatcher, StepDispatcher] (after stopping) = Some q \<and>
     dispatcher q = DStopped"
proof -
  let ?es = "[StepDispatcher, StepDispatcher] :: (nat, bool) pool_event list"
  have "example_run (stopping @ ?es) \<noteq> None" by code_simp
  from run_after [OF example_runs(5) this]
  have q: "run (pool_step example_env) ?es (after stopping) = Some (after (stopping @ ?es))" .
  have sd: "shutting_down (after stopping)" by code_simp
  have "pool_step example_env StepDispatcher (after (stopping @ ?es)) = None"
    unfolding Option.is_none_def [symmetric] by code_simp
  with shutdown_stops_worker [OF example_lawful reach_after [OF example_runs(5)] sd q] q
  show ?thesis by blast
qed

text \<open>
  C35. After the flag no task is taken from the queue to be run: at most one more task starts, and
  only if the worker loop had already passed its last check of the flag with that task in hand.
\<close>

theorem shutdown_starts_at_most_one:
  assumes "shutting_down p" "run (pool_step E) es p = Some q"
  shows "length (tasks q) \<le> length (tasks p) + of_bool (committed (dispatcher p))"
  using start_bound_run [OF assms] by (simp add: start_bound_def)

lemma shutdown_starts_at_most_one_witness:
  "\<exists>q. run (pool_step example_env) [StepDispatcher, StepDispatcher] (after stopping) = Some q \<and>
     length (tasks q) \<le> 1"
proof -
  let ?es = "[StepDispatcher, StepDispatcher] :: (nat, bool) pool_event list"
  have "example_run (stopping @ ?es) \<noteq> None" by code_simp
  from run_after [OF example_runs(5) this]
  have q: "run (pool_step example_env) ?es (after stopping) = Some (after (stopping @ ?es))" .
  have "shutting_down (after stopping)" "length (tasks (after stopping)) = 1"
    "\<not> committed (dispatcher (after stopping))"
    by code_simp+
  with shutdown_starts_at_most_one [OF _ q] q show ?thesis by auto
qed

text \<open>
  C36. No caller of \<open>submit\<close> stays blocked. Once the flag is set, a pending submission returns
  within 2 of its own steps, full queue or not, and it can always take them.
\<close>

theorem shutdown_unblocks_submissions:
  assumes "lawful E" "shutting_down p" "w < length (sends (task_queue p))"
    and "run (pool_step E) es p = Some q"
  shows "send_rank (send_state q w) + count_list es (StepSubmit w) \<le> 2 \<and>
         ((\<exists>res. send_state q w = SendDone res) \<or> send_state q w = SendDropped \<or>
          pool_step E (StepSubmit w) q \<noteq> None)"
proof -
  have "closing E w p" using assms by (simp add: closing_def)
  note pr = submission_ends.progress [OF this assms(4)]
  have "send_rank pc \<le> 2" "send_rank pc = 0 \<longleftrightarrow> (\<exists>res. pc = SendDone res) \<or> pc = SendDropped" for pc
    by (cases pc; auto)+
  with pr show ?thesis by (meson le_trans)
qed

definition blocked :: "(nat, bool) pool_event list" where
  "blocked = two_submitted @ Submit {} (\<lambda>k. Ready 9) # replicate 4 (StepSubmit 2) @
     Shutdown Graceful # replicate 2 (StepShutdown 0)"

lemma blocked_run: "example_run blocked \<noteq> None"
  by code_simp

lemma shutdown_unblocks_submissions_witness:
  "\<exists>q. run (pool_step example_env) [StepSubmit 2, StepSubmit 2] (after blocked) = Some q \<and>
     (\<exists>res. send_state q 2 = SendDone res)"
proof -
  let ?es = "[StepSubmit 2, StepSubmit 2] :: (nat, bool) pool_event list"
  have "example_run (blocked @ ?es) \<noteq> None" by code_simp
  from run_after [OF blocked_run this]
  have q: "run (pool_step example_env) ?es (after blocked) = Some (after (blocked @ ?es))" .
  have f: "shutting_down (after blocked)" "2 < length (sends (task_queue (after blocked)))"
    by code_simp+
  have "pool_step example_env (StepSubmit 2) (after (blocked @ ?es)) = None"
    "send_state (after (blocked @ ?es)) 2 \<noteq> SendDropped"
    unfolding Option.is_none_def [symmetric] by code_simp+
  with shutdown_unblocks_submissions [OF example_lawful f q] q show ?thesis by blast
qed

text \<open>
  C7. \<open>shutdown\<close> always returns. From any point of the call, with the timers, a bounded number of
  its own steps brings it to its end, even if no task, worker or handler ever moves again.
\<close>

theorem shutdown_returns:
  assumes "lawful E" "pool_reach E limit cap name p" "i < length (shutdowns p)"
    and "shutdowns p ! i \<noteq> HPanicked" "shutdowns p ! i \<noteq> HAbandoned"
  shows "\<exists>es q. set es \<subseteq> own_events i \<and> length es \<le> own_rank i p \<and>
           run (pool_step E) es p = Some q \<and> shutdowns q ! i = HDone"
proof -
  have "slots_wf (active_task_info p)"
    using pool_running [OF assms(1,2)] by (simp add: running_inv_def registry_inv_def)
  with assms(3-5) have "alive_call i p" by (simp add: alive_call_def)
  from own_run [OF this] show ?thesis .
qed

lemma shutdown_returns_witness:
  "\<exists>es q. run (pool_step example_env) es (after stopping) = Some q \<and> shutdowns q ! 0 = HDone"
proof -
  have "0 < length (shutdowns (after stopping))" "shutdowns (after stopping) ! 0 \<noteq> HPanicked"
    "shutdowns (after stopping) ! 0 \<noteq> HAbandoned"
    by (simp_all add: example_facts(3))
  from shutdown_returns [OF example_lawful reach_after [OF example_runs(5)] this]
  show ?thesis by blast
qed

text \<open>
  C27. A forceful shutdown cancels every active task. Each task that is registered when the call
  reads the registry is cancelled once the call is past its cancellation loop, whatever the
  tasks and the other threads do during the loop.
\<close>

theorem forceful_shutdown_cancels_active:
  assumes "lawful E" "pool_reach E limit cap name p" "i < length (shutdowns p)" "shutdowns p ! i = HSweep"
    and "run (pool_step E) (StepShutdown i # es) p = Some q" "\<forall>rs. shutdowns q ! i \<noteq> HCancelTasks rs"
    and "r \<in> active_cores p"
  shows "core_cancelled q r"
proof -
  let ?rs = "slots_all_tokens (active_task_info p)"
  note act = running_active [OF pool_running [OF assms(1,2)]]
  obtain m where m: "pool_step E (StepShutdown i) p = Some m" "run (pool_step E) es m = Some q"
    using assms(5) by (auto split: option.splits)
  then have "m = p\<lparr>shutdowns := (shutdowns p)[i := HCancelTasks ?rs]\<rparr>"
    using assms(3,4) by (simp add: shutdown_step_def)
  then have "sweeping (active_cores p) i m"
    using active_cores_bound [OF assms(1,2)] act assms(3) by (auto simp: sweeping_def)
  from sweeping_run [OF this m(2)] assms(6,7) show ?thesis unfolding sweeping_def by blast
qed

lemma forceful_shutdown_cancels_active_witness:
  "core_cancelled (after (stopping @ replicate 3 (StepShutdown 0))) 0"
proof -
  let ?es = "replicate 2 (StepShutdown 0) :: (nat, bool) pool_event list"
  let ?q = "after (stopping @ StepShutdown 0 # ?es)"
  have "example_run (stopping @ StepShutdown 0 # ?es) \<noteq> None" by code_simp
  from run_after [OF example_runs(5) this]
  have q: "run (pool_step example_env) (StepShutdown 0 # ?es) (after stopping) = Some ?q" .
  have i: "0 < length (shutdowns (after stopping))" "shutdowns (after stopping) ! 0 = HSweep"
    by (simp_all add: example_facts(3))
  have "\<exists>t \<in> set (launched (after stopping)). task_registered t \<and> mt_core (st_task t) = 0" by code_simp
  then have t: "0 \<in> active_cores (after stopping)" by (auto simp: active_cores_def)
  have "case shutdowns ?q ! 0 of HCancelTasks _ \<Rightarrow> False | _ \<Rightarrow> True" by code_simp
  then have n: "\<forall>rs. shutdowns ?q ! 0 \<noteq> HCancelTasks rs" by (auto split: shutdown_pc.splits)
  have "replicate 3 (StepShutdown 0) = StepShutdown 0 # ?es" by (simp add: numeral_3_eq_3 numeral_2_eq_2)
  with forceful_shutdown_cancels_active [OF example_lawful reach_after [OF example_runs(5)] i q n t]
  show ?thesis by simp
qed

section \<open>What a shutdown can miss\<close>

definition missed_task :: "(nat, bool) pool_event list" where
  "missed_task = Submit {} (\<lambda>_. Pending) # replicate 4 (StepSubmit 0) @ replicate 5 StepDispatcher @
     Shutdown ForcefulCancel # replicate 7 (StepShutdown 0) @
     replicate 5 StepDispatcher @ replicate 4 (StepShutdown 0)"

text \<open>
  A shutdown can return while a task it neither cancelled nor waited for is running. In this
  schedule the worker loop is past its last check with a task in hand when
  \<open>shutdown(ForcefulCancel)\<close> cancels the token, lists the (empty) registry and finds no active
  task; then the task starts, the worker loop ends, and the call returns without a timeout.
\<close>

theorem shutdown_can_miss_a_task:
  "\<exists>q. run (pool_step example_env) missed_task example_new = Some q \<and>
     shutdowns q = [HDone] \<and> map task_registered (tasks q) = [True] \<and> \<not> core_cancelled q 0 \<and>
     shutting_down q"
proof -
  have "map_option (\<lambda>q. (shutdowns q, map task_registered (tasks q), core_cancelled q 0, shutting_down q)) (example_run missed_task) = Some ([HDone], [True], False, True)"
    by code_simp
  then show ?thesis by auto
qed

definition two_drops :: "(nat, bool) pool_event list" where
  "two_drops = [CloneManager, DropManager, DropManager, StepDrop 0, StepDrop 1, StepDrop 0, StepDrop 1]"

text \<open>
  The drop of the last manager can signal nothing. When two clones are dropped at the same
  time, each can read a strong count of 2 and return; no manager is left, and neither the
  shutdown flag nor a close of the queue was ever set by a drop.
\<close>

theorem concurrent_drops_signal_nothing:
  "\<exists>q. run (pool_step example_env) two_drops example_new = Some q \<and>
     shutdown_guard q = 0 \<and> idle_managers q = 0 \<and> drops q = [DropDone, DropDone] \<and>
     \<not> shutting_down q \<and> \<not> queue_is_closed (q_ops example_env) (task_queue q)"
proof -
  have "map_option (\<lambda>q. (shutdown_guard q, idle_managers q, drops q, shutting_down q,
      queue_is_closed (q_ops example_env) (task_queue q))) (example_run two_drops) = Some (0, 0, [DropDone, DropDone], False, False)"
    by code_simp
  then show ?thesis by auto
qed

definition late_handler :: "(nat, bool) pool_event list" where
  "late_handler = CloneManager # Shutdown Graceful # replicate 5 (StepShutdown 0) @
     replicate 2 StepDispatcher @ replicate 4 (StepShutdown 0) @ [AddHandlerInit, AddHandlerPush False]"

text \<open>
  A sink can be opened after the shutdown closed it. If no handler was registered before the
  shutdown, \<open>close\<close> finds the \<open>OnceLock\<close> unset and does nothing; a handler registered later
  through another clone initialises it, and a sender is handed out although the pool is shut down.
\<close>

theorem sink_opens_after_shutdown:
  "\<exists>q. run (pool_step example_env) late_handler example_new = Some q \<and>
     shutdowns q = [HDone] \<and> shutting_down q \<and>
     sink (completion_notifier q) = Some True \<and>
     fst (sink_sender (c_ops example_env) (completion_notifier q))"
proof -
  have "map_option (\<lambda>q. (shutdowns q, shutting_down q, sink (completion_notifier q),
      fst (sink_sender (c_ops example_env) (completion_notifier q)))) (example_run late_handler) = Some ([HDone], True, Some True, True)"
    by code_simp
  then show ?thesis by auto
qed

end
