(* ===== verification/LaneQueue.thy ===== *)
theory LaneQueue
  imports TaskQueue
begin

text \<open>
  \<open>RlxdQueueProducer\<close> of \<open>rlxd.rs\<close> and the receiving ends of its lanes: one unbounded channel per
  dispatcher behind one shared \<open>CapacityGate\<close>, and a counter that routes submissions round-robin.
  An indexed access out of range and a remainder by zero panic in Rust; here they return \<open>Inl\<close>.
\<close>

section \<open>State\<close>

text \<open>
  \<open>lane_sent\<close> and \<open>lane_received\<close> are histories, per lane and in order: the tasks whose send
  succeeded and the tasks that left the channel.
\<close>

record ('q, 's) lane_queue =
  txs :: "'q list"
  next_lane :: usize
  lane_gate :: "'s capacity_gate"
  lane_sent :: "core_ref list list"
  lane_received :: "core_ref list list"

definition lanes_new ::
  "('r, 'q) queue_ops \<Rightarrow> 's sem_ops \<Rightarrow> nat \<Rightarrow> nat \<Rightarrow> ('q, 's) lane_queue" where
  "lanes_new C S k n =
     \<lparr>txs = replicate k (ch_new C), next_lane = 0, lane_gate = gate_new S n,
      lane_sent = replicate k [], lane_received = replicate k []\<rparr>"

section \<open>Routing\<close>

text \<open>\<open>fetch_add(1)\<close> on the \<open>AtomicUsize\<close>: the old value, and a wrapping increment.\<close>

definition route :: "('q, 's) lane_queue \<Rightarrow> usize \<times> ('q, 's) lane_queue" where
  "route q = (next_lane q, q\<lparr>next_lane := next_lane q + 1\<rparr>)"

definition usize_rem :: "usize \<Rightarrow> nat \<Rightarrow> nat outcome" where
  "usize_rem x n = (if n = 0 then Inl DivideByZero else Inr (unat x mod n))"

section \<open>Producer\<close>

definition lanes_is_closed :: "('r, 'q) queue_ops \<Rightarrow> ('q, 's) lane_queue \<Rightarrow> bool" where
  "lanes_is_closed C q = list_all (ch_is_closed C) (txs q)"

definition lane_close :: "('r, 'q) queue_ops \<Rightarrow> nat \<Rightarrow> ('q, 's) lane_queue \<Rightarrow> ('q, 's) lane_queue" where
  "lane_close C i q = q\<lparr>txs := (txs q)[i := ch_close C (txs q ! i)]\<rparr>"

definition lanes_close :: "('r, 'q) queue_ops \<Rightarrow> ('q, 's) lane_queue \<Rightarrow> ('q, 's) lane_queue" where
  "lanes_close C q = q\<lparr>txs := map (ch_close C) (txs q)\<rparr>"

text \<open>
  \<open>len\<close> reads the lanes one after another; a single read is \<open>lane_len\<close>. \<open>lanes_len\<close> is the number
  of queued tasks at one moment, which the bounds are about.
\<close>

definition lane_len :: "('r, 'q) queue_ops \<Rightarrow> nat \<Rightarrow> ('q, 's) lane_queue \<Rightarrow> nat" where
  "lane_len C i q = ch_len C (txs q ! i)"

definition lanes_len :: "('r, 'q) queue_ops \<Rightarrow> ('q, 's) lane_queue \<Rightarrow> nat" where
  "lanes_len C q = sum_list (map (ch_len C) (txs q))"

text \<open>
  The end of \<open>send\<close> on the chosen lane, with the temporary guard in hand. The lane's sender is
  cloned for the call. On success the guard is forgotten and the permit travels with the message;
  on failure the message is dropped, and its \<open>QueuePermit\<close> with it, and then the guard too.
\<close>

definition lane_push ::
  "('r, 'q) queue_ops \<Rightarrow> 's sem_ops \<Rightarrow> 'r managed_task \<Rightarrow> nat \<Rightarrow> ('q, 's) lane_queue \<Rightarrow>
     ((pool_error + unit) \<times> ('q, 's) lane_queue) outcome" where
  "lane_push C S t i q =
     (case vec_get (txs q) i of
        Inl p \<Rightarrow> Inl p
      | Inr c \<Rightarrow>
          (let (ok, c) = ch_send C \<lparr>qm_task = t\<rparr> (ch_clone_tx C c);
               cs = (txs q)[i := ch_drop_tx C c] in
           Inr (if ok
                then (Inr (), q\<lparr>txs := cs, lane_sent := (lane_sent q)[i := lane_sent q ! i @ [mt_core t]]\<rparr>)
                else (Inl QueueSendChannelClosed,
                      q\<lparr>txs := cs, lane_gate := gate_release S (gate_release S (lane_gate q))\<rparr>))))"

datatype lane_send_pc =
    LaneCheck           \<comment> \<open>at the entry checks\<close>
  | LanePollGate        \<comment> \<open>at the \<open>select!\<close>, polling the gate\<close>
  | LanePollShutdown    \<comment> \<open>at the \<open>select!\<close>, polling the token\<close>
  | LaneRoute           \<comment> \<open>holding a permit, about to route\<close>
  | LaneSend nat        \<comment> \<open>holding a permit, about to send to this lane\<close>
  | LaneDone "pool_error + unit"
  | LaneDropped         \<comment> \<open>the caller dropped the future\<close>
  | LanePanicked

fun lane_send_step ::
  "('r, 'q) queue_ops \<Rightarrow> 's sem_ops \<Rightarrow> bool \<Rightarrow> nat \<Rightarrow> 'r managed_task \<Rightarrow> lane_send_pc \<Rightarrow>
     ('q, 's) lane_queue \<Rightarrow> (lane_send_pc \<times> ('q, 's) lane_queue) option" where
  "lane_send_step C S sd w t LaneCheck q =
     Some (if sd \<or> lanes_is_closed C q then LaneDone (Inl PoolShuttingDown) else LanePollGate, q)"
| "lane_send_step C S sd w t LanePollGate q =
     (let (b, g) = gate_poll_acquire S w (lane_gate q) in
      Some (if b then LaneRoute else LanePollShutdown, q\<lparr>lane_gate := g\<rparr>))"
| "lane_send_step C S sd w t LanePollShutdown q =
     (if sd then Some (LaneDone (Inl PoolShuttingDown), q\<lparr>lane_gate := gate_drop_acquire S w (lane_gate q)\<rparr>)
      else Some (LanePollGate, q))"
| "lane_send_step C S sd w t LaneRoute q =
     (let (x, q') = route q in
      Some (case usize_rem x (length (txs q)) of Inl _ \<Rightarrow> LanePanicked | Inr i \<Rightarrow> LaneSend i, q'))"
| "lane_send_step C S sd w t (LaneSend i) q =
     (case lane_push C S t i q of
        Inl _ \<Rightarrow> Some (LanePanicked, q)
      | Inr (res, q') \<Rightarrow> Some (LaneDone res, q'))"
| "lane_send_step C S sd w t (LaneDone res) q = None"
| "lane_send_step C S sd w t LaneDropped q = None"
| "lane_send_step C S sd w t LanePanicked q = None"

text \<open>A clone of the producer clones every lane's sender, and its drop drops them.\<close>

definition lanes_clone :: "('r, 'q) queue_ops \<Rightarrow> ('q, 's) lane_queue \<Rightarrow> ('q, 's) lane_queue" where
  "lanes_clone C q = q\<lparr>txs := map (ch_clone_tx C) (txs q)\<rparr>"

definition lanes_drop :: "('r, 'q) queue_ops \<Rightarrow> ('q, 's) lane_queue \<Rightarrow> ('q, 's) lane_queue" where
  "lanes_drop C q = q\<lparr>txs := map (ch_drop_tx C) (txs q)\<rparr>"

section \<open>Receivers\<close>

text \<open>
  A poll of \<open>recv\<close> on a lane. The message keeps its permit; it is released when the
  dispatcher takes the task out of the message, or drops it.
\<close>

definition lane_recv ::
  "('r, 'q) queue_ops \<Rightarrow> nat \<Rightarrow> ('q, 's) lane_queue \<Rightarrow> 'r managed_task recv \<times> ('q, 's) lane_queue" where
  "lane_recv C i q =
     (case ch_recv C (txs q ! i) of
        (RecvOk m, c) \<Rightarrow>
          (RecvOk (qm_task m),
           q\<lparr>txs := (txs q)[i := c],
             lane_received := (lane_received q)[i := lane_received q ! i @ [mt_core (qm_task m)]]\<rparr>)
      | (RecvPending, c) \<Rightarrow> (RecvPending, q\<lparr>txs := (txs q)[i := c]\<rparr>)
      | (RecvDisconnected, c) \<Rightarrow> (RecvDisconnected, q\<lparr>txs := (txs q)[i := c]\<rparr>))"

definition lane_release :: "'s sem_ops \<Rightarrow> ('q, 's) lane_queue \<Rightarrow> ('q, 's) lane_queue" where
  "lane_release S q = q\<lparr>lane_gate := gate_release S (lane_gate q)\<rparr>"

definition lane_drop_receiver ::
  "('r, 'q) queue_ops \<Rightarrow> 's sem_ops \<Rightarrow> nat \<Rightarrow> ('q, 's) lane_queue \<Rightarrow>
     core_ref list \<times> ('q, 's) lane_queue" where
  "lane_drop_receiver C S i q =
     (let (ms, c) = ch_drop_rx C (txs q ! i); rs = map (mt_core \<circ> qm_task) ms in
      (rs, q\<lparr>txs := (txs q)[i := c], lane_gate := (gate_release S ^^ length ms) (lane_gate q),
             lane_received := (lane_received q)[i := lane_received q ! i @ rs]\<rparr>))"

section \<open>Permits and order\<close>

definition lane_items :: "('r, 'q) queue_ops \<Rightarrow> ('q, 's) lane_queue \<Rightarrow> core_ref list list" where
  "lane_items C q = map (\<lambda>c. map (mt_core \<circ> qm_task) (ch_items C c)) (txs q)"

definition lane_permits :: "'s sem_ops \<Rightarrow> ('q, 's) lane_queue \<Rightarrow> nat" where
  "lane_permits S q = gate_get_permits S (lane_gate q)"

text \<open>Each lane holds what was sent to it and has not left it, in order.\<close>

definition lanes_inv :: "('r, 'q) queue_ops \<Rightarrow> nat \<Rightarrow> ('q, 's) lane_queue \<Rightarrow> bool" where
  "lanes_inv C k q \<longleftrightarrow>
     length (txs q) = k \<and> length (lane_sent q) = k \<and> length (lane_received q) = k \<and>
     (\<forall>i < k. lane_sent q ! i = lane_received q ! i @ lane_items C q ! i)"

abbreviation lanes_queued :: "('r, 'q) queue_ops \<Rightarrow> ('q, 's) lane_queue \<Rightarrow> nat" where
  "lanes_queued C q \<equiv> sum_list (map length (lane_items C q))"

lemma lane_items_nth: "i < length (txs q) \<Longrightarrow> lane_items C q ! i = map (mt_core \<circ> qm_task) (ch_items C (txs q ! i))"
  by (simp add: lane_items_def)

lemma lane_items_length [simp]: "length (lane_items C q) = length (txs q)"
  by (simp add: lane_items_def)

lemma lanes_len_queued: "chan_laws C \<Longrightarrow> lanes_len C q = lanes_queued C q"
  by (simp add: lanes_len_def lane_items_def comp_def ch_len_items cong: map_cong)

lemma lane_items_fields [simp]:
  "lane_items C (q\<lparr>next_lane := x\<rparr>) = lane_items C q" "lane_items C (q\<lparr>lane_gate := g\<rparr>) = lane_items C q"
  "lane_items C (q\<lparr>lane_sent := ss\<rparr>) = lane_items C q" "lane_items C (q\<lparr>lane_received := ss\<rparr>) = lane_items C q"
  by (simp_all add: lane_items_def)

lemma lane_items_update:
  "lane_items C (q\<lparr>txs := (txs q)[i := c]\<rparr>) = (lane_items C q)[i := map (mt_core \<circ> qm_task) (ch_items C c)]"
  by (simp add: lane_items_def map_update)

lemma lanes_inv_update:
  assumes "lanes_inv C k q" "i < k" "s = r @ xs" "length (txs q') = k"
    and "lane_items C q' = (lane_items C q)[i := xs]"
    and "lane_sent q' = (lane_sent q)[i := s]" "lane_received q' = (lane_received q)[i := r]"
  shows "lanes_inv C k q'"
  using assms by (auto simp: lanes_inv_def nth_upd)

lemma lanes_queued_update:
  assumes "i < length (txs q)" "lane_items C q' = (lane_items C q)[i := xs]"
  shows "lanes_queued C q' + length (lane_items C q ! i) = lanes_queued C q + length xs"
  using sum_list_update_nat [of i "map length (lane_items C q)" "length xs"] assms
  by (simp add: map_update)

lemma lane_items_same:
  "chan_laws C \<Longrightarrow> lane_items C (lane_close C i q) = lane_items C q"
  "chan_laws C \<Longrightarrow> lane_items C (lanes_close C q) = lane_items C q"
  "chan_laws C \<Longrightarrow> lane_items C (lanes_clone C q) = lane_items C q"
  "chan_laws C \<Longrightarrow> lane_items C (lanes_drop C q) = lane_items C q"
  "lane_items C (lane_release S q) = lane_items C q"
  "lane_items C (snd (route q)) = lane_items C q"
  by (auto simp: lane_items_def lane_close_def lanes_close_def lanes_clone_def lanes_drop_def
      lane_release_def route_def ch_close_items ch_clone_items ch_drop_items intro!: nth_equalityI
      split: if_splits simp: nth_upd)

text \<open>The tasks in the lanes.\<close>

definition in_lanes :: "('r, 'q) queue_ops \<Rightarrow> ('q, 's) lane_queue \<Rightarrow> 'r managed_task \<Rightarrow> bool" where
  "in_lanes C q t \<longleftrightarrow> (\<exists>i < length (txs q). t \<in> qm_task ` set (ch_items C (txs q ! i)))"

lemma in_lanes_items:
  assumes "length (txs q') = length (txs q)"
    and "\<And>i. i < length (txs q) \<Longrightarrow> ch_items C (txs q' ! i) = ch_items C (txs q ! i)"
  shows "in_lanes C q' = in_lanes C q"
  using assms by (auto simp: in_lanes_def fun_eq_iff)

lemma in_lanes_update:
  assumes "txs q' = (txs q)[i := c]" "in_lanes C q' t"
  shows "in_lanes C q t \<or> t \<in> qm_task ` set (ch_items C c)"
  using assms by (auto simp: in_lanes_def nth_upd split: if_splits)

lemma in_lanes_same:
  assumes "chan_laws C"
  shows "in_lanes C (lane_close C i q) = in_lanes C q" "in_lanes C (lanes_close C q) = in_lanes C q"
    "in_lanes C (lanes_clone C q) = in_lanes C q" "in_lanes C (lanes_drop C q) = in_lanes C q"
  by (rule in_lanes_items;
      simp add: lane_close_def lanes_close_def lanes_clone_def lanes_drop_def nth_upd
        ch_close_items [OF assms] ch_clone_items [OF assms] ch_drop_items [OF assms])+

lemma lane_push_tasks:
  assumes C: "chan_laws C" and p: "lane_push C S t i q = Inr (res, q')" and x: "in_lanes C q' x"
  shows "in_lanes C q x \<or> x = t"
proof -
  obtain ok c where s: "ch_send C \<lparr>qm_task = t\<rparr> (ch_clone_tx C (txs q ! i)) = (ok, c)" by fastforce
  with p have i: "i < length (txs q)" and q': "txs q' = (txs q)[i := ch_drop_tx C c]"
    by (auto simp: lane_push_def vec_get_def Let_def split: if_splits)
  have "set (ch_items C c) \<subseteq> insert \<lparr>qm_task = t\<rparr> (set (ch_items C (txs q ! i)))"
    using s by (cases ok) (auto simp: ch_send_True [OF C] ch_send_False [OF C] ch_clone_items [OF C])
  then have "qm_task ` set (ch_items C c) \<subseteq> insert t (qm_task ` set (ch_items C (txs q ! i)))" by force
  with in_lanes_update [OF q' x] i show ?thesis unfolding in_lanes_def ch_drop_items [OF C] by blast
qed

lemma lane_recv_tasks:
  assumes C: "chan_laws C" and r: "lane_recv C i q = (x, q')" and i: "i < length (txs q)"
  shows "(\<forall>t. in_lanes C q' t \<longrightarrow> in_lanes C q t) \<and> (\<forall>t. x = RecvOk t \<longrightarrow> in_lanes C q t)"
proof -
  obtain y c where y: "ch_recv C (txs q ! i) = (y, c)" by fastforce
  with r have q': "txs q' = (txs q)[i := c]" by (auto simp: lane_recv_def split: recv.splits)
  have sub: "set (ch_items C c) \<subseteq> set (ch_items C (txs q ! i))"
    using y ch_recv_Ok [OF C] ch_recv_Pending [OF C] ch_recv_Disconnected [OF C] by (cases y) fastforce+
  have "in_lanes C q t" if "x = RecvOk t" for t
  proof -
    from that r y obtain m where m: "y = RecvOk m" "t = qm_task m" by (auto simp: lane_recv_def split: recv.splits)
    with y ch_recv_Ok [OF C, of "txs q ! i" m c] have "m \<in> set (ch_items C (txs q ! i))" by simp
    with m i show ?thesis by (auto simp: in_lanes_def)
  qed
  with in_lanes_update [OF q'] sub i show ?thesis by (fastforce simp: in_lanes_def)
qed

lemma lane_drop_receiver_tasks:
  assumes C: "chan_laws C" and r: "lane_drop_receiver C S i q = (rs, q')" and i: "i < length (txs q)"
    and x: "in_lanes C q' t"
  shows "in_lanes C q t"
proof -
  obtain ms c where y: "ch_drop_rx C (txs q ! i) = (ms, c)" by fastforce
  with r have q': "txs q' = (txs q)[i := c]" by (auto simp: lane_drop_receiver_def Let_def)
  from in_lanes_update [OF q' x] ch_drop_rx_items [OF C y] i show ?thesis by (auto simp: in_lanes_def)
qed

text \<open>Conversely, a task stays in the lanes unless it is received or thrown out.\<close>

lemma in_lanes_replaced:
  assumes "txs q' = (txs q)[i := c]" "in_lanes C q t"
  shows "in_lanes C q' t \<or> t \<in> qm_task ` set (ch_items C (txs q ! i))"
  using assms by (auto simp: in_lanes_def nth_upd)

lemma lane_push_keeps:
  assumes C: "chan_laws C" and p: "lane_push C S t i q = Inr (res, q')"
  shows "(in_lanes C q x \<longrightarrow> in_lanes C q' x) \<and> (res = Inr () \<longrightarrow> in_lanes C q' t)"
proof -
  obtain ok c where s: "ch_send C \<lparr>qm_task = t\<rparr> (ch_clone_tx C (txs q ! i)) = (ok, c)" by fastforce
  with p have i: "i < length (txs q)" and q': "txs q' = (txs q)[i := ch_drop_tx C c]" and res: "res = Inr () \<longrightarrow> ok"
    by (auto simp: lane_push_def vec_get_def Let_def split: if_splits)
  have old: "set (ch_items C (txs q ! i)) \<subseteq> set (ch_items C c)" and new: "ok \<Longrightarrow> \<lparr>qm_task = t\<rparr> \<in> set (ch_items C c)"
    using s by (cases ok; auto simp: ch_send_True [OF C] ch_send_False [OF C] ch_clone_items [OF C])+
  have now: "u \<in> qm_task ` set (ch_items C c) \<Longrightarrow> in_lanes C q' u" for u
    using i q' ch_drop_items [OF C] by (auto simp: in_lanes_def intro!: exI [of _ i])
  show ?thesis using in_lanes_replaced [OF q', of C x] now old new res by fastforce
qed

lemma lane_recv_keeps:
  assumes C: "chan_laws C" and r: "lane_recv C i q = (x, q')" and i: "i < length (txs q)" and t: "in_lanes C q t"
  shows "in_lanes C q' t \<or> x = RecvOk t"
proof -
  obtain y c where y: "ch_recv C (txs q ! i) = (y, c)" by fastforce
  with r have q': "txs q' = (txs q)[i := c]" and x: "\<And>m. y = RecvOk m \<Longrightarrow> x = RecvOk (qm_task m)"
    by (auto simp: lane_recv_def split: recv.splits)
  have now: "u \<in> qm_task ` set (ch_items C c) \<Longrightarrow> in_lanes C q' u" for u
    using i q' by (auto simp: in_lanes_def intro!: exI [of _ i])
  have "m \<in> set (ch_items C c) \<or> y = RecvOk m" if "m \<in> set (ch_items C (txs q ! i))" for m
    using that y ch_recv_Ok [OF C] ch_recv_Pending [OF C] ch_recv_Disconnected [OF C] by (cases y) fastforce+
  with in_lanes_replaced [OF q' t] now x show ?thesis by blast
qed

lemma lane_drop_receiver_keeps:
  assumes C: "chan_laws C" and r: "lane_drop_receiver C S i q = (rs, q')" and i: "i < length (txs q)"
    and t: "in_lanes C q t"
  shows "in_lanes C q' t \<or> mt_core t \<in> set rs"
proof -
  obtain ms c where y: "ch_drop_rx C (txs q ! i) = (ms, c)" by fastforce
  with r have q': "txs q' = (txs q)[i := c]" and rs: "rs = map (mt_core \<circ> qm_task) ms"
    by (auto simp: lane_drop_receiver_def Let_def)
  have now: "u \<in> qm_task ` set (ch_items C c) \<Longrightarrow> in_lanes C q' u" for u
    using i q' by (auto simp: in_lanes_def intro!: exI [of _ i])
  from in_lanes_replaced [OF q' t] ch_drop_rx_items [OF C y] now rs show ?thesis by fastforce
qed

text \<open>An operation that leaves the contents, the histories and the permits alone.\<close>

definition lanes_same ::
  "('r, 'q) queue_ops \<Rightarrow> 's sem_ops \<Rightarrow> ('q, 's) lane_queue \<Rightarrow> ('q, 's) lane_queue \<Rightarrow> bool" where
  "lanes_same C S q q' \<longleftrightarrow>
     lane_items C q' = lane_items C q \<and> in_lanes C q' = in_lanes C q \<and> length (txs q') = length (txs q) \<and>
     lane_sent q' = lane_sent q \<and> lane_received q' = lane_received q \<and>
     lane_permits S q' = lane_permits S q"

lemma lanes_same_refl [simp]: "lanes_same C S q q"
  by (simp add: lanes_same_def)

lemma lanes_same_ops:
  "chan_laws C \<Longrightarrow> lanes_same C S q (lane_close C i q)"
  "chan_laws C \<Longrightarrow> lanes_same C S q (lanes_close C q)"
  "chan_laws C \<Longrightarrow> lanes_same C S q (lanes_clone C q)"
  "chan_laws C \<Longrightarrow> lanes_same C S q (lanes_drop C q)"
  by (simp_all add: lanes_same_def lane_items_same in_lanes_same)
    (simp_all add: lane_close_def lanes_close_def lanes_clone_def lanes_drop_def lane_permits_def)

lemma lanes_same_route: "lanes_same C S q (snd (route q))"
  by (simp add: lanes_same_def route_def lane_permits_def in_lanes_def [abs_def])

lemma lanes_same_gate:
  "gate_get_permits S g = gate_get_permits S (lane_gate q) \<Longrightarrow> lanes_same C S q (q\<lparr>lane_gate := g\<rparr>)"
  by (simp add: lanes_same_def lane_permits_def in_lanes_def [abs_def])

lemma lanes_same_inv: "lanes_same C S q q' \<Longrightarrow> lanes_inv C k q' = lanes_inv C k q"
  by (auto simp: lanes_same_def lanes_inv_def)

lemma lanes_new_inv:
  assumes "chan_laws C"
  shows "lanes_inv C k (lanes_new C S k n)" "lanes_queued C (lanes_new C S k n) = 0"
  using assms by (auto simp: lanes_inv_def lanes_new_def lane_items_def ch_new_items sum_list_replicate)

lemma lane_push_effect:
  assumes C: "chan_laws C" and S: "sem_laws S" and inv: "lanes_inv C k q" and i: "i < k"
  obtains res q' where "lane_push C S t i q = Inr (res, q')" "lanes_inv C k q'"
    "lane_received q' = lane_received q"
    "res = Inr () \<and> lane_sent q' = (lane_sent q)[i := lane_sent q ! i @ [mt_core t]] \<and>
       lanes_queued C q' = Suc (lanes_queued C q) \<and> lane_permits S q' = lane_permits S q \<or>
     res = Inl QueueSendChannelClosed \<and> lane_sent q' = lane_sent q \<and>
       lanes_queued C q' = lanes_queued C q \<and> lane_permits S q' = lane_permits S q + 2"
proof -
  have len: "length (txs q) = k" "length (lane_sent q) = k" "length (lane_received q) = k"
    and ord: "lane_sent q ! i = lane_received q ! i @ lane_items C q ! i"
    using inv i by (auto simp: lanes_inv_def)
  obtain ok c where s: "ch_send C \<lparr>qm_task = t\<rparr> (ch_clone_tx C (txs q ! i)) = (ok, c)" by fastforce
  let ?cs = "(txs q)[i := ch_drop_tx C c]"
  note upd = lane_items_update [of C q i "ch_drop_tx C c", unfolded ch_drop_items [OF C]]
  have n: "lane_items C q ! i = map (mt_core \<circ> qm_task) (ch_items C (txs q ! i))"
    using lane_items_nth [of i q C] i len by simp
  show ?thesis
  proof (cases ok)
    case True
    let ?q = "q\<lparr>txs := ?cs, lane_sent := (lane_sent q)[i := lane_sent q ! i @ [mt_core t]]\<rparr>"
    have "ch_items C c = ch_items C (txs q ! i) @ [\<lparr>qm_task = t\<rparr>]"
      using s True by (simp add: ch_send_True [OF C] ch_clone_items [OF C])
    then have it: "lane_items C ?q = (lane_items C q)[i := lane_items C q ! i @ [mt_core t]]"
      using upd n by simp
    have "lanes_inv C k ?q"
      by (rule lanes_inv_update [OF inv i _ _ it, of "lane_sent q ! i @ [mt_core t]" "lane_received q ! i"])
        (simp add: ord, simp_all add: len)
    moreover have "lanes_queued C ?q = Suc (lanes_queued C q)"
      using lanes_queued_update [OF _ it] i len by simp
    ultimately show ?thesis
      using that [of "Inr ()" ?q] s True i len
      by (simp add: lane_push_def vec_get_def lane_permits_def)
  next
    case False
    let ?q = "q\<lparr>txs := ?cs, lane_gate := gate_release S (gate_release S (lane_gate q))\<rparr>"
    have "ch_items C c = ch_items C (txs q ! i)"
      using s False by (simp add: ch_send_False [OF C] ch_clone_items [OF C])
    then have it: "lane_items C ?q = (lane_items C q)[i := lane_items C q ! i]"
      using upd n by simp
    have "lanes_inv C k ?q"
      by (rule lanes_inv_update [OF inv i ord _ it]) (simp_all add: len)
    then show ?thesis
      using that [of "Inl QueueSendChannelClosed" ?q] s False i len it
      by (simp add: lane_push_def vec_get_def lane_permits_def gate.release_avail [OF S])
  qed
qed

lemma lane_recv_effect:
  assumes C: "chan_laws C" and inv: "lanes_inv C k q" and i: "i < k" and r: "lane_recv C i q = (x, q')"
  shows "lanes_inv C k q' \<and> lane_sent q' = lane_sent q \<and> lane_gate q' = lane_gate q \<and>
    (case x of
       RecvOk t \<Rightarrow> lane_received q' = (lane_received q)[i := lane_received q ! i @ [mt_core t]] \<and>
         lanes_queued C q = Suc (lanes_queued C q')
     | _ \<Rightarrow> lane_received q' = lane_received q \<and> lanes_queued C q' = lanes_queued C q)"
proof -
  have len: "length (txs q) = k" "length (lane_sent q) = k" "length (lane_received q) = k"
    and ord: "lane_sent q ! i = lane_received q ! i @ lane_items C q ! i"
    using inv i by (auto simp: lanes_inv_def)
  obtain y c where y: "ch_recv C (txs q ! i) = (y, c)" by fastforce
  note upd = lane_items_update [of C q i c]
  have n: "lane_items C q ! i = map (mt_core \<circ> qm_task) (ch_items C (txs q ! i))"
    using lane_items_nth [of i q C] i len by simp
  have empty: "lanes_inv C k (q\<lparr>txs := (txs q)[i := c]\<rparr>) \<and>
      lanes_queued C (q\<lparr>txs := (txs q)[i := c]\<rparr>) = lanes_queued C q"
    if "ch_items C (txs q ! i) = [] \<and> ch_items C c = []"
  proof -
    have it: "lane_items C (q\<lparr>txs := (txs q)[i := c]\<rparr>) = lane_items C q"
      using upd n that list_update_id [of "lane_items C q" i] by simp
    then show ?thesis using inv by (simp add: lanes_inv_def)
  qed
  show ?thesis
  proof (cases y)
    case (RecvOk m)
    let ?r = "mt_core (qm_task m)"
    let ?q = "q\<lparr>txs := (txs q)[i := c],
       lane_received := (lane_received q)[i := lane_received q ! i @ [?r]]\<rparr>"
    let ?it = "map (mt_core \<circ> qm_task) (ch_items C c)"
    have q': "x = RecvOk (qm_task m)" "q' = ?q" using r y RecvOk by (simp_all add: lane_recv_def)
    have "ch_items C (txs q ! i) = m # ch_items C c" using y RecvOk ch_recv_Ok [OF C] by simp
    then have old: "lane_items C q ! i = ?r # ?it" using n by simp
    have it: "lane_items C ?q = (lane_items C q)[i := ?it]" using upd by simp
    have "lanes_inv C k ?q"
      by (rule lanes_inv_update [OF inv i _ _ it, of "lane_sent q ! i"])
        (simp add: ord old, simp_all add: len)
    moreover have "lanes_queued C q = Suc (lanes_queued C ?q)"
      using lanes_queued_update [OF _ it] i len old by simp
    ultimately show ?thesis by (simp add: q')
  next
    case RecvPending
    with r y empty ch_recv_Pending [OF C, of "txs q ! i" c] show ?thesis by (auto simp: lane_recv_def)
  next
    case RecvDisconnected
    with r y empty ch_recv_Disconnected [OF C, of "txs q ! i" c] show ?thesis by (auto simp: lane_recv_def)
  qed
qed

lemma lane_drop_receiver_effect:
  assumes C: "chan_laws C" and S: "sem_laws S" and inv: "lanes_inv C k q" and i: "i < k"
    and r: "lane_drop_receiver C S i q = (rs, q')"
  shows "lanes_inv C k q' \<and> lane_sent q' = lane_sent q \<and>
    lane_received q' = (lane_received q)[i := lane_received q ! i @ rs] \<and>
    lanes_queued C q = length rs + lanes_queued C q' \<and>
    lane_permits S q' = lane_permits S q + length rs"
proof -
  have len: "length (txs q) = k" "length (lane_sent q) = k" "length (lane_received q) = k"
    and ord: "lane_sent q ! i = lane_received q ! i @ lane_items C q ! i"
    using inv i by (auto simp: lanes_inv_def)
  obtain ms c where y: "ch_drop_rx C (txs q ! i) = (ms, c)" by fastforce
  let ?it = "map (mt_core \<circ> qm_task) (ch_items C c)"
  have rs: "rs = map (mt_core \<circ> qm_task) ms"
    and q': "q' = q\<lparr>txs := (txs q)[i := c], lane_gate := (gate_release S ^^ length ms) (lane_gate q),
       lane_received := (lane_received q)[i := lane_received q ! i @ rs]\<rparr>"
    using r y by (auto simp: lane_drop_receiver_def Let_def)
  have it: "lane_items C q' = (lane_items C q)[i := ?it]"
    using lane_items_update [of C q i c] by (simp add: q')
  have old: "lane_items C q ! i = rs @ ?it"
    using ch_drop_rx_items [OF C y] lane_items_nth [of i q C] i len by (simp add: rs)
  have "lanes_inv C k q'"
    by (rule lanes_inv_update [OF inv i _ _ it, of "lane_sent q ! i"])
      (simp add: ord old, simp_all add: len q')
  moreover have "lanes_queued C q = length rs + lanes_queued C q'"
    using lanes_queued_update [OF _ it] i len old by simp
  ultimately show ?thesis
    by (simp add: q' lane_permits_def gate_release_funpow [OF S] rs)
qed

end
