(* ===== verification/Rlxd.thy ===== *)
theory Rlxd
  imports Active Pool LaneQueue
begin

text \<open>
  \<open>rlxd.rs\<close>: the relaxed pool \<open>FuturePoolManagerRlxd\<close>. Several dispatchers run side by side, each
  with a lane of its own, and \<open>submit\<close> may spawn a task directly. The state holds what is shared
  and the program counter of every activity; each step is the code between two points where
  another thread may run. An index out of range, a remainder by zero and a panic of the
  slot array lead to a \<open>Panicked\<close> program counter.
\<close>

section \<open>State\<close>

text \<open>\<open>submit_inner\<close>, from the first read of the queue's length on.\<close>

datatype submit_pc =
    SubLen nat nat    \<comment> \<open>adding up the queue's length: the next lane, the sum so far\<close>
  | SubTry            \<comment> \<open>read no queued task, about to try the concurrency gate\<close>
  | SubRoute          \<comment> \<open>direct dispatch, permit in hand: about to choose a shard\<close>
  | SubCount nat      \<comment> \<open>\<open>insert\<close> into this shard: about to count\<close>
  | SubStore nat      \<comment> \<open>\<open>insert\<close> into this shard: about to take the lock\<close>
  | SubSpawn nat      \<comment> \<open>registered there, about to spawn\<close>
  | SubDirect         \<comment> \<open>returned after a direct dispatch\<close>
  | SubSend lane_send_pc \<comment> \<open>in \<open>RlxdQueueProducer::send\<close>\<close>
  | SubPanicked

text \<open>\<open>run_worker_loop\<close>, one per lane.\<close>

datatype 'r lane_pc =
    LTop                     \<comment> \<open>at the top of the loop\<close>
  | LPollRecv                \<comment> \<open>at the first \<open>select!\<close>, polling the queue\<close>
  | LPollRecvToken           \<comment> \<open>at the first \<open>select!\<close>, polling the token\<close>
  | LReceived "'r managed_task" \<comment> \<open>received a message, at the guard of the match\<close>
  | LGot "'r managed_task"   \<comment> \<open>took the task out of the message, at the check of its flag\<close>
  | LCancelled core_ref      \<comment> \<open>sent \<open>TaskCancelled\<close>, about to look for the completion sender\<close>
  | LNotify core_ref         \<comment> \<open>holding a clone of the sender, about to send the completion\<close>
  | LPollPermit "'r managed_task" \<comment> \<open>at the second \<open>select!\<close>, polling the permit\<close>
  | LPollPermitToken "'r managed_task" \<comment> \<open>at the second \<open>select!\<close>, polling the token\<close>
  | LCheck "'r managed_task" \<comment> \<open>permit in hand, at the last check of the token\<close>
  | LCount "'r managed_task" \<comment> \<open>in \<open>spawn_task\<close>, about to count the task\<close>
  | LStore "'r managed_task" \<comment> \<open>about to store it\<close>
  | LSpawn "'r managed_task" \<comment> \<open>about to spawn it\<close>
  | LExit                    \<comment> \<open>out of the loop\<close>
  | LStopped
  | LPanicked

fun lane_stopped :: "'r lane_pc \<Rightarrow> bool" where
  "lane_stopped LStopped = True"
| "lane_stopped _ = False"

fun lane_panicked :: "'r lane_pc \<Rightarrow> bool" where
  "lane_panicked LPanicked = True"
| "lane_panicked _ = False"

lemma lane_stopped_iff [simp]: "lane_stopped d \<longleftrightarrow> d = LStopped"
  by (cases d) auto

lemma lane_panicked_iff [simp]: "lane_panicked d \<longleftrightarrow> d = LPanicked"
  by (cases d) auto

text \<open>The future that \<open>spawn_task\<close> spawns.\<close>

datatype 'r run_pc =
    RPollFuture
  | RReady "unit + 'r"
  | RPollCancel
  | RSend "'r task_result"
  | RNotify task_completion_status
  | RMark       \<comment> \<open>about to mark the core finished\<close>
  | RFinish     \<comment> \<open>about to decrement the shard's counter\<close>
  | RRelease    \<comment> \<open>end of the async block: the permit guard is dropped\<close>
  | RDone

record 'r run_task =
  rt_task :: "'r managed_task"
  rt_shard :: nat
  rt_direct :: bool   \<comment> \<open>history: dispatched by \<open>submit\<close> itself\<close>
  rt_notify :: bool   \<comment> \<open>holds a clone of the completion sender\<close>
  rt_polls :: nat
  rt_pc :: "'r run_pc"

text \<open>
  A sweep: list the tasks of the shards one after another, then cancel them one after another.
  \<open>Some ls\<close> selects by label, \<open>None\<close> selects every task.
\<close>

datatype sweep_pc =
    SweepRead nat "core_ref list"  \<comment> \<open>the next shard, the tasks listed so far\<close>
  | SweepCancel "core_ref list"    \<comment> \<open>these are still to be cancelled\<close>
  | SweepDone

datatype stop_pc =
    StopStart shutdown_mode
  | StopCancel shutdown_mode
  | StopClose shutdown_mode nat \<comment> \<open>closing the lanes, the next one\<close>
  | StopSweep sweep_pc
  | StopCount bool nat usize \<comment> \<open>reading \<open>initially_active\<close>: the next shard, the sum so far; the
                                 flag is \<open>already_initiating_shutdown\<close>\<close>
  | StopWait bool nat usize  \<comment> \<open>in the wait loop, reading the shards at a tick\<close>
  | StopTakeHandles bool
  | StopJoin bool "nat list" \<comment> \<open>the dispatchers still to be joined\<close>
  | StopSink bool
  | StopTakeNotifier
  | StopJoinNotifier
  | StopDrop
  | StopDone
  | StopAbandoned      \<comment> \<open>the future was dropped\<close>

text \<open>
  A call of \<open>active_task_count\<close> or \<open>queued_task_count\<close>: the next shard or lane to read, the sum so
  far. The call has returned when every one is read.
\<close>

datatype gauge_pc = GaugeActive nat usize | GaugeQueued nat nat

record ('r, 'n, 's, 'q, 'c, 'o, 'h) rlxd = "('r, 'n, 's, 'c, 'o, 'h) pool_base" +
  lane_queue :: "('q, 's) lane_queue"
  shards :: "deferred_registry list"
  dispatchers :: "'r lane_pc list"
  submissions :: "('r managed_task \<times> submit_pc) list"
  spawned :: "'r run_task list"
  join_handles :: "nat list"    \<comment> \<open>the dispatchers whose handles are in \<open>worker_join_handles\<close>\<close>
  label_sweeps :: "(task_label set \<times> sweep_pc) list"
  stops :: "stop_pc list"
  gauges :: "gauge_pc list"

text \<open>\<open>FuturePoolManagerRlxd::new\<close>: every dispatcher starts at the top of its loop.\<close>

definition rlxd_new ::
  "('r, 'n, 's, 'q, 'c, 'o, 'h) env \<Rightarrow> nat \<Rightarrow> nat \<Rightarrow> nat \<Rightarrow> string \<Rightarrow>
     ('r, 'n, 's, 'q, 'c, 'o, 'h) rlxd" where
  "rlxd_new E concurrency_limit queue_capacity n name =
     (let k = max n 1 in
      \<lparr>pool_name = name, cores = [], oneshots = [], handles = [], next_task_id = 0,
       shutdown_token = cancel_state_new (n_ops E),
       concurrency_gate = gate_new (s_ops E) (max concurrency_limit 1),
       completion_notifier = notifier_new (c_ops E), drops = [], idle_managers = 1, shutdown_guard = 1,
       lane_queue = lanes_new (q_ops E) (s_ops E) k (max queue_capacity 1),
       shards = map (\<lambda>_. deferred_with_capacity (max concurrency_limit 1)) [0..<k],
       dispatchers = replicate k LTop, submissions = [], spawned = [], join_handles = [0..<k],
       label_sweeps = [], stops = [], gauges = []\<rparr>)"

section \<open>The manager's methods\<close>

text \<open>
  The two counts add up one counter, or one lane's length, after another while the pool goes on;
  \<open>gauge_step\<close> is one of these reads.
\<close>

definition rlxd_active_task_count ::
  "('r, 'n, 's, 'q, 'c, 'o, 'h) rlxd \<Rightarrow> ('r, 'n, 's, 'q, 'c, 'o, 'h) rlxd" where
  "rlxd_active_task_count p = p\<lparr>gauges := gauges p @ [GaugeActive 0 0]\<rparr>"

definition rlxd_queued_task_count ::
  "('r, 'n, 's, 'q, 'c, 'o, 'h) rlxd \<Rightarrow> ('r, 'n, 's, 'q, 'c, 'o, 'h) rlxd" where
  "rlxd_queued_task_count p = p\<lparr>gauges := gauges p @ [GaugeQueued 0 0]\<rparr>"

definition gauge_step ::
  "('r, 'n, 's, 'q, 'c, 'o, 'h) env \<Rightarrow> nat \<Rightarrow> ('r, 'n, 's, 'q, 'c, 'o, 'h) rlxd \<Rightarrow>
     ('r, 'n, 's, 'q, 'c, 'o, 'h) rlxd option" where
  "gauge_step E i p =
     (if i < length (gauges p) then
        (let goto = (\<lambda>g. p\<lparr>gauges := (gauges p)[i := g]\<rparr>) in
         case gauges p ! i of
           GaugeActive k n \<Rightarrow>
             (if k < length (shards p) then Some (goto (GaugeActive (Suc k) (n + deferred_len (shards p ! k))))
              else None)
         | GaugeQueued k n \<Rightarrow>
             (if k < length (txs (lane_queue p))
              then Some (goto (GaugeQueued (Suc k) (n + lane_len (q_ops E) k (lane_queue p)))) else None))
      else None)"

lemmas gauge_defs = rlxd_active_task_count_def rlxd_queued_task_count_def

lemma gauge_step_frame: "gauge_step E i p = Some q \<Longrightarrow> \<exists>g. q = p\<lparr>gauges := g\<rparr>"
  by (auto simp: gauge_step_def Let_def split: if_splits gauge_pc.splits)

text \<open>What the call \<open>i\<close>, of \<open>active_task_count\<close>, returned, once it has.\<close>

definition active_task_count_result :: "('r, 'n, 's, 'q, 'c, 'o, 'h) rlxd \<Rightarrow> nat \<Rightarrow> usize option" where
  "active_task_count_result p i =
     (case gauges p ! i of GaugeActive k n \<Rightarrow> if k < length (shards p) then None else Some n
                         | GaugeQueued _ _ \<Rightarrow> None)"

text \<open>
  \<open>submit_inner\<close> up to the first read of the queue's length: the check, the new id, the core
  and the oneshot. The call's number, the core's address and the oneshot's index are the same.
\<close>

definition rlxd_submit_begin ::
  "('r, 'n, 's, 'q, 'c, 'o, 'h) env \<Rightarrow> task_label set \<Rightarrow> 'r task_to_execute \<Rightarrow>
     ('r, 'n, 's, 'q, 'c, 'o, 'h) rlxd \<Rightarrow> pool_error + ('r, 'n, 's, 'q, 'c, 'o, 'h) rlxd" where
  "rlxd_submit_begin E ls f p =
     (if shutting_down p \<or> lanes_is_closed (q_ops E) (lane_queue p) then Inl PoolShuttingDown
      else
        let r = length (cores p) in
        Inr (p\<lparr>next_task_id := next_task_id p + 1,
               cores := cores p @ [core_new (n_ops E) (next_task_id p) ls],
               oneshots := oneshots p @ [os_new (o_ops E)],
               handles := handles p @ [\<lparr>hs_handle = handle_new r, hs_polling = False, hs_result = None\<rparr>],
               submissions := submissions p @ [(\<lparr>mt_core = r, mt_future = f\<rparr>, SubLen 0 0)]\<rparr>))"

definition rlxd_submit_result ::
  "('r, 'n, 's, 'q, 'c, 'o, 'h) rlxd \<Rightarrow> core_ref \<Rightarrow> (pool_error + task_handle) option" where
  "rlxd_submit_result p r =
     (case snd (submissions p ! r) of
        SubDirect \<Rightarrow> Some (Inr (hs_handle (handles p ! r)))
      | SubSend (LaneDone (Inr _)) \<Rightarrow> Some (Inr (hs_handle (handles p ! r)))
      | SubSend (LaneDone (Inl e)) \<Rightarrow> Some (Inl e)
      | _ \<Rightarrow> None)"

section \<open>Spawning a task\<close>

text \<open>
  \<open>spawn_task\<close>: \<open>ShardHandle::insert\<close>, which counts the task and then stores it under the
  shard's lock, and the spawn of the future with a clone of the completion sender, if any.
\<close>

definition shard_count ::
  "nat \<Rightarrow> ('r, 'n, 's, 'q, 'c, 'o, 'h) rlxd \<Rightarrow> ('r, 'n, 's, 'q, 'c, 'o, 'h) rlxd outcome" where
  "shard_count k p =
     (case vec_get (shards p) k of
        Inl e \<Rightarrow> Inl e
      | Inr d \<Rightarrow> Inr (p\<lparr>shards := (shards p)[k := deferred_count d]\<rparr>))"

definition shard_store ::
  "nat \<Rightarrow> core_ref \<Rightarrow> ('r, 'n, 's, 'q, 'c, 'o, 'h) rlxd \<Rightarrow> ('r, 'n, 's, 'q, 'c, 'o, 'h) rlxd outcome" where
  "shard_store k r p =
     (case vec_get (shards p) k of
        Inl e \<Rightarrow> Inl e
      | Inr d \<Rightarrow>
          (case deferred_store (cores p) r d of
             Inl e \<Rightarrow> Inl e
           | Inr d' \<Rightarrow> Inr (p\<lparr>shards := (shards p)[k := d']\<rparr>)))"

definition shard_finish ::
  "nat \<Rightarrow> ('r, 'n, 's, 'q, 'c, 'o, 'h) rlxd \<Rightarrow> ('r, 'n, 's, 'q, 'c, 'o, 'h) rlxd" where
  "shard_finish k p = p\<lparr>shards := (shards p)[k := deferred_finish (shards p ! k)]\<rparr>"

definition spawn_future ::
  "('r, 'n, 's, 'q, 'c, 'o, 'h) env \<Rightarrow> bool \<Rightarrow> 'r managed_task \<Rightarrow> nat \<Rightarrow>
     ('r, 'n, 's, 'q, 'c, 'o, 'h) rlxd \<Rightarrow> ('r, 'n, 's, 'q, 'c, 'o, 'h) rlxd" where
  "spawn_future E direct t k p =
     (let (b, n) = sink_sender (c_ops E) (completion_notifier p) in
      p\<lparr>completion_notifier := n,
        spawned := spawned p @ [\<lparr>rt_task = t, rt_shard = k, rt_direct = direct, rt_notify = b,
                                 rt_polls = 0, rt_pc = RPollFuture\<rparr>]\<rparr>)"

section \<open>Submission\<close>

definition set_submission ::
  "nat \<Rightarrow> submit_pc \<Rightarrow> ('r, 'n, 's, 'q, 'c, 'o, 'h) rlxd \<Rightarrow> ('r, 'n, 's, 'q, 'c, 'o, 'h) rlxd" where
  "set_submission r pc p = p\<lparr>submissions := (submissions p)[r := (fst (submissions p ! r), pc)]\<rparr>"

text \<open>A step inside \<open>send\<close>; a failed send drops both halves of the oneshot.\<close>

definition rlxd_send_step ::
  "('r, 'n, 's, 'q, 'c, 'o, 'h) env \<Rightarrow> nat \<Rightarrow> lane_send_pc \<Rightarrow> ('r, 'n, 's, 'q, 'c, 'o, 'h) rlxd \<Rightarrow>
     ('r, 'n, 's, 'q, 'c, 'o, 'h) rlxd option" where
  "rlxd_send_step E r pc p =
     (case lane_send_step (q_ops E) (s_ops E) (shutting_down p) r (fst (submissions p ! r)) pc (lane_queue p) of
        None \<Rightarrow> None
      | Some (pc', q) \<Rightarrow>
          Some (set_submission r (SubSend pc') (p\<lparr>lane_queue := q,
            oneshots := (case pc' of LaneDone (Inl _) \<Rightarrow> discard_oneshot E r (oneshots p)
                                   | _ \<Rightarrow> oneshots p)\<rparr>)))"

definition submission_step ::
  "('r, 'n, 's, 'q, 'c, 'o, 'h) env \<Rightarrow> nat \<Rightarrow> ('r, 'n, 's, 'q, 'c, 'o, 'h) rlxd \<Rightarrow>
     ('r, 'n, 's, 'q, 'c, 'o, 'h) rlxd option" where
  "submission_step E r p =
     (if r < length (submissions p) then
        (case snd (submissions p ! r) of
           SubLen k n \<Rightarrow>
             Some (set_submission r
               (if k < length (txs (lane_queue p)) then SubLen (Suc k) (n + lane_len (q_ops E) k (lane_queue p))
                else if n = 0 then SubTry else SubSend LaneCheck) p)
         | SubTry \<Rightarrow>
             Some (case gate_try_acquire_owned (s_ops E) (concurrency_gate p) of
                Some g \<Rightarrow> set_submission r SubRoute (p\<lparr>concurrency_gate := g\<rparr>)
              | None \<Rightarrow> set_submission r (SubSend LaneCheck) p)
         | SubRoute \<Rightarrow>
             (let (x, q) = route (lane_queue p) in
              Some (set_submission r
                (case usize_rem x (length (shards p)) of Inl _ \<Rightarrow> SubPanicked | Inr k \<Rightarrow> SubCount k)
                (p\<lparr>lane_queue := q\<rparr>)))
         | SubCount k \<Rightarrow>
             Some (case shard_count k p of
                Inl _ \<Rightarrow> set_submission r SubPanicked p | Inr p' \<Rightarrow> set_submission r (SubStore k) p')
         | SubStore k \<Rightarrow>
             Some (case shard_store k (mt_core (fst (submissions p ! r))) p of
                Inl _ \<Rightarrow> set_submission r SubPanicked p | Inr p' \<Rightarrow> set_submission r (SubSpawn k) p')
         | SubSpawn k \<Rightarrow>
             Some (set_submission r SubDirect (spawn_future E True (fst (submissions p ! r)) k p))
         | SubDirect \<Rightarrow> None
         | SubSend pc \<Rightarrow> rlxd_send_step E r pc p
         | SubPanicked \<Rightarrow> None)
      else None)"

text \<open>The future of \<open>submit\<close> is suspended, and may be dropped, only at the \<open>select!\<close> of \<open>send\<close>.\<close>

definition submission_abandon ::
  "('r, 'n, 's, 'q, 'c, 'o, 'h) env \<Rightarrow> nat \<Rightarrow> ('r, 'n, 's, 'q, 'c, 'o, 'h) rlxd \<Rightarrow>
     ('r, 'n, 's, 'q, 'c, 'o, 'h) rlxd option" where
  "submission_abandon E r p =
     (if r < length (submissions p) \<and> snd (submissions p ! r) = SubSend LanePollGate then
        Some (set_submission r (SubSend LaneDropped)
          (p\<lparr>lane_queue := (lane_queue p)\<lparr>lane_gate :=
               gate_drop_acquire (s_ops E) r (lane_gate (lane_queue p))\<rparr>,
             oneshots := discard_oneshot E r (oneshots p)\<rparr>))
      else None)"

text \<open>The steps of a returned handle.\<close>

definition rlxd_with_handle ::
  "core_ref \<Rightarrow> (task_handle \<Rightarrow> ('r, 'n, 's, 'q, 'c, 'o, 'h) rlxd option) \<Rightarrow>
     ('r, 'n, 's, 'q, 'c, 'o, 'h) rlxd \<Rightarrow> ('r, 'n, 's, 'q, 'c, 'o, 'h) rlxd option" where
  "rlxd_with_handle r f p =
     (if r < length (handles p)
      then (case rlxd_submit_result p r of Some (Inr t) \<Rightarrow> f t | _ \<Rightarrow> None) else None)"

section \<open>The dispatchers\<close>

definition set_lane ::
  "nat \<Rightarrow> 'r lane_pc \<Rightarrow> ('r, 'n, 's, 'q, 'c, 'o, 'h) rlxd \<Rightarrow> ('r, 'n, 's, 'q, 'c, 'o, 'h) rlxd" where
  "set_lane i pc p = p\<lparr>dispatchers := (dispatchers p)[i := pc]\<rparr>"

definition drop_task ::
  "('r, 'n, 's, 'q, 'c, 'o, 'h) env \<Rightarrow> 'r managed_task \<Rightarrow> ('r, 'n, 's, 'q, 'c, 'o, 'h) rlxd \<Rightarrow>
     ('r, 'n, 's, 'q, 'c, 'o, 'h) rlxd" where
  "drop_task E t p = p\<lparr>oneshots := drop_senders E [mt_core t] (oneshots p)\<rparr>"

definition release_queue_permit ::
  "('r, 'n, 's, 'q, 'c, 'o, 'h) env \<Rightarrow> ('r, 'n, 's, 'q, 'c, 'o, 'h) rlxd \<Rightarrow>
     ('r, 'n, 's, 'q, 'c, 'o, 'h) rlxd" where
  "release_queue_permit E p = p\<lparr>lane_queue := lane_release (s_ops E) (lane_queue p)\<rparr>"

text \<open>
  The clones of the manager and the dispatchers share the sink's \<open>OnceLock\<close>; when the last of them
  is gone, the sender in it is dropped, as \<open>close\<close> would.
\<close>

definition rlxd_release_sink ::
  "('r, 'n, 's, 'q, 'c, 'o, 'h) env \<Rightarrow> ('r, 'n, 's, 'q, 'c, 'o, 'h) rlxd \<Rightarrow>
     ('r, 'n, 's, 'q, 'c, 'o, 'h) rlxd" where
  "rlxd_release_sink E p =
     (if shutdown_guard p = 0 \<and> list_all lane_stopped (dispatchers p)
      then p\<lparr>completion_notifier := sink_close (c_ops E) (completion_notifier p)\<rparr> else p)"

text \<open>The dispatcher of lane \<open>i\<close>; its number is also its place in the concurrency gate's waiters.\<close>

definition lane_step ::
  "('r, 'n, 's, 'q, 'c, 'o, 'h) env \<Rightarrow> nat \<Rightarrow> ('r, 'n, 's, 'q, 'c, 'o, 'h) rlxd \<Rightarrow>
     ('r, 'n, 's, 'q, 'c, 'o, 'h) rlxd option" where
  "lane_step E i p =
     (if i < length (dispatchers p) then
        (case dispatchers p ! i of
           LTop \<Rightarrow> Some (set_lane i (if shutting_down p then LExit else LPollRecv) p)
         | LPollRecv \<Rightarrow>
             (let (x, q) = lane_recv (q_ops E) i (lane_queue p) in
              Some (set_lane i (case x of RecvOk t \<Rightarrow> LReceived t | RecvDisconnected \<Rightarrow> LExit
                                        | RecvPending \<Rightarrow> LPollRecvToken) (p\<lparr>lane_queue := q\<rparr>)))
         | LPollRecvToken \<Rightarrow> Some (set_lane i (if shutting_down p then LExit else LPollRecv) p)
         | LReceived t \<Rightarrow>
             Some (if shutting_down p then set_lane i LExit (drop_task E t (release_queue_permit E p))
                   else set_lane i (LGot t) (release_queue_permit E p))
         | LGot t \<Rightarrow>
             Some (if core_cancelled p (mt_core t)
                   then set_lane i (LCancelled (mt_core t))
                          (p\<lparr>oneshots := (oneshots p)[mt_core t :=
                               snd (os_send (o_ops E) (Inl TaskCancelled) (oneshots p ! mt_core t))]\<rparr>)
                   else set_lane i (LPollPermit t) p)
         | LCancelled r \<Rightarrow>
             (let (b, n) = sink_sender (c_ops E) (completion_notifier p) in
              Some (set_lane i (if b then LNotify r else LTop) (p\<lparr>completion_notifier := n\<rparr>)))
         | LNotify r \<Rightarrow>
             (let m = \<lparr>cm_pool_name = pool_name p, cm_core = r, cm_status = Cancelled\<rparr> in
              Some (set_lane i LTop
                (p\<lparr>completion_notifier := send_completion (c_ops E) m (completion_notifier p)\<rparr>)))
         | LPollPermit t \<Rightarrow>
             (let (b, g) = gate_poll_acquire (s_ops E) i (concurrency_gate p) in
              Some (set_lane i (if b then LCheck t else LPollPermitToken t) (p\<lparr>concurrency_gate := g\<rparr>)))
         | LPollPermitToken t \<Rightarrow>
             Some (if shutting_down p
                   then set_lane i LExit (drop_task E t
                          (p\<lparr>concurrency_gate := gate_drop_acquire (s_ops E) i (concurrency_gate p)\<rparr>))
                   else set_lane i (LPollPermit t) p)
         | LCheck t \<Rightarrow>
             Some (if shutting_down p then set_lane i LExit (drop_task E t (release_permit E p))
                   else set_lane i (LCount t) p)
         | LCount t \<Rightarrow>
             Some (case shard_count i p of
                Inl _ \<Rightarrow> set_lane i LPanicked p | Inr p' \<Rightarrow> set_lane i (LStore t) p')
         | LStore t \<Rightarrow>
             Some (case shard_store i (mt_core t) p of
                Inl _ \<Rightarrow> set_lane i LPanicked p | Inr p' \<Rightarrow> set_lane i (LSpawn t) p')
         | LSpawn t \<Rightarrow> Some (set_lane i LTop (spawn_future E False t i p))
         | LExit \<Rightarrow>
             (let (rs, q) = lane_drop_receiver (q_ops E) (s_ops E) i (lane_queue p) in
              Some (rlxd_release_sink E (set_lane i LStopped
                (p\<lparr>lane_queue := q, oneshots := drop_senders E rs (oneshots p)\<rparr>))))
         | LStopped \<Rightarrow> None
         | LPanicked \<Rightarrow> None)
      else None)"

section \<open>A spawned task\<close>

definition set_run ::
  "nat \<Rightarrow> 'r run_pc \<Rightarrow> ('r, 'n, 's, 'q, 'c, 'o, 'h) rlxd \<Rightarrow> ('r, 'n, 's, 'q, 'c, 'o, 'h) rlxd" where
  "set_run i pc p = p\<lparr>spawned := (spawned p)[i := (spawned p ! i)\<lparr>rt_pc := pc\<rparr>]\<rparr>"

definition run_step ::
  "('r, 'n, 's, 'q, 'c, 'o, 'h) env \<Rightarrow> nat \<Rightarrow> ('r, 'n, 's, 'q, 'c, 'o, 'h) rlxd \<Rightarrow>
     ('r, 'n, 's, 'q, 'c, 'o, 'h) rlxd option" where
  "run_step E i p =
     (if i < length (spawned p) then
        (let t = spawned p ! i; r = mt_core (rt_task t) in
         case rt_pc t of
           RPollFuture \<Rightarrow>
             Some (set_run i (case catch_unwind (mt_future (rt_task t) (rt_polls t)) of
                                Some x \<Rightarrow> RReady x | None \<Rightarrow> RPollCancel)
               (p\<lparr>spawned := (spawned p)[i := t\<lparr>rt_polls := Suc (rt_polls t)\<rparr>]\<rparr>))
         | RReady x \<Rightarrow> Some (set_run i (RSend (ready_outcome (core_cancelled p r) x)) p)
         | RPollCancel \<Rightarrow>
             Some (set_run i (if core_cancelled p r then RSend (Inl TaskCancelled) else RPollFuture) p)
         | RSend res \<Rightarrow>
             Some (set_run i (if rt_notify t then RNotify (status_from res) else RMark)
               (p\<lparr>oneshots := (oneshots p)[r := snd (os_send (o_ops E) res (oneshots p ! r))]\<rparr>))
         | RNotify st \<Rightarrow>
             (let m = \<lparr>cm_pool_name = pool_name p, cm_core = r, cm_status = st\<rparr> in
              Some (set_run i RMark
                (p\<lparr>completion_notifier := send_completion (c_ops E) m (completion_notifier p)\<rparr>)))
         | RMark \<Rightarrow> Some (set_run i RFinish (p\<lparr>cores := heap_mark_finished r (cores p)\<rparr>))
         | RFinish \<Rightarrow> Some (set_run i RRelease (shard_finish (rt_shard t) p))
         | RRelease \<Rightarrow> Some (set_run i RDone (release_permit E p))
         | RDone \<Rightarrow> None)
      else None)"

end
