(* ===== verification/RlxdPool.thy ===== *)
theory RlxdPool
  imports Rlxd
begin

text \<open>
  The rest of \<open>rlxd.rs\<close>: cancellation by label, \<open>shutdown\<close>, \<open>Drop\<close>, and the machine
  \<open>rlxd_step\<close> that puts all the activities of the relaxed pool together.
\<close>

section \<open>Sweeps\<close>

text \<open>What one shard lists: the tasks that share a label, or all of them.\<close>

fun shard_tokens :: "'n heap \<Rightarrow> task_label set option \<Rightarrow> deferred_registry \<Rightarrow> core_ref list" where
  "shard_tokens h None d = deferred_all_tokens h d"
| "shard_tokens h (Some ls) d = deferred_tokens_matching h ls d"

fun sweep_step ::
  "'n notify_ops \<Rightarrow> task_label set option \<Rightarrow> deferred_registry list \<Rightarrow> sweep_pc \<Rightarrow> 'n heap \<Rightarrow>
     (sweep_pc \<times> 'n heap) option" where
  "sweep_step N sel ds (SweepRead k rs) h =
     Some (if k < length ds then SweepRead (Suc k) (rs @ shard_tokens h sel (ds ! k)) else SweepCancel rs, h)"
| "sweep_step N sel ds (SweepCancel (r # rs)) h = Some (SweepCancel rs, heap_cancel N r h)"
| "sweep_step N sel ds (SweepCancel []) h = Some (SweepDone, h)"
| "sweep_step N sel ds SweepDone h = None"

text \<open>\<open>cancel_tasks_by_labels_internal\<close>, behind both public methods.\<close>

definition rlxd_cancel_tasks_by_labels ::
  "task_label set \<Rightarrow> ('r, 'n, 's, 'q, 'c, 'o, 'h) rlxd \<Rightarrow> ('r, 'n, 's, 'q, 'c, 'o, 'h) rlxd" where
  "rlxd_cancel_tasks_by_labels ls p =
     (if ls = {} then p else p\<lparr>label_sweeps := label_sweeps p @ [(ls, SweepRead 0 [])]\<rparr>)"

definition rlxd_cancel_tasks_by_label ::
  "task_label \<Rightarrow> ('r, 'n, 's, 'q, 'c, 'o, 'h) rlxd \<Rightarrow> ('r, 'n, 's, 'q, 'c, 'o, 'h) rlxd" where
  "rlxd_cancel_tasks_by_label l p = rlxd_cancel_tasks_by_labels {l} p"

definition label_sweep_step ::
  "('r, 'n, 's, 'q, 'c, 'o, 'h) env \<Rightarrow> nat \<Rightarrow> ('r, 'n, 's, 'q, 'c, 'o, 'h) rlxd \<Rightarrow>
     ('r, 'n, 's, 'q, 'c, 'o, 'h) rlxd option" where
  "label_sweep_step E i p =
     (if i < length (label_sweeps p) then
        (case sweep_step (n_ops E) (Some (fst (label_sweeps p ! i))) (shards p)
                (snd (label_sweeps p ! i)) (cores p) of
           None \<Rightarrow> None
         | Some (pc, h) \<Rightarrow>
             Some (p\<lparr>cores := h, label_sweeps := (label_sweeps p)[i := (fst (label_sweeps p ! i), pc)]\<rparr>))
      else None)"

section \<open>Shutdown and drop\<close>

definition set_stop ::
  "nat \<Rightarrow> stop_pc \<Rightarrow> ('r, 'n, 's, 'q, 'c, 'o, 'h) rlxd \<Rightarrow> ('r, 'n, 's, 'q, 'c, 'o, 'h) rlxd" where
  "set_stop i pc p = p\<lparr>stops := (stops p)[i := pc]\<rparr>"

text \<open>
  One step of the \<open>i\<close>-th call of \<open>shutdown\<close>. \<open>close\<close> closes the lanes, and \<open>active_task_count\<close>
  reads the shards, one after another. At a join the step is the return of the awaited task.
\<close>

definition stop_step ::
  "('r, 'n, 's, 'q, 'c, 'o, 'h) env \<Rightarrow> nat \<Rightarrow> ('r, 'n, 's, 'q, 'c, 'o, 'h) rlxd \<Rightarrow>
     ('r, 'n, 's, 'q, 'c, 'o, 'h) rlxd option" where
  "stop_step E i p =
     (if i < length (stops p) then
        (case stops p ! i of
           StopStart m \<Rightarrow>
             Some (set_stop i (if shutting_down p then StopCount True 0 0 else StopCancel m) p)
         | StopCancel m \<Rightarrow>
             Some (set_stop i (StopClose m 0) (p\<lparr>shutdown_token := cancel (n_ops E) (shutdown_token p)\<rparr>))
         | StopClose m k \<Rightarrow>
             Some (if k < length (txs (lane_queue p))
                   then set_stop i (StopClose m (Suc k)) (p\<lparr>lane_queue := lane_close (q_ops E) k (lane_queue p)\<rparr>)
                   else set_stop i (if m = ForcefulCancel then StopSweep (SweepRead 0 [])
                                    else StopCount False 0 0) p)
         | StopSweep pc \<Rightarrow>
             (case sweep_step (n_ops E) None (shards p) pc (cores p) of
                None \<Rightarrow> Some (set_stop i (StopCount False 0 0) p)
              | Some (pc', h) \<Rightarrow> Some (set_stop i (StopSweep pc') (p\<lparr>cores := h\<rparr>)))
         | StopCount a k n \<Rightarrow>
             Some (set_stop i
               (if k < length (shards p) then StopCount a (Suc k) (n + deferred_len (shards p ! k))
                else if 0 < n then StopWait a 0 0 else StopTakeHandles a) p)
         | StopWait a k n \<Rightarrow>
             Some (set_stop i
               (if k < length (shards p) then StopWait a (Suc k) (n + deferred_len (shards p ! k))
                else if n = 0 then StopTakeHandles a else StopWait a 0 0) p)
         | StopTakeHandles a \<Rightarrow> Some (set_stop i (StopJoin a (join_handles p)) (p\<lparr>join_handles := []\<rparr>))
         | StopJoin a [] \<Rightarrow> Some (set_stop i (StopSink a) p)
         | StopJoin a (l # ls) \<Rightarrow>
             (if lane_stopped (dispatchers p ! l) \<or> lane_panicked (dispatchers p ! l)
              then Some (set_stop i (StopJoin a ls) p) else None)
         | StopSink a \<Rightarrow>
             Some (set_stop i StopTakeNotifier (p\<lparr>completion_notifier :=
               (if a then completion_notifier p else sink_close (c_ops E) (completion_notifier p))\<rparr>))
         | StopTakeNotifier \<Rightarrow>
             (let (b, n) = take_join_handle (completion_notifier p) in
              Some (set_stop i (if b then StopJoinNotifier else StopDrop) (p\<lparr>completion_notifier := n\<rparr>)))
         | StopJoinNotifier \<Rightarrow>
             (if nworker (completion_notifier p) = NStopped then Some (set_stop i StopDrop p) else None)
         | StopDrop \<Rightarrow> Some (set_stop i StopDone (p\<lparr>drops := drops p @ [DropCheck]\<rparr>))
         | StopDone \<Rightarrow> None
         | StopAbandoned \<Rightarrow> None)
      else None)"

text \<open>The timers: 30 seconds for the active tasks, 5 for each dispatcher and the notifier.\<close>

definition stop_timeout ::
  "nat \<Rightarrow> ('r, 'n, 's, 'q, 'c, 'o, 'h) rlxd \<Rightarrow> ('r, 'n, 's, 'q, 'c, 'o, 'h) rlxd option" where
  "stop_timeout i p =
     (if i < length (stops p) then
        (case stops p ! i of
           StopWait a 0 n \<Rightarrow> Some (set_stop i (StopTakeHandles a) p)
         | StopJoin a (l # ls) \<Rightarrow> Some (set_stop i (StopJoin a ls) p)
         | StopJoinNotifier \<Rightarrow> Some (set_stop i StopDrop p)
         | _ \<Rightarrow> None)
      else None)"

text \<open>
  The drop of the future of \<open>shutdown\<close>, before its first poll or at one of its awaits: \<open>self\<close> and
  the join handles in hand are dropped with it.
\<close>

fun stop_suspended :: "stop_pc \<Rightarrow> bool" where
  "stop_suspended (StopStart _) = True"
| "stop_suspended (StopWait _ k _) = (k = 0)"
| "stop_suspended (StopJoin _ ls) = (ls \<noteq> [])"
| "stop_suspended StopJoinNotifier = True"
| "stop_suspended _ = False"

definition stop_abandon ::
  "nat \<Rightarrow> ('r, 'n, 's, 'q, 'c, 'o, 'h) rlxd \<Rightarrow> ('r, 'n, 's, 'q, 'c, 'o, 'h) rlxd option" where
  "stop_abandon i p =
     (if i < length (stops p) \<and> stop_suspended (stops p ! i)
      then Some (p\<lparr>stops := (stops p)[i := StopAbandoned], drops := drops p @ [DropCheck]\<rparr>) else None)"

text \<open>
  \<open>Drop::drop\<close> of a clone, then the drop of its fields. It closes the lanes in one step: no call
  of \<open>submit\<close> borrows the last clone, and a dispatcher reads its own lane only.
\<close>

definition rlxd_drop_step ::
  "('r, 'n, 's, 'q, 'c, 'o, 'h) env \<Rightarrow> nat \<Rightarrow> ('r, 'n, 's, 'q, 'c, 'o, 'h) rlxd \<Rightarrow>
     ('r, 'n, 's, 'q, 'c, 'o, 'h) rlxd option" where
  "rlxd_drop_step E i p =
     (if i < length (drops p) then
        (let goto = (\<lambda>pc. (drops p)[i := pc]) in
         case drops p ! i of
           DropCheck \<Rightarrow> Some (p\<lparr>drops := goto (if 1 < shutdown_guard p then DropRelease else DropFlag)\<rparr>)
         | DropFlag \<Rightarrow> Some (p\<lparr>drops := goto (if shutting_down p then DropRelease else DropCancel)\<rparr>)
         | DropCancel \<Rightarrow>
             Some (p\<lparr>shutdown_token := cancel (n_ops E) (shutdown_token p), drops := goto DropClose\<rparr>)
         | DropClose \<Rightarrow>
             Some (p\<lparr>lane_queue := lanes_close (q_ops E) (lane_queue p), drops := goto DropSink\<rparr>)
         | DropSink \<Rightarrow>
             Some (p\<lparr>completion_notifier := sink_close (c_ops E) (completion_notifier p),
                     drops := goto DropRelease\<rparr>)
         | DropRelease \<Rightarrow>
             Some (rlxd_release_sink E (p\<lparr>shutdown_guard := shutdown_guard p - 1,
                     lane_queue := lanes_drop (q_ops E) (lane_queue p), drops := goto DropDone\<rparr>))
         | DropDone \<Rightarrow> None)
      else None)"

section \<open>The pool\<close>

datatype ('r, 'h) rlxd_event =
    RSubmit "task_label set" "'r task_to_execute"
  | RStepSubmit core_ref
  | RAbandonSubmit core_ref
  | RStepDispatcher nat
  | RStepTask nat
  | RCancelHandle core_ref
  | RAwaitResult core_ref
  | RDetach core_ref
  | RCancelLabels "task_label set"
  | RStepCancel nat
  | RAddHandlerInit
  | RAddHandlerPush 'h
  | RStepNotifier nat
  | RCloneManager
  | RShutdown shutdown_mode
  | RStepShutdown nat
  | RTimeoutShutdown nat
  | RAbandonShutdown nat
  | RDropManager
  | RStepDrop nat
  | RActiveCount
  | RQueuedCount
  | RStepGauge nat

fun rlxd_step ::
  "('r, 'n, 's, 'q, 'c, 'o, 'h) env \<Rightarrow> ('r, 'h) rlxd_event \<Rightarrow> ('r, 'n, 's, 'q, 'c, 'o, 'h) rlxd \<Rightarrow>
     ('r, 'n, 's, 'q, 'c, 'o, 'h) rlxd option" where
  "rlxd_step E (RSubmit ls f) p =
     with_manager p (Some (case rlxd_submit_begin E ls f p of Inl _ \<Rightarrow> p | Inr p' \<Rightarrow> p'))"
| "rlxd_step E (RStepSubmit r) p = submission_step E r p"
| "rlxd_step E (RAbandonSubmit r) p = submission_abandon E r p"
| "rlxd_step E (RStepDispatcher i) p = lane_step E i p"
| "rlxd_step E (RStepTask i) p = run_step E i p"
| "rlxd_step E (RCancelHandle r) p =
     rlxd_with_handle r (\<lambda>t. Some (p\<lparr>cores := handle_cancel (n_ops E) t (cores p)\<rparr>)) p"
| "rlxd_step E (RAwaitResult r) p = rlxd_with_handle r (\<lambda>t. await_step E r t p) p"
| "rlxd_step E (RDetach r) p = rlxd_with_handle r (\<lambda>t. detach_step E r t p) p"
| "rlxd_step E (RCancelLabels ls) p = with_manager p (Some (rlxd_cancel_tasks_by_labels ls p))"
| "rlxd_step E (RStepCancel i) p = label_sweep_step E i p"
| "rlxd_step E RAddHandlerInit p =
     with_manager p (Some (p\<lparr>completion_notifier :=
       ensure_worker_initialized (c_ops E) (completion_notifier p)\<rparr>))"
| "rlxd_step E (RAddHandlerPush h) p =
     with_manager p (map_option (\<lambda>n. p\<lparr>completion_notifier := n\<rparr>) (push_handler h (completion_notifier p)))"
| "rlxd_step E (RStepNotifier now) p =
     map_option (\<lambda>n. p\<lparr>completion_notifier := n\<rparr>)
       (notifier_worker_step (c_ops E) (handler_panics E) (look_core p) (shutting_down p) now
         (completion_notifier p))"
| "rlxd_step E RCloneManager p =
     with_manager p (Some (p\<lparr>idle_managers := Suc (idle_managers p), shutdown_guard := Suc (shutdown_guard p),
       lane_queue := lanes_clone (q_ops E) (lane_queue p)\<rparr>))"
| "rlxd_step E (RShutdown m) p =
     with_manager p (Some (p\<lparr>idle_managers := idle_managers p - 1, stops := stops p @ [StopStart m]\<rparr>))"
| "rlxd_step E (RStepShutdown i) p = stop_step E i p"
| "rlxd_step E (RTimeoutShutdown i) p = stop_timeout i p"
| "rlxd_step E (RAbandonShutdown i) p = stop_abandon i p"
| "rlxd_step E RDropManager p =
     with_manager p (Some (p\<lparr>idle_managers := idle_managers p - 1, drops := drops p @ [DropCheck]\<rparr>))"
| "rlxd_step E (RStepDrop i) p = rlxd_drop_step E i p"
| "rlxd_step E RActiveCount p = with_manager p (Some (rlxd_active_task_count p))"
| "rlxd_step E RQueuedCount p = with_manager p (Some (rlxd_queued_task_count p))"
| "rlxd_step E (RStepGauge i) p = gauge_step E i p"

abbreviation rlxd_reach ::
  "('r, 'n, 's, 'q, 'c, 'o, 'h) env \<Rightarrow> nat \<Rightarrow> nat \<Rightarrow> nat \<Rightarrow> string \<Rightarrow>
     ('r, 'n, 's, 'q, 'c, 'o, 'h) rlxd \<Rightarrow> bool" where
  "rlxd_reach E limit cap n name \<equiv> reach (\<lambda>p. p = rlxd_new E limit cap n name) (rlxd_step E)"

end
