(* ===== verification/RlxdFrame.thy ===== *)
theory RlxdFrame
  imports RlxdPool
begin

text \<open>
  What the steps of the relaxed pool do to the state its invariants speak of. \<open>quiet\<close> covers
  every event but submissions, dispatchers and spawned tasks; the steps of those three are split
  into the cases that matter: who gains or loses a permit of the concurrency gate, a permit of the
  queue, a place in a shard or a task.
\<close>

section \<open>Roles of the program counters\<close>

text \<open>\<open>holds\<close>: a permit of the concurrency gate. \<open>slot\<close>: a permit of the queue, not in a message.\<close>

fun sub_holds :: "submit_pc \<Rightarrow> bool" where
  "sub_holds SubRoute = True"
| "sub_holds (SubCount _) = True"
| "sub_holds (SubStore _) = True"
| "sub_holds (SubSpawn _) = True"
| "sub_holds _ = False"

fun sub_slot :: "submit_pc \<Rightarrow> bool" where
  "sub_slot (SubSend LaneRoute) = True"
| "sub_slot (SubSend (LaneSend _)) = True"
| "sub_slot _ = False"

fun sub_counted :: "nat \<Rightarrow> submit_pc \<Rightarrow> bool" where
  "sub_counted j (SubStore k) \<longleftrightarrow> k = j"
| "sub_counted j (SubSpawn k) \<longleftrightarrow> k = j"
| "sub_counted j _ \<longleftrightarrow> False"

fun sub_ok :: "nat \<Rightarrow> submit_pc \<Rightarrow> bool" where
  "sub_ok k (SubCount j) \<longleftrightarrow> j < k"
| "sub_ok k (SubStore j) \<longleftrightarrow> j < k"
| "sub_ok k (SubSpawn j) \<longleftrightarrow> j < k"
| "sub_ok k (SubSend (LaneSend j)) \<longleftrightarrow> j < k"
| "sub_ok k (SubSend LanePanicked) \<longleftrightarrow> False"
| "sub_ok k SubPanicked \<longleftrightarrow> False"
| "sub_ok k _ \<longleftrightarrow> True"

abbreviation sub_sent :: "submit_pc \<Rightarrow> bool" where
  "sub_sent pc \<equiv> pc = SubSend (LaneDone (Inr ()))"

abbreviation sub_failed :: "submit_pc \<Rightarrow> bool" where
  "sub_failed pc \<equiv> pc = SubSend (LaneDone (Inl QueueSendChannelClosed))"

fun lane_holds :: "'r lane_pc \<Rightarrow> bool" where
  "lane_holds (LCheck _) = True"
| "lane_holds (LCount _) = True"
| "lane_holds (LStore _) = True"
| "lane_holds (LSpawn _) = True"
| "lane_holds _ = False"

fun lane_slot :: "'r lane_pc \<Rightarrow> bool" where
  "lane_slot (LReceived _) = True"
| "lane_slot _ = False"

fun lane_counted :: "'r lane_pc \<Rightarrow> bool" where
  "lane_counted (LStore _) = True"
| "lane_counted (LSpawn _) = True"
| "lane_counted _ = False"

text \<open>The task in a dispatcher's hands, until it is spawned, discarded or answered; its core, until then or
  until it is reported.\<close>

fun lane_hand :: "'r lane_pc \<Rightarrow> 'r managed_task list" where
  "lane_hand (LReceived t) = [t]"
| "lane_hand (LGot t) = [t]"
| "lane_hand (LPollPermit t) = [t]"
| "lane_hand (LPollPermitToken t) = [t]"
| "lane_hand (LCheck t) = [t]"
| "lane_hand (LCount t) = [t]"
| "lane_hand (LStore t) = [t]"
| "lane_hand (LSpawn t) = [t]"
| "lane_hand _ = []"

fun lane_cores :: "'r lane_pc \<Rightarrow> core_ref list" where
  "lane_cores (LCancelled r) = [r]"
| "lane_cores (LNotify r) = [r]"
| "lane_cores d = map mt_core (lane_hand d)"

lemma lane_hand_cores: "t \<in> set (lane_hand d) \<Longrightarrow> mt_core t \<in> set (lane_cores d)"
  by (cases d) auto

fun lane_stored :: "'r lane_pc \<Rightarrow> core_ref set" where
  "lane_stored (LSpawn t) = {mt_core t}"
| "lane_stored _ = {}"

definition run_holds :: "'r run_task \<Rightarrow> bool" where
  "run_holds t \<longleftrightarrow> rt_pc t \<noteq> RDone"

definition run_counted :: "nat \<Rightarrow> 'r run_task \<Rightarrow> bool" where
  "run_counted j t \<longleftrightarrow> rt_shard t = j \<and> rt_pc t \<noteq> RRelease \<and> rt_pc t \<noteq> RDone"

definition run_finished :: "'r run_task \<Rightarrow> bool" where
  "run_finished t \<longleftrightarrow> rt_pc t = RFinish \<or> rt_pc t = RRelease \<or> rt_pc t = RDone"

abbreviation rt_core :: "'r run_task \<Rightarrow> core_ref" where
  "rt_core t \<equiv> mt_core (rt_task t)"

section \<open>Everything else\<close>

text \<open>The cores keep their number, ids, labels and finished flags, and cancellations stay.\<close>

definition cores_kept :: "'n heap \<Rightarrow> 'n heap \<Rightarrow> bool" where
  "cores_kept h h' \<longleftrightarrow>
     length h' = length h \<and>
     (\<forall>r < length h. task_id (h' ! r) = task_id (h ! r) \<and> labels (h' ! r) = labels (h ! r) \<and>
        core_is_finished (h' ! r) = core_is_finished (h ! r) \<and>
        (core_is_cancelled (h ! r) \<longrightarrow> core_is_cancelled (h' ! r)))"

lemma cores_kept_refl [simp]: "cores_kept h h"
  by (simp add: cores_kept_def)

lemma cores_kept_cancel [simp]: "cores_kept h (heap_cancel N r h)"
  by (simp add: cores_kept_def)

lemmas rlxd_set_defs = set_submission_def set_lane_def set_run_def set_stop_def drop_task_def
  release_queue_permit_def spawn_future_def shard_finish_def

lemma sweep_step_cores: "sweep_step N sel ds pc h = Some (pc', h') \<Longrightarrow> cores_kept h h'"
  by (cases "(N, sel, ds, pc, h)" rule: sweep_step.cases) (auto split: if_splits)

definition active_event :: "('r, 'h) rlxd_event \<Rightarrow> bool" where
  "active_event e \<longleftrightarrow> (\<exists>ls f. e = RSubmit ls f) \<or> (\<exists>r. e = RStepSubmit r) \<or>
     (\<exists>r. e = RAbandonSubmit r) \<or> (\<exists>i. e = RStepDispatcher i) \<or> (\<exists>i. e = RStepTask i)"

definition quiet ::
  "('r, 'n, 's, 'q, 'c, 'o, 'h) env \<Rightarrow> ('r, 'n, 's, 'q, 'c, 'o, 'h) rlxd \<Rightarrow>
     ('r, 'n, 's, 'q, 'c, 'o, 'h) rlxd \<Rightarrow> bool" where
  "quiet E p q \<longleftrightarrow>
     concurrency_gate q = concurrency_gate p \<and> shards q = shards p \<and> dispatchers q = dispatchers p \<and>
     submissions q = submissions p \<and> spawned q = spawned p \<and> next_task_id q = next_task_id p \<and>
     pool_name q = pool_name p \<and> length (oneshots q) = length (oneshots p) \<and>
     lanes_same (q_ops E) (s_ops E) (lane_queue p) (lane_queue q) \<and> cores_kept (cores p) (cores q)"

lemma rlxd_release_sink_frame [simp]:
  "cores (rlxd_release_sink E p) = cores p" "oneshots (rlxd_release_sink E p) = oneshots p"
  "handles (rlxd_release_sink E p) = handles p" "lane_queue (rlxd_release_sink E p) = lane_queue p"
  "shards (rlxd_release_sink E p) = shards p" "submissions (rlxd_release_sink E p) = submissions p"
  "concurrency_gate (rlxd_release_sink E p) = concurrency_gate p"
  "dispatchers (rlxd_release_sink E p) = dispatchers p" "spawned (rlxd_release_sink E p) = spawned p"
  "shutdown_token (rlxd_release_sink E p) = shutdown_token p" "stops (rlxd_release_sink E p) = stops p"
  "drops (rlxd_release_sink E p) = drops p" "next_task_id (rlxd_release_sink E p) = next_task_id p"
  "join_handles (rlxd_release_sink E p) = join_handles p"
  "label_sweeps (rlxd_release_sink E p) = label_sweeps p" "gauges (rlxd_release_sink E p) = gauges p"
  "pool_name (rlxd_release_sink E p) = pool_name p"
  by (simp_all add: rlxd_release_sink_def)

lemma stop_step_quiet:
  assumes L: "lawful E" and st: "stop_step E i p = Some q"
  shows "quiet E p q"
proof -
  have C: "chan_laws (q_ops E)" using L by (simp add: lawful_def)
  show ?thesis
  proof (cases "stops p ! i")
    case (StopSweep pc)
    with st show ?thesis
      by (auto simp: stop_step_def quiet_def rlxd_set_defs dest: sweep_step_cores split: if_splits option.splits)
  next
    case (StopJoin a ls)
    with st show ?thesis
      by (cases ls) (auto simp: stop_step_def quiet_def rlxd_set_defs split: if_splits)
  qed (use st lanes_same_ops [OF C] in
      \<open>auto simp: stop_step_def quiet_def rlxd_set_defs split: if_splits prod.splits\<close>)
qed

lemma stop_timeout_quiet: "stop_timeout i p = Some q \<Longrightarrow> quiet E p q"
  by (auto simp: stop_timeout_def quiet_def rlxd_set_defs split: if_splits stop_pc.splits nat.splits list.splits)

lemma rlxd_drop_step_quiet:
  assumes L: "lawful E" and st: "rlxd_drop_step E i p = Some q"
  shows "quiet E p q"
proof -
  have C: "chan_laws (q_ops E)" using L by (simp add: lawful_def)
  have "i < length (drops p)" using st by (auto simp: rlxd_drop_step_def split: if_splits)
  then show ?thesis
    by (cases "drops p ! i") (use st lanes_same_ops [OF C] in \<open>auto simp: rlxd_drop_step_def quiet_def\<close>)
qed

lemma label_sweep_quiet: "label_sweep_step E i p = Some q \<Longrightarrow> quiet E p q"
  by (auto simp: label_sweep_step_def quiet_def dest: sweep_step_cores split: if_splits option.splits prod.splits)

lemma await_step_quiet: "await_step E r t p = Some q \<Longrightarrow> quiet E p q"
  by (auto simp: await_step_def quiet_def split: if_splits prod.splits)

lemma detach_step_quiet: "detach_step E r t p = Some q \<Longrightarrow> quiet E p q"
  by (auto simp: detach_step_def quiet_def split: if_splits prod.splits)

lemma quiet_step:
  assumes L: "lawful E" and st: "rlxd_step E e p = Some q" and e: "\<not> active_event e"
  shows "quiet E p q"
proof (cases e)
  case RCloneManager
  have "chan_laws (q_ops E)" using L by (simp add: lawful_def)
  with RCloneManager st lanes_same_ops show ?thesis
    by (auto simp: quiet_def with_manager_def split: if_splits)
next
  case (RAwaitResult r)
  with st show ?thesis
    by (auto simp: rlxd_with_handle_def split: if_splits option.splits sum.splits intro: await_step_quiet)
next
  case (RDetach r)
  with st show ?thesis
    by (auto simp: rlxd_with_handle_def split: if_splits option.splits sum.splits intro: detach_step_quiet)
next
  case (RStepShutdown i)
  with st stop_step_quiet [OF L] show ?thesis by simp
next
  case (RTimeoutShutdown i)
  with st stop_timeout_quiet show ?thesis by simp
next
  case (RStepDrop i)
  with st rlxd_drop_step_quiet [OF L] show ?thesis by simp
next
  case (RStepCancel i)
  with st label_sweep_quiet show ?thesis by simp
qed (use st e in \<open>auto simp: active_event_def quiet_def stop_abandon_def with_manager_def rlxd_with_handle_def handle_cancel_def
      rlxd_cancel_tasks_by_labels_def gauge_defs dest!: gauge_step_frame split: if_splits option.splits sum.splits\<close>)

end
