(* ===== verification/RlxdCases.thy ===== *)
theory RlxdCases
  imports RlxdFrame
begin

text \<open>
  The steps of submissions, dispatchers and spawned tasks, each split into the cases the
  invariants tell apart.
\<close>

section \<open>Well-formed states\<close>

text \<open>
  One lane, shard and dispatcher per number below \<open>k\<close>, every index in range, every slot array
  well-formed, and nobody has panicked.
\<close>

definition rlxd_wf ::
  "('r, 'n, 's, 'q, 'c, 'o, 'h) env \<Rightarrow> nat \<Rightarrow> ('r, 'n, 's, 'q, 'c, 'o, 'h) rlxd \<Rightarrow> bool" where
  "rlxd_wf E k p \<longleftrightarrow>
     0 < k \<and> lanes_inv (q_ops E) k (lane_queue p) \<and> length (shards p) = k \<and> length (dispatchers p) = k \<and>
     (\<forall>d \<in> set (shards p). slots_wf (entries d)) \<and>
     (\<forall>s \<in> set (submissions p). sub_ok k (snd s)) \<and>
     (\<forall>d \<in> set (dispatchers p). d \<noteq> LPanicked) \<and>
     (\<forall>t \<in> set (spawned p). rt_shard t < k)"

lemma rlxd_wf_lanes: "rlxd_wf E k p \<Longrightarrow> lanes_inv (q_ops E) k (lane_queue p) \<and> length (txs (lane_queue p)) = k"
  by (simp add: rlxd_wf_def lanes_inv_def)

lemma deferred_store_ok:
  assumes "slots_wf (entries d)"
  shows "\<exists>d'. deferred_store h r d = Inr d' \<and> slots_wf (entries d') \<and> in_flight d' = in_flight d"
proof -
  let ?a = "if free (entries d) = [] then sweep_finished h (entries d) else entries d"
  have "slots_wf ?a" using assms by (simp add: sweep_finished_spec)
  from slots_insert_spec [OF this, of r] show ?thesis by (auto simp: deferred_store_def Let_def)
qed

lemma shard_store_ok:
  assumes "rlxd_wf E k p" "j < k"
  obtains d where "deferred_store (cores p) r (shards p ! j) = Inr d" "slots_wf (entries d)"
    "in_flight d = in_flight (shards p ! j)" "shard_store j r p = Inr (p\<lparr>shards := (shards p)[j := d]\<rparr>)"
proof -
  have j: "j < length (shards p)" and "slots_wf (entries (shards p ! j))"
    using assms by (auto simp: rlxd_wf_def)
  from deferred_store_ok [OF this(2), of "cores p" r] j that show ?thesis
    by (auto simp: shard_store_def vec_get_def)
qed

lemma shard_count_ok:
  "rlxd_wf E k p \<Longrightarrow> j < k \<Longrightarrow>
     shard_count j p = Inr (p\<lparr>shards := (shards p)[j := deferred_count (shards p ! j)]\<rparr>)"
  by (simp add: shard_count_def vec_get_def rlxd_wf_def)

section \<open>Submissions\<close>

text \<open>The part of the state a step of submission \<open>r\<close> never touches, and what becomes of its counter.\<close>

definition sub_frame ::
  "nat \<Rightarrow> nat \<Rightarrow> submit_pc \<Rightarrow> submit_pc \<Rightarrow> ('r, 'n, 's, 'q, 'c, 'o, 'h) rlxd \<Rightarrow>
     ('r, 'n, 's, 'q, 'c, 'o, 'h) rlxd \<Rightarrow> bool" where
  "sub_frame k r pc pc' p q \<longleftrightarrow>
     r < length (submissions p) \<and> pc = snd (submissions p ! r) \<and>
     submissions q = (submissions p)[r := (fst (submissions p ! r), pc')] \<and> sub_ok k pc' \<and>
     \<not> sub_sent pc \<and> \<not> sub_failed pc \<and> pc \<noteq> SubDirect \<and>
     dispatchers q = dispatchers p \<and> cores q = cores p \<and> next_task_id q = next_task_id p \<and>
     pool_name q = pool_name p \<and> handles q = handles p \<and> shutdown_token q = shutdown_token p \<and>
     length (oneshots q) = length (oneshots p)"

definition sub_quiet :: "submit_pc \<Rightarrow> submit_pc \<Rightarrow> bool" where
  "sub_quiet pc pc' \<longleftrightarrow>
     sub_holds pc' = sub_holds pc \<and> sub_slot pc' = sub_slot pc \<and> (\<forall>j. sub_counted j pc' = sub_counted j pc) \<and>
     (\<forall>j. pc \<noteq> SubSpawn j \<and> pc' \<noteq> SubSpawn j) \<and> pc' \<noteq> SubDirect \<and> \<not> sub_sent pc' \<and> \<not> sub_failed pc'"

lemma lane_send_step_cases:
  assumes S: "sem_laws S" and C: "chan_laws C" and inv: "lanes_inv C k q" "0 < k"
    and ok: "sub_ok k (SubSend pc)" and st: "lane_send_step C S sd w t pc q = Some (pc', q')"
  obtains (quiet) "sub_quiet (SubSend pc) (SubSend pc')" "sub_ok k (SubSend pc')" "lanes_same C S q q'"
    | (slot) "pc = LanePollGate" "pc' = LaneRoute" "lane_items C q' = lane_items C q"
        "lane_sent q' = lane_sent q" "lane_received q' = lane_received q" "txs q' = txs q"
        "lane_permits S q = Suc (lane_permits S q')"
    | (push) i res where "pc = LaneSend i" "i < k" "pc' = LaneDone res" "lane_push C S t i q = Inr (res, q')"
proof (cases pc)
  case LaneCheck
  then show ?thesis using st by (intro quiet) (auto simp: sub_quiet_def split: if_splits)
next
  case LanePollGate
  obtain b g where g: "gate_poll_acquire S w (lane_gate q) = (b, g)" by fastforce
  show ?thesis
  proof (cases b)
    case True
    then show ?thesis using st g LanePollGate gate.poll_True [OF S, of w "lane_gate q" g]
      by (intro slot) (auto simp: lane_permits_def)
  next
    case False
    then show ?thesis using st g LanePollGate gate.poll_False [OF S, of w "lane_gate q" g]
      by (intro quiet) (auto simp: sub_quiet_def intro: lanes_same_gate)
  qed
next
  case LanePollShutdown
  then show ?thesis using st
    by (intro quiet) (auto simp: sub_quiet_def gate.abandon_avail [OF S] intro: lanes_same_gate split: if_splits)
next
  case LaneRoute
  have "length (txs q) = k" using inv by (simp add: lanes_inv_def)
  with LaneRoute st inv(2) have "pc' = LaneSend (unat (next_lane q) mod k)" "q' = snd (route q)"
    by (auto simp: route_def usize_rem_def)
  then show ?thesis using LaneRoute inv(2) lanes_same_route by (intro quiet) (auto simp: sub_quiet_def)
next
  case (LaneSend i)
  then have i: "i < k" using ok by simp
  from lane_push_effect [OF C S inv(1) i, of t] obtain res m where "lane_push C S t i q = Inr (res, m)" by blast
  with LaneSend st i show ?thesis by (intro push [of i res]) auto
qed (use st in auto)

text \<open>What else the step of a submission with task \<open>t\<close> changes.\<close>

abbreviation free_permits ::
  "('r, 'n, 's, 'q, 'c, 'o, 'h) env \<Rightarrow> ('r, 'n, 's, 'q, 'c, 'o, 'h) rlxd \<Rightarrow> nat" where
  "free_permits E p \<equiv> gate_get_permits (s_ops E) (concurrency_gate p)"

inductive sub_effect ::
  "('r, 'n, 's, 'q, 'c, 'o, 'h) env \<Rightarrow> nat \<Rightarrow> 'r managed_task \<Rightarrow> ('r, 'n, 's, 'q, 'c, 'o, 'h) rlxd \<Rightarrow>
     ('r, 'n, 's, 'q, 'c, 'o, 'h) rlxd \<Rightarrow> submit_pc \<Rightarrow> submit_pc \<Rightarrow> bool"
  for E k t p q where
  sub_quiet: "sub_quiet pc pc' \<Longrightarrow> free_permits E q = free_permits E p \<Longrightarrow> shards q = shards p \<Longrightarrow>
    spawned q = spawned p \<Longrightarrow> lanes_same (q_ops E) (s_ops E) (lane_queue p) (lane_queue q) \<Longrightarrow>
    sub_effect E k t p q pc pc'"
| sub_take: "free_permits E p = Suc (free_permits E q) \<Longrightarrow> shards q = shards p \<Longrightarrow>
    spawned q = spawned p \<Longrightarrow> lane_queue q = lane_queue p \<Longrightarrow> sub_effect E k t p q SubTry SubRoute"
| sub_count: "j < k \<Longrightarrow> free_permits E q = free_permits E p \<Longrightarrow>
    shards q = (shards p)[j := deferred_count (shards p ! j)] \<Longrightarrow> spawned q = spawned p \<Longrightarrow>
    lane_queue q = lane_queue p \<Longrightarrow> sub_effect E k t p q (SubCount j) (SubStore j)"
| sub_store: "j < k \<Longrightarrow> free_permits E q = free_permits E p \<Longrightarrow>
    deferred_store (cores p) (mt_core t) (shards p ! j) = Inr d \<Longrightarrow> slots_wf (entries d) \<Longrightarrow>
    in_flight d = in_flight (shards p ! j) \<Longrightarrow> shards q = (shards p)[j := d] \<Longrightarrow>
    spawned q = spawned p \<Longrightarrow> lane_queue q = lane_queue p \<Longrightarrow> sub_effect E k t p q (SubStore j) (SubSpawn j)"
| sub_spawn: "j < k \<Longrightarrow> free_permits E q = free_permits E p \<Longrightarrow> shards q = shards p \<Longrightarrow>
    lane_queue q = lane_queue p \<Longrightarrow> spawned q = spawned p @ [\<lparr>rt_task = t, rt_shard = j, rt_direct = True,
      rt_notify = b, rt_polls = 0, rt_pc = RPollFuture\<rparr>] \<Longrightarrow> sub_effect E k t p q (SubSpawn j) SubDirect"
| sub_slot: "free_permits E q = free_permits E p \<Longrightarrow> shards q = shards p \<Longrightarrow> spawned q = spawned p \<Longrightarrow>
    lane_items (q_ops E) (lane_queue q) = lane_items (q_ops E) (lane_queue p) \<Longrightarrow>
    lane_sent (lane_queue q) = lane_sent (lane_queue p) \<Longrightarrow>
    lane_received (lane_queue q) = lane_received (lane_queue p) \<Longrightarrow> txs (lane_queue q) = txs (lane_queue p) \<Longrightarrow>
    lane_permits (s_ops E) (lane_queue p) = Suc (lane_permits (s_ops E) (lane_queue q)) \<Longrightarrow>
    sub_effect E k t p q (SubSend LanePollGate) (SubSend LaneRoute)"
| sub_push: "i < k \<Longrightarrow> free_permits E q = free_permits E p \<Longrightarrow> shards q = shards p \<Longrightarrow>
    spawned q = spawned p \<Longrightarrow> lane_push (q_ops E) (s_ops E) t i (lane_queue p) = Inr (res, lane_queue q) \<Longrightarrow>
    sub_effect E k t p q (SubSend (LaneSend i)) (SubSend (LaneDone res))"

lemma submission_step_cases:
  assumes L: "lawful E" and wf: "rlxd_wf E k p" and st: "submission_step E r p = Some q"
  obtains pc pc' where "sub_frame k r pc pc' p q" "sub_effect E k (fst (submissions p ! r)) p q pc pc'"
proof -
  have S: "sem_laws (s_ops E)" and C: "chan_laws (q_ops E)" using L by (auto simp: lawful_def)
  have r: "r < length (submissions p)" using st by (auto simp: submission_step_def split: if_splits)
  have ok: "sub_ok k (snd (submissions p ! r))" and k: "0 < k" "length (shards p) = k"
    using wf r by (auto simp: rlxd_wf_def)
  note defs = submission_step_def set_submission_def sub_frame_def
  show ?thesis
  proof (cases "snd (submissions p ! r)")
    case (SubLen j n)
    with st r show ?thesis
      by (intro that [of "SubLen j n" "if j < length (txs (lane_queue p))
            then SubLen (Suc j) (n + lane_len (q_ops E) j (lane_queue p))
            else if n = 0 then SubTry else SubSend LaneCheck"])
        (auto simp: defs sub_quiet_def intro!: sub_effect.sub_quiet)
  next
    case SubTry
    show ?thesis
    proof (cases "gate_try_acquire_owned (s_ops E) (concurrency_gate p)")
      case None
      with SubTry st r show ?thesis
        by (intro that [of SubTry "SubSend LaneCheck"]) (auto simp: defs sub_quiet_def intro!: sub_effect.sub_quiet)
    next
      case (Some g)
      with SubTry st r gate.try_Some [OF S Some] show ?thesis
        by (intro that [of SubTry SubRoute]) (auto simp: defs intro!: sub_effect.sub_take)
    qed
  next
    case SubRoute
    let ?j = "unat (next_lane (lane_queue p)) mod k"
    have "?j < k" using k by simp
    with SubRoute st r k lanes_same_route [of "q_ops E" "s_ops E" "lane_queue p"] show ?thesis
      by (intro that [of SubRoute "SubCount ?j"]) (auto simp: defs sub_quiet_def route_def usize_rem_def intro!: sub_effect.sub_quiet)
  next
    case (SubCount j)
    with st r ok shard_count_ok [OF wf, of j] show ?thesis
      by (intro that [of "SubCount j" "SubStore j"]) (auto simp: defs intro!: sub_effect.sub_count)
  next
    case (SubStore j)
    then have "j < k" using ok by simp
    from shard_store_ok [OF wf this, of "mt_core (fst (submissions p ! r))"] obtain d where
      d: "deferred_store (cores p) (mt_core (fst (submissions p ! r))) (shards p ! j) = Inr d"
        "slots_wf (entries d)" "in_flight d = in_flight (shards p ! j)"
        "shard_store j (mt_core (fst (submissions p ! r))) p = Inr (p\<lparr>shards := (shards p)[j := d]\<rparr>)" .
    with SubStore st r \<open>j < k\<close> show ?thesis
      by (intro that [of "SubStore j" "SubSpawn j"]) (auto simp: defs intro!: sub_effect.sub_store)
  next
    case (SubSpawn j)
    obtain b n where "sink_sender (c_ops E) (completion_notifier p) = (b, n)" by fastforce
    with SubSpawn st r ok show ?thesis
      by (intro that [of "SubSpawn j" SubDirect]) (auto simp: defs spawn_future_def intro!: sub_effect.sub_spawn)
  next
    case (SubSend pc)
    let ?t = "fst (submissions p ! r)"
    obtain pc' lq where s: "lane_send_step (q_ops E) (s_ops E) (shutting_down p) r ?t pc (lane_queue p) = Some (pc', lq)"
      using st r SubSend by (auto simp: submission_step_def rlxd_send_step_def split: option.splits)
    have pc: "\<forall>res. pc \<noteq> LaneDone res" using s by auto
    have q: "lane_queue q = lq" "submissions q = (submissions p)[r := (?t, SubSend pc')]"
        "dispatchers q = dispatchers p" "cores q = cores p" "next_task_id q = next_task_id p"
        "pool_name q = pool_name p" "handles q = handles p" "shutdown_token q = shutdown_token p"
        "length (oneshots q) = length (oneshots p)" "concurrency_gate q = concurrency_gate p"
        "shards q = shards p" "spawned q = spawned p"
      using st r SubSend s
      by (auto simp: submission_step_def rlxd_send_step_def set_submission_def discard_oneshot_def
          split: lane_send_pc.splits sum.splits)
    have "lanes_inv (q_ops E) k (lane_queue p)" using wf by (simp add: rlxd_wf_def)
    from S C this k(1) ok [unfolded SubSend] s show ?thesis
    proof (cases rule: lane_send_step_cases)
      case quiet
      then show ?thesis using r pc SubSend q
        by (intro that [of "SubSend pc" "SubSend pc'"]) (auto simp: sub_frame_def intro: sub_effect.sub_quiet)
    next
      case slot
      then show ?thesis using r pc SubSend q
        by (intro that [of "SubSend pc" "SubSend pc'"]) (auto simp: sub_frame_def intro: sub_effect.sub_slot)
    next
      case (push i res)
      then show ?thesis using r pc SubSend q
        by (intro that [of "SubSend pc" "SubSend pc'"]) (auto simp: sub_frame_def intro: sub_effect.sub_push)
    qed
  qed (use st r in \<open>auto simp: submission_step_def\<close>)
qed

lemma submission_abandon_cases:
  assumes L: "lawful E" and st: "submission_abandon E r p = Some q"
  obtains "sub_frame k r (SubSend LanePollGate) (SubSend LaneDropped) p q"
    "sub_effect E k (fst (submissions p ! r)) p q (SubSend LanePollGate) (SubSend LaneDropped)"
proof -
  have S: "sem_laws (s_ops E)" using L by (simp add: lawful_def)
  from st show ?thesis
    by (intro that)
      (auto simp: submission_abandon_def sub_frame_def set_submission_def discard_oneshot_def sub_quiet_def
        gate.abandon_avail [OF S] intro!: sub_effect.sub_quiet lanes_same_gate split: if_splits)
qed

section \<open>Dispatchers\<close>

definition lane_frame ::
  "nat \<Rightarrow> 'r lane_pc \<Rightarrow> 'r lane_pc \<Rightarrow> ('r, 'n, 's, 'q, 'c, 'o, 'h) rlxd \<Rightarrow>
     ('r, 'n, 's, 'q, 'c, 'o, 'h) rlxd \<Rightarrow> bool" where
  "lane_frame i pc pc' p q \<longleftrightarrow>
     i < length (dispatchers p) \<and> pc = dispatchers p ! i \<and> dispatchers q = (dispatchers p)[i := pc'] \<and>
     pc' \<noteq> LPanicked \<and> submissions q = submissions p \<and> cores q = cores p \<and> next_task_id q = next_task_id p \<and>
     pool_name q = pool_name p \<and> handles q = handles p \<and> shutdown_token q = shutdown_token p \<and>
     length (oneshots q) = length (oneshots p)"

definition lane_quiet :: "'r lane_pc \<Rightarrow> 'r lane_pc \<Rightarrow> bool" where
  "lane_quiet pc pc' \<longleftrightarrow>
     lane_holds pc' = lane_holds pc \<and> lane_slot pc' = lane_slot pc \<and> lane_counted pc' = lane_counted pc \<and>
     lane_stored pc' = {} \<and> lane_stored pc = {} \<and> (lane_hand pc' = lane_hand pc \<or> lane_hand pc' = []) \<and>
     (lane_cores pc' = lane_cores pc \<or> lane_cores pc' = [])"

inductive lane_effect ::
  "('r, 'n, 's, 'q, 'c, 'o, 'h) env \<Rightarrow> nat \<Rightarrow> ('r, 'n, 's, 'q, 'c, 'o, 'h) rlxd \<Rightarrow>
     ('r, 'n, 's, 'q, 'c, 'o, 'h) rlxd \<Rightarrow> 'r lane_pc \<Rightarrow> 'r lane_pc \<Rightarrow> bool"
  for E i p q where
  lane_quiet: "lane_quiet pc pc' \<Longrightarrow> free_permits E q = free_permits E p \<Longrightarrow> shards q = shards p \<Longrightarrow>
    spawned q = spawned p \<Longrightarrow> lane_queue q = lane_queue p \<Longrightarrow> lane_effect E i p q pc pc'"
| lane_recv: "lane_recv (q_ops E) i (lane_queue p) = (x, lane_queue q) \<Longrightarrow>
    free_permits E q = free_permits E p \<Longrightarrow> shards q = shards p \<Longrightarrow> spawned q = spawned p \<Longrightarrow>
    pc' = (case x of RecvOk t \<Rightarrow> LReceived t | RecvDisconnected \<Rightarrow> LExit | RecvPending \<Rightarrow> LPollRecvToken) \<Longrightarrow>
    lane_effect E i p q LPollRecv pc'"
| lane_take: "pc' = LGot t \<or> pc' = LExit \<Longrightarrow> lane_queue q = lane_release (s_ops E) (lane_queue p) \<Longrightarrow>
    free_permits E q = free_permits E p \<Longrightarrow> shards q = shards p \<Longrightarrow> spawned q = spawned p \<Longrightarrow>
    lane_effect E i p q (LReceived t) pc'"
| lane_acquire: "free_permits E p = Suc (free_permits E q) \<Longrightarrow> shards q = shards p \<Longrightarrow>
    spawned q = spawned p \<Longrightarrow> lane_queue q = lane_queue p \<Longrightarrow> lane_effect E i p q (LPollPermit t) (LCheck t)"
| lane_release: "free_permits E q = Suc (free_permits E p) \<Longrightarrow> shards q = shards p \<Longrightarrow>
    spawned q = spawned p \<Longrightarrow> lane_queue q = lane_queue p \<Longrightarrow> lane_effect E i p q (LCheck t) LExit"
| lane_count: "free_permits E q = free_permits E p \<Longrightarrow>
    shards q = (shards p)[i := deferred_count (shards p ! i)] \<Longrightarrow> spawned q = spawned p \<Longrightarrow>
    lane_queue q = lane_queue p \<Longrightarrow> lane_effect E i p q (LCount t) (LStore t)"
| lane_store: "free_permits E q = free_permits E p \<Longrightarrow>
    deferred_store (cores p) (mt_core t) (shards p ! i) = Inr d \<Longrightarrow> slots_wf (entries d) \<Longrightarrow>
    in_flight d = in_flight (shards p ! i) \<Longrightarrow> shards q = (shards p)[i := d] \<Longrightarrow>
    spawned q = spawned p \<Longrightarrow> lane_queue q = lane_queue p \<Longrightarrow> lane_effect E i p q (LStore t) (LSpawn t)"
| lane_spawn: "free_permits E q = free_permits E p \<Longrightarrow> shards q = shards p \<Longrightarrow>
    lane_queue q = lane_queue p \<Longrightarrow> spawned q = spawned p @ [\<lparr>rt_task = t, rt_shard = i, rt_direct = False,
      rt_notify = b, rt_polls = 0, rt_pc = RPollFuture\<rparr>] \<Longrightarrow> lane_effect E i p q (LSpawn t) LTop"
| lane_exit: "lane_drop_receiver (q_ops E) (s_ops E) i (lane_queue p) = (rs, lane_queue q) \<Longrightarrow>
    free_permits E q = free_permits E p \<Longrightarrow> shards q = shards p \<Longrightarrow> spawned q = spawned p \<Longrightarrow>
    lane_effect E i p q LExit LStopped"

lemma lane_step_cases:
  assumes L: "lawful E" and wf: "rlxd_wf E k p" and st: "lane_step E i p = Some q"
  obtains pc pc' where "lane_frame i pc pc' p q" "lane_effect E i p q pc pc'"
proof -
  have S: "sem_laws (s_ops E)" using L by (simp add: lawful_def)
  have i: "i < length (dispatchers p)" "i < k"
    using st wf by (auto simp: lane_step_def rlxd_wf_def split: if_splits)
  note defs = lane_step_def lane_frame_def rlxd_set_defs
  show ?thesis
  proof (cases "dispatchers p ! i")
    case LTop
    with st i show ?thesis
      by (intro that [of LTop "if shutting_down p then LExit else LPollRecv"])
        (auto simp: defs lane_quiet_def intro!: lane_effect.lane_quiet)
  next
    case LPollRecvToken
    with st i show ?thesis
      by (intro that [of LPollRecvToken "if shutting_down p then LExit else LPollRecv"])
        (auto simp: defs lane_quiet_def intro!: lane_effect.lane_quiet)
  next
    case LPollRecv
    obtain x lq where x: "lane_recv (q_ops E) i (lane_queue p) = (x, lq)" by fastforce
    let ?pc = "case x of RecvOk t \<Rightarrow> LReceived t | RecvDisconnected \<Rightarrow> LExit | RecvPending \<Rightarrow> LPollRecvToken"
    have "?pc \<noteq> LPanicked" by (cases x) auto
    with LPollRecv st i x show ?thesis
      by (intro that [of LPollRecv ?pc]) (auto simp: defs intro!: lane_effect.lane_recv)
  next
    case (LReceived t)
    with st i show ?thesis
      by (intro that [of "LReceived t" "if shutting_down p then LExit else LGot t"])
        (auto simp: defs intro!: lane_effect.lane_take)
  next
    case (LGot t)
    with st i show ?thesis
      by (intro that [of "LGot t" "if core_cancelled p (mt_core t) then LCancelled (mt_core t) else LPollPermit t"])
        (auto simp: defs lane_quiet_def intro!: lane_effect.lane_quiet)
  next
    case (LCancelled r)
    obtain b n where "sink_sender (c_ops E) (completion_notifier p) = (b, n)" by fastforce
    with LCancelled st i show ?thesis
      by (intro that [of "LCancelled r" "if b then LNotify r else LTop"])
        (auto simp: defs lane_quiet_def intro!: lane_effect.lane_quiet)
  next
    case (LNotify r)
    with st i show ?thesis
      by (intro that [of "LNotify r" LTop]) (auto simp: defs lane_quiet_def intro!: lane_effect.lane_quiet)
  next
    case (LPollPermit t)
    obtain b g where g: "gate_poll_acquire (s_ops E) i (concurrency_gate p) = (b, g)" by fastforce
    show ?thesis
    proof (cases b)
      case True
      with LPollPermit st i g gate.poll_True [OF S, of i "concurrency_gate p" g] show ?thesis
        by (intro that [of "LPollPermit t" "LCheck t"]) (auto simp: defs intro!: lane_effect.lane_acquire)
    next
      case False
      with LPollPermit st i g gate.poll_False [OF S, of i "concurrency_gate p" g] show ?thesis
        by (intro that [of "LPollPermit t" "LPollPermitToken t"])
          (auto simp: defs lane_quiet_def intro!: lane_effect.lane_quiet)
    qed
  next
    case (LPollPermitToken t)
    with st i gate.abandon_avail [OF S] show ?thesis
      by (intro that [of "LPollPermitToken t" "if shutting_down p then LExit else LPollPermit t"])
        (auto simp: defs lane_quiet_def intro!: lane_effect.lane_quiet)
  next
    case (LCheck t)
    show ?thesis
    proof (cases "shutting_down p")
      case True
      with LCheck st i gate.release_avail [OF S] show ?thesis
        by (intro that [of "LCheck t" LExit]) (auto simp: defs intro!: lane_effect.lane_release)
    next
      case False
      with LCheck st i show ?thesis
        by (intro that [of "LCheck t" "LCount t"]) (auto simp: defs lane_quiet_def intro!: lane_effect.lane_quiet)
    qed
  next
    case (LCount t)
    with st i shard_count_ok [OF wf i(2)] show ?thesis
      by (intro that [of "LCount t" "LStore t"]) (auto simp: defs intro!: lane_effect.lane_count)
  next
    case (LStore t)
    from shard_store_ok [OF wf i(2), of "mt_core t"] obtain d where
      d: "deferred_store (cores p) (mt_core t) (shards p ! i) = Inr d" "slots_wf (entries d)"
        "in_flight d = in_flight (shards p ! i)"
        "shard_store i (mt_core t) p = Inr (p\<lparr>shards := (shards p)[i := d]\<rparr>)" .
    with LStore st i show ?thesis
      by (intro that [of "LStore t" "LSpawn t"]) (auto simp: defs intro!: lane_effect.lane_store)
  next
    case (LSpawn t)
    obtain b n where "sink_sender (c_ops E) (completion_notifier p) = (b, n)" by fastforce
    with LSpawn st i show ?thesis
      by (intro that [of "LSpawn t" LTop]) (auto simp: defs intro!: lane_effect.lane_spawn)
  next
    case LExit
    obtain rs lq where "lane_drop_receiver (q_ops E) (s_ops E) i (lane_queue p) = (rs, lq)" by fastforce
    with LExit st i show ?thesis
      by (intro that [of LExit LStopped]) (auto simp: defs intro!: lane_effect.lane_exit)
  qed (use st i in \<open>auto simp: lane_step_def\<close>)
qed

section \<open>Spawned tasks\<close>

definition run_frame ::
  "nat \<Rightarrow> 'r run_task \<Rightarrow> ('r, 'n, 's, 'q, 'c, 'o, 'h) rlxd \<Rightarrow> ('r, 'n, 's, 'q, 'c, 'o, 'h) rlxd \<Rightarrow> bool" where
  "run_frame i t p q \<longleftrightarrow>
     i < length (spawned p) \<and> spawned q = (spawned p)[i := t] \<and> rt_task t = rt_task (spawned p ! i) \<and>
     rt_shard t = rt_shard (spawned p ! i) \<and> rt_direct t = rt_direct (spawned p ! i) \<and>
     rt_notify t = rt_notify (spawned p ! i) \<and>
     submissions q = submissions p \<and> dispatchers q = dispatchers p \<and> lane_queue q = lane_queue p \<and>
     next_task_id q = next_task_id p \<and> pool_name q = pool_name p \<and> handles q = handles p \<and>
     shutdown_token q = shutdown_token p \<and> length (oneshots q) = length (oneshots p)"

inductive run_effect ::
  "('r, 'n, 's, 'q, 'c, 'o, 'h) env \<Rightarrow> 'r run_task \<Rightarrow> ('r, 'n, 's, 'q, 'c, 'o, 'h) rlxd \<Rightarrow>
     ('r, 'n, 's, 'q, 'c, 'o, 'h) rlxd \<Rightarrow> 'r run_pc \<Rightarrow> 'r run_pc \<Rightarrow> bool"
  for E t p q where
  run_quiet: "\<forall>x \<in> {pc, pc'}. x \<noteq> RFinish \<and> x \<noteq> RRelease \<and> x \<noteq> RDone \<Longrightarrow> free_permits E q = free_permits E p \<Longrightarrow>
    shards q = shards p \<Longrightarrow> cores q = cores p \<Longrightarrow> run_effect E t p q pc pc'"
| run_mark: "free_permits E q = free_permits E p \<Longrightarrow> shards q = shards p \<Longrightarrow>
    cores q = heap_mark_finished (rt_core t) (cores p) \<Longrightarrow> run_effect E t p q RMark RFinish"
| run_finish: "free_permits E q = free_permits E p \<Longrightarrow>
    shards q = (shards p)[rt_shard t := deferred_finish (shards p ! rt_shard t)] \<Longrightarrow> cores q = cores p \<Longrightarrow>
    run_effect E t p q RFinish RRelease"
| run_release: "free_permits E q = Suc (free_permits E p) \<Longrightarrow> shards q = shards p \<Longrightarrow> cores q = cores p \<Longrightarrow>
    run_effect E t p q RRelease RDone"

lemma run_step_cases:
  assumes L: "lawful E" and st: "run_step E i p = Some q"
  obtains t where "run_frame i t p q" "run_effect E (spawned p ! i) p q (rt_pc (spawned p ! i)) (rt_pc t)"
proof -
  have S: "sem_laws (s_ops E)" using L by (simp add: lawful_def)
  have i: "i < length (spawned p)" using st by (auto simp: run_step_def split: if_splits)
  let ?t = "spawned p ! i"
  note defs = run_step_def run_frame_def rlxd_set_defs Let_def
  show ?thesis
  proof (cases "rt_pc ?t")
    case RPollFuture
    with st i show ?thesis
      by (intro that [of "?t\<lparr>rt_polls := Suc (rt_polls ?t), rt_pc := (case catch_unwind (mt_future (rt_task ?t) (rt_polls ?t))
            of Some x \<Rightarrow> RReady x | None \<Rightarrow> RPollCancel)\<rparr>"])
        (auto simp: defs intro!: run_effect.run_quiet split: option.splits)
  next
    case (RReady x)
    with st i show ?thesis
      by (intro that [of "?t\<lparr>rt_pc := RSend (ready_outcome (core_cancelled p (rt_core ?t)) x)\<rparr>"])
        (auto simp: defs intro!: run_effect.run_quiet)
  next
    case RPollCancel
    with st i show ?thesis
      by (intro that [of "?t\<lparr>rt_pc := (if core_cancelled p (rt_core ?t) then RSend (Inl TaskCancelled) else RPollFuture)\<rparr>"])
        (auto simp: defs intro!: run_effect.run_quiet)
  next
    case (RSend res)
    with st i show ?thesis
      by (intro that [of "?t\<lparr>rt_pc := (if rt_notify ?t then RNotify (status_from res) else RMark)\<rparr>"])
        (auto simp: defs intro!: run_effect.run_quiet)
  next
    case (RNotify s)
    with st i show ?thesis
      by (intro that [of "?t\<lparr>rt_pc := RMark\<rparr>"]) (auto simp: defs intro!: run_effect.run_quiet)
  next
    case RMark
    with st i show ?thesis
      by (intro that [of "?t\<lparr>rt_pc := RFinish\<rparr>"]) (auto simp: defs intro!: run_effect.run_mark)
  next
    case RFinish
    with st i show ?thesis
      by (intro that [of "?t\<lparr>rt_pc := RRelease\<rparr>"]) (auto simp: defs intro!: run_effect.run_finish)
  next
    case RRelease
    with st i gate.release_avail [OF S] show ?thesis
      by (intro that [of "?t\<lparr>rt_pc := RDone\<rparr>"]) (auto simp: defs intro!: run_effect.run_release)
  next
    case RDone
    with st i show ?thesis by (simp add: run_step_def)
  qed
qed

section \<open>The steps of the pool\<close>

definition fresh_submission ::
  "('r, 'n, 's, 'q, 'c, 'o, 'h) env \<Rightarrow> task_label set \<Rightarrow> 'r task_to_execute \<Rightarrow>
     ('r, 'n, 's, 'q, 'c, 'o, 'h) rlxd \<Rightarrow> ('r, 'n, 's, 'q, 'c, 'o, 'h) rlxd \<Rightarrow> bool" where
  "fresh_submission E ls f p q \<longleftrightarrow>
     submissions q = submissions p @ [(\<lparr>mt_core = length (cores p), mt_future = f\<rparr>, SubLen 0 0)] \<and>
     cores q = cores p @ [core_new (n_ops E) (next_task_id p) ls] \<and>
     next_task_id q = next_task_id p + 1 \<and> length (oneshots q) = Suc (length (oneshots p)) \<and>
     concurrency_gate q = concurrency_gate p \<and> shards q = shards p \<and> dispatchers q = dispatchers p \<and>
     spawned q = spawned p \<and> lane_queue q = lane_queue p \<and> pool_name q = pool_name p"

lemma rlxd_event_cases:
  assumes L: "lawful E" and wf: "rlxd_wf E k p" and st: "rlxd_step E e p = Some q"
  obtains (quiet) "quiet E p q"
    | (new) ls f where "fresh_submission E ls f p q"
    | (sub) r pc pc' where "sub_frame k r pc pc' p q" "sub_effect E k (fst (submissions p ! r)) p q pc pc'"
    | (lane) i pc pc' where "lane_frame i pc pc' p q" "lane_effect E i p q pc pc'" "e = RStepDispatcher i"
    | (run) i t where "run_frame i t p q" "run_effect E (spawned p ! i) p q (rt_pc (spawned p ! i)) (rt_pc t)" "e = RStepTask i"
proof (cases "active_event e")
  case False
  with quiet quiet_step [OF L st] show ?thesis by blast
next
  case True
  then consider ls f where "e = RSubmit ls f" | r where "e = RStepSubmit r" | r where "e = RAbandonSubmit r"
    | i where "e = RStepDispatcher i" | i where "e = RStepTask i" by (auto simp: active_event_def)
  then show ?thesis
  proof cases
    case (1 ls f)
    with st consider "q = p" | "fresh_submission E ls f p q"
      by (auto simp: with_manager_def rlxd_submit_begin_def fresh_submission_def Let_def split: if_splits)
    then show ?thesis using quiet new by cases (auto simp: quiet_def)
  next
    case (2 r)
    with st have "submission_step E r p = Some q" by simp
    then show ?thesis by (rule submission_step_cases [OF L wf]) (rule sub)
  next
    case (3 r)
    with st have "submission_abandon E r p = Some q" by simp
    then show ?thesis by (rule submission_abandon_cases [OF L]) (rule sub)
  next
    case (4 i)
    with st have "lane_step E i p = Some q" by simp
    then show ?thesis by (rule lane_step_cases [OF L wf]) (rule lane [OF _ _ 4])
  next
    case (5 i)
    with st have "run_step E i p = Some q" by simp
    then show ?thesis by (rule run_step_cases [OF L]) (rule run [OF _ _ 5])
  qed
qed

lemma rlxd_step_cases:
  assumes L: "lawful E" and wf: "rlxd_wf E k p" and st: "rlxd_step E e p = Some q"
  obtains (quiet) "quiet E p q"
    | (new) ls f where "fresh_submission E ls f p q"
    | (sub) r pc pc' where "sub_frame k r pc pc' p q" "sub_effect E k (fst (submissions p ! r)) p q pc pc'"
    | (lane) i pc pc' where "lane_frame i pc pc' p q" "lane_effect E i p q pc pc'"
    | (run) i t where "run_frame i t p q" "run_effect E (spawned p ! i) p q (rt_pc (spawned p ! i)) (rt_pc t)"
  by (rule rlxd_event_cases [OF L wf st])
    (erule that(1), erule that(2), erule (1) that(3), erule (1) that(4), erule (1) that(5))

end
