(* ===== verification/RlxdInv.thy ===== *)
theory RlxdInv
  imports RlxdCases
begin

text \<open>
  The running part of the relaxed pool: indices in range and no panic, the permits of both
  gates, and the counters of the shards, each as an interpretation of \<open>invariant\<close> on \<open>rlxd_step\<close>.
\<close>

section \<open>Well-formedness\<close>

lemma lanes_inv_release: "lanes_inv C k (lane_release S q) = lanes_inv C k q"
  by (simp add: lanes_inv_def lane_items_same lane_release_def lane_items_def)

lemma in_set_update: "x \<in> set (xs[i := y]) \<Longrightarrow> x = y \<or> x \<in> set xs"
  by (auto dest: set_update_subset_insert [THEN subsetD])

lemma deferred_count_simps [simp]:
  "entries (deferred_count d) = entries d" "in_flight (deferred_count d) = in_flight d + 1"
  "entries (deferred_finish d) = entries d" "in_flight (deferred_finish d) = in_flight d - 1"
  by (simp_all add: deferred_count_def deferred_finish_def)

lemma rlxd_wf_sub:
  assumes C: "chan_laws (q_ops E)" and S: "sem_laws (s_ops E)" and wf: "rlxd_wf E k p"
    and f: "sub_frame k r pc pc' p q" and e: "sub_effect E k t p q pc pc'"
  shows "rlxd_wf E k q"
proof -
  have sub: "\<forall>s \<in> set (submissions q). sub_ok k (snd s)"
    using wf f by (auto simp: rlxd_wf_def sub_frame_def dest!: in_set_update)
  have d: "dispatchers q = dispatchers p" using f by (simp add: sub_frame_def)
  have old: "lanes_inv (q_ops E) k (lane_queue p)" "\<forall>d \<in> set (shards p). slots_wf (entries d)"
    using wf by (auto simp: rlxd_wf_def)
  have keep: "lanes_inv (q_ops E) k (lane_queue q) \<Longrightarrow> length (shards q) = length (shards p) \<Longrightarrow>
      \<forall>d \<in> set (shards q). slots_wf (entries d) \<Longrightarrow> \<forall>t \<in> set (spawned q). rt_shard t < k \<Longrightarrow> ?thesis"
    using wf sub d by (simp add: rlxd_wf_def)
  have sp: "\<forall>t \<in> set (spawned p). rt_shard t < k" using wf by (simp add: rlxd_wf_def)
  from e show ?thesis
  proof cases
    case sub_quiet
    then show ?thesis using old sp by (intro keep) (auto simp: lanes_same_inv)
  next
    case (sub_count j)
    have "slots_wf (entries (deferred_count (shards p ! j)))"
      using old(2) sub_count wf by (simp add: rlxd_wf_def)
    with sub_count old sp show ?thesis by (intro keep) (auto dest!: in_set_update)
  next
    case (sub_store j d)
    with old sp show ?thesis by (intro keep) (auto dest!: in_set_update)
  next
    case (sub_spawn j b)
    with old sp show ?thesis by (intro keep) auto
  next
    case sub_slot
    then have "lanes_inv (q_ops E) k (lane_queue q)" using old(1) by (simp add: lanes_inv_def)
    with sub_slot old sp show ?thesis by (intro keep) simp_all
  next
    case (sub_push i res)
    from lane_push_effect [OF C S old(1) sub_push(3), of t] sub_push(7)
    have "lanes_inv (q_ops E) k (lane_queue q)" by auto
    with sub_push old sp show ?thesis by (intro keep) simp_all
  qed (use old sp in \<open>auto intro!: keep\<close>)
qed

lemma rlxd_wf_lane:
  assumes C: "chan_laws (q_ops E)" and S: "sem_laws (s_ops E)" and wf: "rlxd_wf E k p"
    and f: "lane_frame i pc pc' p q" and e: "lane_effect E i p q pc pc'"
  shows "rlxd_wf E k q"
proof -
  have d: "\<forall>d \<in> set (dispatchers q). d \<noteq> LPanicked" "length (dispatchers q) = k"
    using wf f by (auto simp: rlxd_wf_def lane_frame_def dest!: in_set_update)
  have s: "submissions q = submissions p" and i: "i < k" using f wf by (auto simp: lane_frame_def rlxd_wf_def)
  have old: "lanes_inv (q_ops E) k (lane_queue p)" "\<forall>d \<in> set (shards p). slots_wf (entries d)"
    using wf by (auto simp: rlxd_wf_def)
  have keep: "lanes_inv (q_ops E) k (lane_queue q) \<Longrightarrow> length (shards q) = length (shards p) \<Longrightarrow>
      \<forall>d \<in> set (shards q). slots_wf (entries d) \<Longrightarrow> \<forall>t \<in> set (spawned q). rt_shard t < k \<Longrightarrow> ?thesis"
    using wf s d by (simp add: rlxd_wf_def)
  have sp: "\<forall>t \<in> set (spawned p). rt_shard t < k" using wf by (simp add: rlxd_wf_def)
  from e show ?thesis
  proof cases
    case (lane_recv x)
    from lane_recv_effect [OF C old(1) i lane_recv(2)] lane_recv old sp show ?thesis by (intro keep) auto
  next
    case (lane_take t)
    with old sp show ?thesis by (intro keep) (auto simp: lanes_inv_release)
  next
    case (lane_count t)
    have "slots_wf (entries (deferred_count (shards p ! i)))"
      using old(2) i wf by (simp add: rlxd_wf_def)
    with lane_count old sp show ?thesis by (intro keep) (auto dest!: in_set_update)
  next
    case (lane_store t d)
    with old sp show ?thesis by (intro keep) (auto dest!: in_set_update)
  next
    case (lane_spawn t b)
    with old sp i show ?thesis by (intro keep) auto
  next
    case (lane_exit rs)
    from lane_drop_receiver_effect [OF C S old(1) i lane_exit(3)] lane_exit old sp show ?thesis
      by (intro keep) auto
  qed (use old sp in \<open>auto intro!: keep\<close>)
qed

lemma rlxd_wf_run:
  assumes wf: "rlxd_wf E k p" and f: "run_frame i t p q" and e: "run_effect E (spawned p ! i) p q pc pc'"
  shows "rlxd_wf E k q"
proof -
  have old: "\<forall>d \<in> set (shards p). slots_wf (entries d)" "\<forall>t \<in> set (spawned p). rt_shard t < k"
    and k: "length (shards p) = k" using wf by (auto simp: rlxd_wf_def)
  have i: "i < length (spawned p)" using f by (simp add: run_frame_def)
  have sp: "\<forall>t \<in> set (spawned q). rt_shard t < k"
    using f old(2) i by (auto simp: run_frame_def dest!: in_set_update)
  have keep: "length (shards q) = length (shards p) \<Longrightarrow> \<forall>d \<in> set (shards q). slots_wf (entries d) \<Longrightarrow> ?thesis"
    using wf f sp by (simp add: rlxd_wf_def run_frame_def)
  from e show ?thesis
  proof cases
    case run_finish
    have "slots_wf (entries (deferred_finish (shards p ! rt_shard (spawned p ! i))))"
      using old i k by simp
    with run_finish old(1) show ?thesis by (intro keep) (auto dest!: in_set_update)
  qed (use old in \<open>auto intro!: keep\<close>)
qed

lemma rlxd_wf_step:
  assumes L: "lawful E" and wf: "rlxd_wf E k p" and st: "rlxd_step E e p = Some q"
  shows "rlxd_wf E k q"
proof -
  have C: "chan_laws (q_ops E)" and S: "sem_laws (s_ops E)" using L by (auto simp: lawful_def)
  from L wf st show ?thesis
  proof (cases rule: rlxd_step_cases)
    case quiet
    with wf show ?thesis by (auto simp: quiet_def rlxd_wf_def lanes_same_inv)
  next
    case (new ls f)
    with wf show ?thesis by (auto simp: fresh_submission_def rlxd_wf_def)
  next
    case (sub r pc pc')
    then show ?thesis by (rule rlxd_wf_sub [OF C S wf])
  next
    case (lane i pc pc')
    then show ?thesis by (rule rlxd_wf_lane [OF C S wf])
  next
    case (run i t)
    then show ?thesis by (rule rlxd_wf_run [OF wf])
  qed
qed

lemma rlxd_wf_new: "lawful E \<Longrightarrow> rlxd_wf E (max n 1) (rlxd_new E limit cap n name)"
  by (auto simp: rlxd_wf_def rlxd_new_def Let_def lawful_def lanes_new_inv deferred_with_capacity_def)

interpretation wf: invariant "\<lambda>p. p = rlxd_new E limit cap n name" "rlxd_step E"
    "\<lambda>p. lawful E \<longrightarrow> rlxd_wf E (max n 1) p" for E limit cap n name
  by unfold_locales (use rlxd_wf_new rlxd_wf_step in blast)+

lemma rlxd_pool_wf: "lawful E \<Longrightarrow> rlxd_reach E limit cap n name p \<Longrightarrow> rlxd_wf E (max n 1) p"
  using wf.reach_inv by blast

section \<open>The permits of the concurrency gate\<close>

text \<open>Every permit is free, or held by one dispatcher, one direct submission or one task.\<close>

definition rlxd_permits ::
  "('r, 'n, 's, 'q, 'c, 'o, 'h) env \<Rightarrow> nat \<Rightarrow> ('r, 'n, 's, 'q, 'c, 'o, 'h) rlxd \<Rightarrow> bool" where
  "rlxd_permits E n p \<longleftrightarrow>
     free_permits E p + count_if lane_holds (dispatchers p) + count_if (sub_holds \<circ> snd) (submissions p) +
       count_if run_holds (spawned p) = n"

lemma sub_count_update:
  "sub_frame k r pc pc' p q \<Longrightarrow>
     count_if (P \<circ> snd) (submissions q) + of_bool (P pc) = count_if (P \<circ> snd) (submissions p) + of_bool (P pc')"
  using count_if_update [of r "submissions p" "P \<circ> snd" "(fst (submissions p ! r), pc')"]
  by (simp add: sub_frame_def)

lemma lane_count_update:
  "lane_frame i pc pc' p q \<Longrightarrow>
     count_if P (dispatchers q) + of_bool (P pc) = count_if P (dispatchers p) + of_bool (P pc')"
  using count_if_update [of i "dispatchers p" P pc'] by (simp add: lane_frame_def)

lemma run_count_update:
  "run_frame i t p q \<Longrightarrow>
     count_if P (spawned q) + of_bool (P (spawned p ! i)) = count_if P (spawned p) + of_bool (P t)"
  using count_if_update [of i "spawned p" P t] by (simp add: run_frame_def)

lemma rlxd_permits_step:
  assumes L: "lawful E" and wf: "rlxd_wf E k p" and inv: "rlxd_permits E n p"
    and st: "rlxd_step E e p = Some q"
  shows "rlxd_permits E n q"
  using L wf st
proof (cases rule: rlxd_step_cases)
  case quiet
  with inv show ?thesis by (simp add: rlxd_permits_def quiet_def)
next
  case (new ls f)
  with inv show ?thesis by (simp add: rlxd_permits_def fresh_submission_def)
next
  case (sub r pc pc')
  have d: "dispatchers q = dispatchers p" using sub(1) by (simp add: sub_frame_def)
  note c = sub_count_update [OF sub(1), of sub_holds]
  from sub(2) show ?thesis
    using inv c by cases (simp_all add: rlxd_permits_def d sub_quiet_def run_holds_def)
next
  case (lane i pc pc')
  have s: "submissions q = submissions p" using lane(1) by (simp add: lane_frame_def)
  note c = lane_count_update [OF lane(1), of lane_holds]
  from lane(2) show ?thesis
  proof cases
    case (lane_recv x)
    with inv c show ?thesis by (cases x) (simp_all add: rlxd_permits_def s)
  next
    case (lane_take t)
    with inv c show ?thesis by (auto simp: rlxd_permits_def s)
  qed (use inv c in \<open>simp_all add: rlxd_permits_def s lane_quiet_def run_holds_def\<close>)
next
  case (run i t)
  have d: "dispatchers q = dispatchers p" "submissions q = submissions p"
    using run(1) by (auto simp: run_frame_def)
  have c: "count_if run_holds (spawned q) + of_bool (rt_pc (spawned p ! i) \<noteq> RDone) =
      count_if run_holds (spawned p) + of_bool (rt_pc t \<noteq> RDone)"
    using run_count_update [OF run(1), of run_holds] by (simp add: run_holds_def)
  from run(2) show ?thesis
    by cases (use inv c in \<open>simp_all add: rlxd_permits_def d\<close>)
qed

section \<open>The permits of the queue\<close>

text \<open>
  Every permit of the queue's gate is free, held by a sender, in a message in a lane or in a
  message in a dispatcher's hands; each failed send adds one to their number.
\<close>

definition queue_permits ::
  "('r, 'n, 's, 'q, 'c, 'o, 'h) env \<Rightarrow> nat \<Rightarrow> ('r, 'n, 's, 'q, 'c, 'o, 'h) rlxd \<Rightarrow> bool" where
  "queue_permits E m p \<longleftrightarrow>
     lane_permits (s_ops E) (lane_queue p) + count_if (sub_slot \<circ> snd) (submissions p) +
       lanes_queued (q_ops E) (lane_queue p) + count_if lane_slot (dispatchers p) =
     m + count_if (sub_failed \<circ> snd) (submissions p)"

lemma lanes_same_queued:
  "lanes_same C S q q' \<Longrightarrow> lanes_queued C q' = lanes_queued C q \<and> lane_permits S q' = lane_permits S q"
  by (simp add: lanes_same_def)

lemma queue_permits_step:
  assumes L: "lawful E" and wf: "rlxd_wf E k p" and inv: "queue_permits E m p"
    and st: "rlxd_step E e p = Some q"
  shows "queue_permits E m q"
proof -
  have C: "chan_laws (q_ops E)" and S: "sem_laws (s_ops E)" using L by (auto simp: lawful_def)
  have li: "lanes_inv (q_ops E) k (lane_queue p)" using wf by (simp add: rlxd_wf_def)
  from L wf st show ?thesis
  proof (cases rule: rlxd_step_cases)
    case quiet
    with inv lanes_same_queued [of "q_ops E" "s_ops E" "lane_queue p" "lane_queue q"] show ?thesis
      by (simp add: queue_permits_def quiet_def)
  next
    case (new ls f)
    with inv show ?thesis by (simp add: queue_permits_def fresh_submission_def)
  next
    case (sub r pc pc')
    have d: "dispatchers q = dispatchers p" and pc: "\<not> sub_failed pc" using sub(1) by (auto simp: sub_frame_def)
    note c = sub_count_update [OF sub(1), of sub_slot] sub_count_update [OF sub(1), of "\<lambda>x. sub_failed x"]
    from sub(2) show ?thesis
    proof cases
      case sub_quiet
      then show ?thesis
        using inv c pc lanes_same_queued [of "q_ops E" "s_ops E" "lane_queue p" "lane_queue q"]
        by (simp add: queue_permits_def d sub_quiet_def comp_def)
    next
      case (sub_push i res)
      from lane_push_effect [OF C S li sub_push(3), of "fst (submissions p ! r)"] sub_push(7)
      consider "res = Inr ()" "lanes_queued (q_ops E) (lane_queue q) = Suc (lanes_queued (q_ops E) (lane_queue p))"
          "lane_permits (s_ops E) (lane_queue q) = lane_permits (s_ops E) (lane_queue p)"
        | "res = Inl QueueSendChannelClosed"
          "lanes_queued (q_ops E) (lane_queue q) = lanes_queued (q_ops E) (lane_queue p)"
          "lane_permits (s_ops E) (lane_queue q) = lane_permits (s_ops E) (lane_queue p) + 2" by auto
      then show ?thesis
        by cases (use inv c sub_push(1,2) in \<open>simp_all add: queue_permits_def d comp_def\<close>)
    qed (use inv c in \<open>simp_all add: queue_permits_def d comp_def\<close>)
  next
    case (lane i pc pc')
    have s: "submissions q = submissions p" and i: "i < k" using lane(1) wf by (auto simp: lane_frame_def rlxd_wf_def)
    note c = lane_count_update [OF lane(1), of lane_slot]
    from lane(2) show ?thesis
    proof cases
      case (lane_recv x)
      from lane_recv_effect [OF C li i lane_recv(2)] show ?thesis
        using inv c lane_recv by (cases x) (auto simp: queue_permits_def s lane_permits_def)
    next
      case (lane_take t)
      then have "lane_permits (s_ops E) (lane_queue q) = Suc (lane_permits (s_ops E) (lane_queue p))"
        by (simp add: lane_permits_def lane_release_def gate.release_avail [OF S])
      with lane_take inv c show ?thesis by (auto simp: queue_permits_def s lane_items_same)
    next
      case (lane_exit rs)
      from lane_drop_receiver_effect [OF C S li i lane_exit(3)] show ?thesis
        using inv c lane_exit(1,2) by (simp add: queue_permits_def s)
    qed (use inv c in \<open>simp_all add: queue_permits_def s lane_quiet_def\<close>)
  next
    case (run i t)
    with inv show ?thesis by (simp add: queue_permits_def run_frame_def)
  qed
qed

section \<open>The counters of the shards\<close>

text \<open>The tasks that shard \<open>j\<close> counts.\<close>

definition in_shard :: "nat \<Rightarrow> ('r, 'n, 's, 'q, 'c, 'o, 'h) rlxd \<Rightarrow> nat" where
  "in_shard j p = of_bool (lane_counted (dispatchers p ! j)) + count_if (sub_counted j \<circ> snd) (submissions p) +
     count_if (run_counted j) (spawned p)"

text \<open>A task is counted in one shard at most, and whoever is counted holds a permit.\<close>

lemma sum_count_if:
  assumes "\<And>x i j. P i x \<Longrightarrow> P j x \<Longrightarrow> i = j" "\<And>x j. P j x \<Longrightarrow> Q x"
  shows "(\<Sum>j < (k :: nat). count_if (P j) xs) \<le> count_if Q xs"
proof (induction xs)
  case Nil
  then show ?case by simp
next
  case (Cons x xs)
  have "(\<Sum>j < k. of_bool (P j x) :: nat) = card {j \<in> {..<k}. P j x}"
    by (simp add: sum_of_bool_eq Int_def)
  also have "\<dots> \<le> of_bool (Q x)"
  proof (cases "\<exists>j. P j x")
    case True
    then obtain j where "P j x" ..
    with assms(1) have "{j \<in> {..<k}. P j x} \<subseteq> {j}" by blast
    then have "card {j \<in> {..<k}. P j x} \<le> 1" using card_mono [of "{j}"] by fastforce
    with \<open>P j x\<close> assms(2) show ?thesis by simp
  qed simp
  finally show ?case using Cons.IH by (simp add: sum.distrib)
qed

lemma in_shard_total:
  assumes "length (dispatchers p) = length (shards p)"
  shows "(\<Sum>j < length (shards p). in_shard j p) \<le>
    count_if lane_holds (dispatchers p) + count_if (sub_holds \<circ> snd) (submissions p) + count_if run_holds (spawned p)"
proof -
  have "(\<Sum>j < length (shards p). of_bool (lane_counted (dispatchers p ! j)) :: nat) =
      count_if lane_counted (dispatchers p)"
    by (simp add: count_if_card assms sum_of_bool_eq Int_def)
  also have "\<dots> \<le> count_if lane_holds (dispatchers p)"
    by (rule count_if_mono) (auto elim: lane_counted.elims)
  finally have "(\<Sum>j < length (shards p). of_bool (lane_counted (dispatchers p ! j)) :: nat) \<le>
      count_if lane_holds (dispatchers p)" .
  moreover have "(\<Sum>j < length (shards p). count_if (sub_counted j \<circ> snd) (submissions p)) \<le>
      count_if (sub_holds \<circ> snd) (submissions p)"
    by (rule sum_count_if) (auto elim!: sub_counted.elims)
  moreover have "(\<Sum>j < length (shards p). count_if (run_counted j) (spawned p)) \<le> count_if run_holds (spawned p)"
    by (rule sum_count_if) (auto simp: run_counted_def run_holds_def)
  ultimately show ?thesis by (simp add: in_shard_def sum.distrib)
qed

definition counters_inv :: "('r, 'n, 's, 'q, 'c, 'o, 'h) rlxd \<Rightarrow> bool" where
  "counters_inv p \<longleftrightarrow> (\<forall>j < length (shards p). in_flight (shards p ! j) = of_nat (in_shard j p))"

lemma unat_of_nat_le: "unat (of_nat x :: usize) \<le> x"
  by (simp add: unat_of_nat)

lemma counters_keep:
  assumes "counters_inv p" "length (shards q) = length (shards p)"
    and "\<And>j. j < length (shards p) \<Longrightarrow> in_flight (shards q ! j) = in_flight (shards p ! j) \<and> in_shard j q = in_shard j p"
  shows "counters_inv q"
  using assms by (auto simp: counters_inv_def)

lemma counters_gain:
  assumes "counters_inv p" "shards q = (shards p)[i := deferred_count (shards p ! i)]"
    and "\<And>j. j < length (shards p) \<Longrightarrow> in_shard j q = in_shard j p + of_bool (i = j)"
  shows "counters_inv q"
  using assms by (auto simp: counters_inv_def nth_upd)

lemma counters_lose:
  assumes "counters_inv p" "shards q = (shards p)[i := deferred_finish (shards p ! i)]"
    and "\<And>j. j < length (shards p) \<Longrightarrow> in_shard j p = in_shard j q + of_bool (i = j)"
  shows "counters_inv q"
  using assms by (auto simp: counters_inv_def nth_upd)

lemma in_shard_sub:
  assumes "sub_frame k r pc pc' p q"
  shows "in_shard j q + of_bool (sub_counted j pc) + count_if (run_counted j) (spawned p) =
     in_shard j p + of_bool (sub_counted j pc') + count_if (run_counted j) (spawned q)"
proof -
  have "dispatchers q = dispatchers p" using assms by (simp add: sub_frame_def)
  with sub_count_update [OF assms, of "sub_counted j"] show ?thesis by (simp add: in_shard_def)
qed

lemma in_shard_lane:
  "lane_frame i pc pc' p q \<Longrightarrow>
     in_shard j q + of_bool (i = j \<and> lane_counted pc) + count_if (run_counted j) (spawned p) =
     in_shard j p + of_bool (i = j \<and> lane_counted pc') + count_if (run_counted j) (spawned q)"
  by (auto simp: in_shard_def lane_frame_def nth_upd)

lemma in_shard_run:
  assumes "run_frame i t p q"
  shows "in_shard j q + of_bool (run_counted j (spawned p ! i)) = in_shard j p + of_bool (run_counted j t)"
proof -
  have "dispatchers q = dispatchers p" "submissions q = submissions p" using assms by (auto simp: run_frame_def)
  with run_count_update [OF assms, of "run_counted j"] show ?thesis by (simp add: in_shard_def)
qed

lemma counters_step:
  assumes L: "lawful E" and wf: "rlxd_wf E k p" and inv: "counters_inv p"
    and st: "rlxd_step E e p = Some q"
  shows "counters_inv q"
  using L wf st
proof (cases rule: rlxd_step_cases)
  case quiet
  then show ?thesis by (intro counters_keep [OF inv]) (simp_all add: quiet_def in_shard_def)
next
  case (new ls f)
  then show ?thesis by (intro counters_keep [OF inv]) (simp_all add: fresh_submission_def in_shard_def)
next
  case (sub r pc pc')
  note c = in_shard_sub [OF sub(1)]
  from sub(2) show ?thesis
  proof cases
    case sub_quiet
    then have "sub_counted j pc' = sub_counted j pc" for j by (simp add: sub_quiet_def)
    with sub_quiet c show ?thesis by (intro counters_keep [OF inv]) simp_all
  next
    case (sub_count j)
    have "in_shard l q = in_shard l p + of_bool (j = l)" for l using c [of l] sub_count by simp
    with sub_count show ?thesis by (intro counters_gain [OF inv])
  next
    case (sub_store j d)
    have "in_shard l q = in_shard l p" for l using c [of l] sub_store by simp
    with sub_store show ?thesis by (intro counters_keep [OF inv]) (auto simp: nth_upd)
  next
    case (sub_spawn j b)
    have "in_shard l q = in_shard l p" for l using c [of l] sub_spawn by (simp add: run_counted_def)
    with sub_spawn show ?thesis by (intro counters_keep [OF inv]) simp_all
  qed (use c in \<open>auto intro!: counters_keep [OF inv]\<close>)
next
  case (lane i pc pc')
  note c = in_shard_lane [OF lane(1)]
  from lane(2) show ?thesis
  proof cases
    case lane_quiet
    then show ?thesis using c by (intro counters_keep [OF inv]) (simp_all add: lane_quiet_def)
  next
    case (lane_recv x)
    then show ?thesis using c by (intro counters_keep [OF inv]) (cases x; simp)+
  next
    case (lane_take t)
    then show ?thesis using c by (intro counters_keep [OF inv]) auto
  next
    case (lane_count t)
    have "in_shard l q = in_shard l p + of_bool (i = l)" for l using c [of l] lane_count by simp
    with lane_count show ?thesis by (intro counters_gain [OF inv])
  next
    case (lane_store t d)
    have "in_shard l q = in_shard l p" for l using c [of l] lane_store by simp
    with lane_store show ?thesis by (intro counters_keep [OF inv]) (auto simp: nth_upd)
  next
    case (lane_spawn t b)
    have "in_shard l q = in_shard l p" for l using c [of l] lane_spawn by (auto simp: run_counted_def)
    with lane_spawn show ?thesis by (intro counters_keep [OF inv]) simp_all
  qed (use c in \<open>auto intro!: counters_keep [OF inv]\<close>)
next
  case (run i t)
  note c = in_shard_run [OF run(1)]
  have sh: "rt_shard t = rt_shard (spawned p ! i)" using run(1) by (simp add: run_frame_def)
  from run(2) show ?thesis
  proof cases
    case run_finish
    have "in_shard l p = in_shard l q + of_bool (rt_shard (spawned p ! i) = l)" for l
      using c [of l] run_finish sh by (simp add: run_counted_def)
    with run_finish show ?thesis by (intro counters_lose [OF inv])
  qed (use c sh in \<open>auto intro!: counters_keep [OF inv] simp: run_counted_def\<close>)
qed

section \<open>Together\<close>

definition rlxd_running ::
  "('r, 'n, 's, 'q, 'c, 'o, 'h) env \<Rightarrow> nat \<Rightarrow> nat \<Rightarrow> ('r, 'n, 's, 'q, 'c, 'o, 'h) rlxd \<Rightarrow> bool" where
  "rlxd_running E n m p \<longleftrightarrow> rlxd_permits E n p \<and> queue_permits E m p \<and> counters_inv p"

lemma rlxd_running_new:
  assumes "lawful E"
  shows "rlxd_running E (max limit 1) (max cap 1) (rlxd_new E limit cap n name)"
proof -
  let ?p = "rlxd_new E limit cap n name"
  have "rlxd_permits E (max limit 1) ?p"
    using assms
    by (simp add: rlxd_permits_def rlxd_new_def Let_def lawful_def gate_new_permits count_if_zero_iff)
  moreover have "queue_permits E (max cap 1) ?p"
    using assms
    by (simp add: queue_permits_def rlxd_new_def Let_def lawful_def lanes_new_inv lane_permits_def
        lanes_new_def gate_new_permits count_if_zero_iff lane_items_def ch_new_items sum_list_replicate)
  moreover have "counters_inv ?p"
    by (auto simp: counters_inv_def in_shard_def rlxd_new_def Let_def deferred_with_capacity_def)
  ultimately show ?thesis by (simp add: rlxd_running_def)
qed

lemma rlxd_running_step:
  "lawful E \<Longrightarrow> rlxd_wf E k p \<Longrightarrow> rlxd_running E n m p \<Longrightarrow> rlxd_step E e p = Some q \<Longrightarrow> rlxd_running E n m q"
  unfolding rlxd_running_def
  by (intro conjI; elim conjE) (auto intro: rlxd_permits_step queue_permits_step counters_step)

interpretation rlxd_run: relative_invariant "\<lambda>p. p = rlxd_new E limit cap n name" "rlxd_step E"
    "\<lambda>p. lawful E \<longrightarrow> rlxd_running E (max limit 1) (max cap 1) p" for E limit cap n name
proof unfold_locales
  show "p = rlxd_new E limit cap n name \<Longrightarrow>
      lawful E \<longrightarrow> rlxd_running E (max limit 1) (max cap 1) p" for p
    using rlxd_running_new by blast
  show "rlxd_reach E limit cap n name p \<Longrightarrow> lawful E \<longrightarrow> rlxd_running E (max limit 1) (max cap 1) p \<Longrightarrow>
      rlxd_step E e p = Some q \<Longrightarrow> lawful E \<longrightarrow> rlxd_running E (max limit 1) (max cap 1) q" for p e q
    using rlxd_pool_wf rlxd_running_step by blast
qed

lemma rlxd_pool_running:
  "lawful E \<Longrightarrow> rlxd_reach E limit cap n name p \<Longrightarrow> rlxd_running E (max limit 1) (max cap 1) p"
  using rlxd_run.reach_inv by blast

end
