(* ===== verification/RlxdOrder.thy ===== *)
theory RlxdOrder
  imports RlxdInv
begin

text \<open>
  Where every task of the relaxed pool is: each submission owns one core, each lane hands on its
  tasks in order, and no task is in two places. The registry follows: what a shard lists
  are the tasks placed there that have not finished.
\<close>

section \<open>Addresses\<close>

definition rlxd_addresses :: "('r, 'n, 's, 'q, 'c, 'o, 'h) rlxd \<Rightarrow> bool" where
  "rlxd_addresses p \<longleftrightarrow>
     map (mt_core \<circ> fst) (submissions p) = [0..<length (cores p)] \<and>
     length (oneshots p) = length (cores p) \<and>
     map task_id (cores p) = map of_nat [0..<length (cores p)] \<and>
     next_task_id p = of_nat (length (cores p))"

lemma cores_kept_ids: "cores_kept h h' \<Longrightarrow> map task_id h' = map task_id h \<and> length h' = length h"
  by (auto simp: cores_kept_def intro: nth_equalityI)

lemma sub_frame_cores: "sub_frame k r pc pc' p q \<Longrightarrow> map fst (submissions q) = map fst (submissions p)"
  by (simp add: sub_frame_def map_id_update)

lemma heap_mark_finished_ids: "map task_id (heap_mark_finished r h) = map task_id h"
  by (rule nth_equalityI) simp_all

lemma run_effect_cores:
  "run_effect E t p q pc pc' \<Longrightarrow> cores q = cores p \<or> cores q = heap_mark_finished (rt_core t) (cores p)"
  by (cases rule: run_effect.cases) auto

lemma rlxd_addresses_step:
  assumes L: "lawful E" and wf: "rlxd_wf E k p" and inv: "rlxd_addresses p"
    and st: "rlxd_step E e p = Some q"
  shows "rlxd_addresses q"
  using L wf st
proof (cases rule: rlxd_step_cases)
  case quiet
  then have "cores_kept (cores p) (cores q)" by (simp add: quiet_def)
  from cores_kept_ids [OF this] quiet inv show ?thesis by (simp add: rlxd_addresses_def quiet_def)
next
  case (new ls f)
  with inv show ?thesis by (simp add: rlxd_addresses_def fresh_submission_def)
next
  case (sub r pc pc')
  have "map (mt_core \<circ> fst) (submissions q) = map (mt_core \<circ> fst) (submissions p)"
    using sub_frame_cores [OF sub(1)] by (metis map_map)
  with sub(1) inv show ?thesis by (simp add: rlxd_addresses_def sub_frame_def)
next
  case (lane i pc pc')
  with inv show ?thesis by (simp add: rlxd_addresses_def lane_frame_def)
next
  case (run i t)
  with run_effect_cores [OF run(2)] inv show ?thesis
    by (auto simp: rlxd_addresses_def run_frame_def heap_mark_finished_ids)
qed

lemma rlxd_addresses_new: "rlxd_addresses (rlxd_new E limit cap n name)"
  by (simp add: rlxd_addresses_def rlxd_new_def Let_def)

interpretation rlxd_addr: relative_invariant "\<lambda>p. p = rlxd_new E limit cap n name" "rlxd_step E"
    "\<lambda>p. lawful E \<longrightarrow> rlxd_addresses p" for E limit cap n name
  by unfold_locales (use rlxd_addresses_new rlxd_addresses_step rlxd_pool_wf in blast)+

lemma rlxd_pool_addresses: "lawful E \<Longrightarrow> rlxd_reach E limit cap n name p \<Longrightarrow> rlxd_addresses p"
  using rlxd_addr.reach_inv by blast

section \<open>Order\<close>

text \<open>The tasks spawned by the dispatcher of lane \<open>i\<close> and by direct dispatch, in order.\<close>

definition lane_starts :: "('r, 'n, 's, 'q, 'c, 'o, 'h) rlxd \<Rightarrow> nat \<Rightarrow> core_ref list" where
  "lane_starts p i = map rt_core (filter (\<lambda>t. \<not> rt_direct t \<and> rt_shard t = i) (spawned p))"

definition direct_starts :: "('r, 'n, 's, 'q, 'c, 'o, 'h) rlxd \<Rightarrow> core_ref list" where
  "direct_starts p = map rt_core (filter rt_direct (spawned p))"

abbreviation in_hand_of :: "('r, 'n, 's, 'q, 'c, 'o, 'h) rlxd \<Rightarrow> nat \<Rightarrow> core_ref list" where
  "in_hand_of p i \<equiv> lane_cores (dispatchers p ! i)"

abbreviation sub_core :: "'r managed_task \<times> submit_pc \<Rightarrow> core_ref" where
  "sub_core s \<equiv> mt_core (fst s)"

definition order_inv :: "('r, 'n, 's, 'q, 'c, 'o, 'h) rlxd \<Rightarrow> bool" where
  "order_inv p \<longleftrightarrow>
     mset (concat (lane_sent (lane_queue p))) = mset (map sub_core (filter (\<lambda>s. sub_sent (snd s)) (submissions p))) \<and>
     mset (direct_starts p) = mset (map sub_core (filter (\<lambda>s. snd s = SubDirect) (submissions p))) \<and>
     (\<forall>i < length (dispatchers p).
        subseq (lane_starts p i @ in_hand_of p i) (lane_received (lane_queue p) ! i))"

lemma sub_filter_update:
  assumes f: "sub_frame k r pc pc' p q" and no: "\<not> P pc"
  shows "mset (map sub_core (filter (\<lambda>s. P (snd s)) (submissions q))) =
         mset (map sub_core (filter (\<lambda>s. P (snd s)) (submissions p))) +
           (if P pc' then {#sub_core (submissions p ! r)#} else {#})"
proof (cases "P pc'")
  case True
  with mset_filter_update_gain [of r "submissions p" "\<lambda>s. P (snd s)" "(fst (submissions p ! r), pc')" sub_core]
    f no show ?thesis by (simp add: sub_frame_def)
next
  case False
  with filter_update_neutral [of r "submissions p" "\<lambda>s. P (snd s)" "(fst (submissions p ! r), pc')"]
    f no show ?thesis by (simp add: sub_frame_def)
qed

lemma run_frame_starts:
  assumes "run_frame i t p q"
  shows "lane_starts q j = lane_starts p j" "direct_starts q = direct_starts p"
    "map rt_core (spawned q) = map rt_core (spawned p)"
proof -
  let ?f = "\<lambda>t. (rt_core t, rt_shard t, rt_direct t)"
  have "map ?f (spawned q) = map ?f (spawned p)"
    using assms by (simp add: run_frame_def map_id_update)
  then have m: "map g (filter P (map ?f (spawned q))) = map g (filter P (map ?f (spawned p)))" for g :: "core_ref \<times> nat \<times> bool \<Rightarrow> core_ref" and P
    by simp
  show "lane_starts q j = lane_starts p j"
    using m [of fst "\<lambda>x. \<not> snd (snd x) \<and> fst (snd x) = j"] by (simp add: lane_starts_def filter_map comp_def)
  show "direct_starts q = direct_starts p"
    using m [of fst "\<lambda>x. snd (snd x)"] by (simp add: direct_starts_def filter_map comp_def)
  show "map rt_core (spawned q) = map rt_core (spawned p)"
    using m [of fst "\<lambda>x. True"] by (simp add: comp_def)
qed

lemma order_keep:
  assumes "order_inv p" "submissions q = submissions p" "direct_starts q = direct_starts p"
    and "length (dispatchers q) = length (dispatchers p)" "lane_sent (lane_queue q) = lane_sent (lane_queue p)"
    and "\<And>i. i < length (dispatchers p) \<Longrightarrow>
      subseq (lane_starts p i @ in_hand_of p i) (lane_received (lane_queue p) ! i) \<Longrightarrow>
      subseq (lane_starts q i @ in_hand_of q i) (lane_received (lane_queue q) ! i)"
  shows "order_inv q"
  using assms by (simp add: order_inv_def)

lemma order_sub:
  assumes C: "chan_laws (q_ops E)" and S: "sem_laws (s_ops E)" and wf: "rlxd_wf E k p" and inv: "order_inv p"
    and f: "sub_frame k r pc pc' p q" and e: "sub_effect E k (fst (submissions p ! r)) p q pc pc'"
  shows "order_inv q"
proof -
  have d: "dispatchers q = dispatchers p" and pc: "\<not> sub_sent pc" "pc \<noteq> SubDirect"
    using f by (auto simp: sub_frame_def)
  note sent = sub_filter_update [OF f, of "\<lambda>x. sub_sent x"] and dir = sub_filter_update [OF f, of "\<lambda>x. x = SubDirect"]
  have keep: "spawned q = spawned p \<Longrightarrow> lane_sent (lane_queue q) = lane_sent (lane_queue p) \<Longrightarrow>
      lane_received (lane_queue q) = lane_received (lane_queue p) \<Longrightarrow> \<not> sub_sent pc' \<Longrightarrow> pc' \<noteq> SubDirect \<Longrightarrow> ?thesis"
    using inv sent dir pc d by (simp add: order_inv_def lane_starts_def direct_starts_def)
  from e show ?thesis
  proof cases
    case sub_quiet
    then show ?thesis by (intro keep) (simp_all add: sub_quiet_def lanes_same_def)
  next
    case (sub_spawn j b)
    with inv sent dir d show ?thesis
      by (simp add: order_inv_def lane_starts_def direct_starts_def)
  next
    case (sub_push i res)
    have li: "lanes_inv (q_ops E) k (lane_queue p)" using wf by (simp add: rlxd_wf_def)
    then have i: "i < length (lane_sent (lane_queue p))" using sub_push(3) by (simp add: lanes_inv_def)
    from lane_push_effect [OF C S li sub_push(3), of "fst (submissions p ! r)"] sub_push(7)
    consider "res = Inr ()" "lane_received (lane_queue q) = lane_received (lane_queue p)"
        "lane_sent (lane_queue q) = (lane_sent (lane_queue p))
           [i := lane_sent (lane_queue p) ! i @ [sub_core (submissions p ! r)]]"
      | "res = Inl QueueSendChannelClosed" "lane_received (lane_queue q) = lane_received (lane_queue p)"
        "lane_sent (lane_queue q) = lane_sent (lane_queue p)" by auto
    then show ?thesis
    proof cases
      case 1
      then show ?thesis
        using inv sent dir d sub_push mset_concat_update_append [OF i, of "[sub_core (submissions p ! r)]"]
        by (simp add: order_inv_def lane_starts_def direct_starts_def)
    next
      case 2
      then show ?thesis using sub_push by (intro keep) simp_all
    qed
  qed (intro keep; simp)+
qed

lemma order_lane:
  assumes C: "chan_laws (q_ops E)" and S: "sem_laws (s_ops E)" and wf: "rlxd_wf E k p" and inv: "order_inv p"
    and f: "lane_frame i pc pc' p q" and e: "lane_effect E i p q pc pc'"
  shows "order_inv q"
proof -
  have s: "submissions q = submissions p" and l: "length (dispatchers q) = length (dispatchers p)"
    and d: "dispatchers q = (dispatchers p)[i := pc']" "pc = dispatchers p ! i" and i: "i < k" "i < length (dispatchers p)"
    using f wf by (auto simp: lane_frame_def rlxd_wf_def)
  have li: "lanes_inv (q_ops E) k (lane_queue p)" using wf by (simp add: rlxd_wf_def)
  then have lr: "length (lane_received (lane_queue p)) = k" by (simp add: lanes_inv_def)
  have keep: "spawned q = spawned p \<Longrightarrow> lane_sent (lane_queue q) = lane_sent (lane_queue p) \<Longrightarrow>
      lane_received (lane_queue q) = lane_received (lane_queue p) \<Longrightarrow>
      lane_cores pc' = lane_cores pc \<or> lane_cores pc' = [] \<Longrightarrow> ?thesis"
    by (rule order_keep [OF inv s _ l])
      (auto simp: direct_starts_def lane_starts_def d nth_upd dest: subseq_drop_last)
  from e show ?thesis
  proof cases
    case lane_quiet
    then show ?thesis by (intro keep) (auto simp: lane_quiet_def)
  next
    case (lane_recv x)
    note eff = lane_recv_effect [OF C li i(1) lane_recv(2)]
    show ?thesis
    proof (cases x)
      case (RecvOk t)
      with eff lane_recv d i lr show ?thesis
        by (intro order_keep [OF inv s _ l])
          (auto simp: direct_starts_def lane_starts_def nth_upd intro: list_emb_append_mono)
    qed (use eff lane_recv in \<open>auto intro!: keep\<close>)
  next
    case (lane_take t)
    then show ?thesis by (intro keep) (auto simp: lane_release_def)
  next
    case (lane_spawn t b)
    have "lane_cores (dispatchers p ! i) = [mt_core t]" by (simp add: lane_spawn(1) flip: d(2))
    with lane_spawn d i show ?thesis
      by (intro order_keep [OF inv s _ l]) (auto simp: direct_starts_def lane_starts_def nth_upd)
  next
    case (lane_exit rs)
    have h: "lane_cores (dispatchers p ! i) = []" using d lane_exit by simp
    note eff = lane_drop_receiver_effect [OF C S li i(1) lane_exit(3)]
    have "subseq (lane_starts p j @ in_hand_of p j) (lane_received (lane_queue p) ! j) \<Longrightarrow>
        subseq (lane_starts q j @ in_hand_of q j) (lane_received (lane_queue q) ! j)" for j
      using eff d i lr h lane_exit by (cases "i = j") (simp_all add: lane_starts_def subseq_rev_drop_many)
    with eff lane_exit show ?thesis
      by (intro order_keep [OF inv s _ l]) (simp_all add: direct_starts_def)
  qed (auto intro!: keep)
qed

lemma lane_order_step:
  assumes L: "lawful E" and wf: "rlxd_wf E k p" and inv: "order_inv p" and st: "rlxd_step E e p = Some q"
  shows "order_inv q"
proof -
  have C: "chan_laws (q_ops E)" and S: "sem_laws (s_ops E)" using L by (auto simp: lawful_def)
  from L wf st show ?thesis
  proof (cases rule: rlxd_step_cases)
    case quiet
    then show ?thesis
      by (intro order_keep [OF inv]) (auto simp: quiet_def lanes_same_def direct_starts_def lane_starts_def)
  next
    case (new ls f)
    with inv show ?thesis
      by (simp add: order_inv_def fresh_submission_def direct_starts_def lane_starts_def)
  next
    case (sub r pc pc')
    then show ?thesis by (rule order_sub [OF C S wf inv])
  next
    case (lane i pc pc')
    then show ?thesis by (rule order_lane [OF C S wf inv])
  next
    case (run i t)
    with run_frame_starts [OF run(1)] show ?thesis
      by (intro order_keep [OF inv]) (auto simp: run_frame_def)
  qed
qed

lemma lane_order_new: "order_inv (rlxd_new E limit cap n name)"
  by (auto simp: order_inv_def rlxd_new_def Let_def lanes_new_def direct_starts_def lane_starts_def)

interpretation rlxd_order: relative_invariant "\<lambda>p. p = rlxd_new E limit cap n name" "rlxd_step E"
    "\<lambda>p. lawful E \<longrightarrow> order_inv p" for E limit cap n name
  by unfold_locales (use lane_order_new lane_order_step rlxd_pool_wf in blast)+

lemma rlxd_pool_order: "lawful E \<Longrightarrow> rlxd_reach E limit cap n name p \<Longrightarrow> order_inv p"
  using rlxd_order.reach_inv by blast

end
