(* ===== verification/RlxdPlaces.thy ===== *)
theory RlxdPlaces
  imports RlxdOrder
begin

text \<open>
  No task of the relaxed pool is in two places: the spawned tasks, the tasks in the dispatchers'
  hands and those of unsettled submissions are different. So a core is marked finished exactly
  by the end of its own task.
\<close>

section \<open>No task in two places\<close>

lemma mset_concat_groups:
  "mset (concat (map (\<lambda>i. filter (\<lambda>x. f x = i) xs) [0..<k])) = mset (filter (\<lambda>x. f x < (k :: nat)) xs)"
proof (induction k)
  case 0
  then show ?case by simp
next
  case (Suc k)
  have "mset (filter (\<lambda>x. f x < Suc k) xs) = mset (filter (\<lambda>x. f x < k) xs) + mset (filter (\<lambda>x. f x = k) xs)"
    by (induction xs) auto
  with Suc show ?case by simp
qed

lemma mset_concat_mono:
  "(\<And>i. i < (k :: nat) \<Longrightarrow> mset (f i) \<subseteq># mset (g i)) \<Longrightarrow>
     mset (concat (map f [0..<k])) \<subseteq># mset (concat (map g [0..<k]))"
  by (induction k) (auto intro: subset_mset.add_mono)

lemma subseq_mset: "subseq xs ys \<Longrightarrow> mset xs \<subseteq># mset ys"
  by (induction rule: list_emb.induct) (auto intro: subset_mset.order_trans)

lemma distinct_submset: "mset xs \<subseteq># mset ys \<Longrightarrow> distinct ys \<Longrightarrow> distinct xs"
  unfolding distinct_count_atmost_1
  by (metis count_mset_0_iff le_zero_eq less_one mset_subset_eq_count nat_less_le set_mset_mset subset_mset.antisym_conv)

lemma mset_three_parts:
  "(\<And>x. P x \<Longrightarrow> \<not> Q x) \<Longrightarrow>
     mset (map f (filter P xs)) + mset (map f (filter Q xs)) + mset (map f (filter (\<lambda>x. \<not> Q x \<and> \<not> P x) xs)) =
     mset (map f xs)"
  by (induction xs) auto

lemma mset_places:
  assumes "s + h = d + g" "g + i \<subseteq># (t :: 'a multiset)"
  shows "s + h + u + i \<subseteq># d + t + u"
proof -
  have "s + h + u + i = d + (g + i) + u" unfolding assms(1) by (simp add: ac_simps)
  also have "\<dots> \<subseteq># d + t + u" using assms(2) by simp
  finally show ?thesis .
qed

abbreviation unsettled :: "submit_pc \<Rightarrow> bool" where
  "unsettled pc \<equiv> \<not> sub_sent pc \<and> pc \<noteq> SubDirect"

definition in_hands :: "('r, 'n, 's, 'q, 'c, 'o, 'h) rlxd \<Rightarrow> core_ref list" where
  "in_hands p = concat (map (in_hand_of p) [0..<length (dispatchers p)])"

definition located :: "('r, 'n, 's, 'q, 'c, 'o, 'h) rlxd \<Rightarrow> core_ref list" where
  "located p = map rt_core (spawned p) @ in_hands p @
     map sub_core (filter (\<lambda>s. unsettled (snd s)) (submissions p))"

text \<open>With the tasks still in the lanes.\<close>

definition places :: "('r, 'n, 's, 'q, 'c, 'o, 'h) env \<Rightarrow> ('r, 'n, 's, 'q, 'c, 'o, 'h) rlxd \<Rightarrow> core_ref list" where
  "places E p = located p @ concat (lane_items (q_ops E) (lane_queue p))"

lemma places_submset:
  assumes wf: "rlxd_wf E k p" and ord: "order_inv p"
  shows "mset (places E p) \<subseteq># mset (map sub_core (submissions p))"
proof -
  let ?lq = "lane_queue p" and ?s = "submissions p"
  let ?in = "\<lambda>P. mset (map sub_core (filter (\<lambda>s. P (snd s)) ?s))"
  have k: "length (dispatchers p) = k" "length (lane_sent ?lq) = k" "length (lane_received ?lq) = k"
    and li: "lanes_inv (q_ops E) k ?lq" and sh: "\<forall>t \<in> set (spawned p). rt_shard t < k"
    using wf by (auto simp: rlxd_wf_def lanes_inv_def)
  let ?q = "filter (\<lambda>t. \<not> rt_direct t) (spawned p)"
  have "filter (\<lambda>t. rt_shard t < k) ?q = ?q" by (rule filter_True) (use sh in auto)
  then have "mset ?q = mset (concat (map (\<lambda>i. filter (\<lambda>t. rt_shard t = i) ?q) [0..<k]))"
    using mset_concat_groups [of rt_shard ?q k] by simp
  from arg_cong [OF this, of "image_mset rt_core"]
  have "mset (map rt_core ?q) = mset (map rt_core (concat (map (\<lambda>i. filter (\<lambda>t. rt_shard t = i) ?q) [0..<k])))"
    unfolding mset_map .
  also have "map rt_core (concat (map (\<lambda>i. filter (\<lambda>t. rt_shard t = i) ?q) [0..<k])) =
      concat (map (lane_starts p) [0..<k])"
    by (simp add: lane_starts_def [abs_def] map_concat comp_def)
  finally have "mset (map rt_core ?q) = mset (concat (map (lane_starts p) [0..<k]))" .
  moreover have "mset (map rt_core (spawned p)) = mset (direct_starts p) + mset (map rt_core ?q)"
    by (simp add: direct_starts_def flip: image_mset_union)
  moreover have "mset (concat (map (\<lambda>i. lane_starts p i @ in_hand_of p i) [0..<k])) =
      mset (concat (map (lane_starts p) [0..<k])) + mset (in_hands p)"
    unfolding in_hands_def k by (induction k) auto
  ultimately have sp: "mset (map rt_core (spawned p)) + mset (in_hands p) =
      mset (direct_starts p) + mset (concat (map (\<lambda>i. lane_starts p i @ in_hand_of p i) [0..<k]))"
    by (simp add: ac_simps)
  let ?items = "lane_items (q_ops E) ?lq"
  have it: "length ?items = k" using li by (simp add: lanes_inv_def)
  have "mset ((lane_starts p i @ in_hand_of p i) @ ?items ! i) \<subseteq># mset (lane_sent ?lq ! i)" if "i < k" for i
  proof -
    have "subseq (lane_starts p i @ in_hand_of p i) (lane_received ?lq ! i)"
      using ord that k by (simp add: order_inv_def)
    then have "subseq ((lane_starts p i @ in_hand_of p i) @ ?items ! i) (lane_sent ?lq ! i)"
      using li that by (simp add: lanes_inv_def list_emb_append_mono del: append_assoc)
    then show ?thesis by (rule subseq_mset)
  qed
  then have "mset (concat (map (\<lambda>i. (lane_starts p i @ in_hand_of p i) @ ?items ! i) [0..<k])) \<subseteq>#
      mset (concat (map (\<lambda>i. lane_sent ?lq ! i) [0..<k]))"
    by (rule mset_concat_mono)
  also have "map (\<lambda>i. lane_sent ?lq ! i) [0..<k] = lane_sent ?lq" using k map_nth [of "lane_sent ?lq"] by simp
  also have "mset (concat (map (\<lambda>i. (lane_starts p i @ in_hand_of p i) @ ?items ! i) [0..<k])) =
      mset (concat (map (\<lambda>i. lane_starts p i @ in_hand_of p i) [0..<k])) + mset (concat (map (\<lambda>i. ?items ! i) [0..<k]))"
    by (induction k) auto
  also have "map (\<lambda>i. ?items ! i) [0..<k] = ?items" using it map_nth [of ?items] by simp
  finally have "mset (concat (map (\<lambda>i. lane_starts p i @ in_hand_of p i) [0..<k])) + mset (concat ?items) \<subseteq>#
      ?in (\<lambda>x. sub_sent x)"
    using ord by (simp add: order_inv_def)
  from mset_places [OF sp this, of "?in (\<lambda>x. unsettled x)"]
  have "mset (places E p) \<subseteq># ?in (\<lambda>x. x = SubDirect) + ?in (\<lambda>x. sub_sent x) + ?in (\<lambda>x. unsettled x)"
    using ord by (simp add: places_def located_def order_inv_def add.assoc)
  also have "\<dots> = mset (map sub_core ?s)"
    by (rule mset_three_parts) auto
  finally show ?thesis .
qed

lemma places_distinct:
  assumes wf: "rlxd_wf E k p" and ord: "order_inv p" and addr: "rlxd_addresses p"
  shows "distinct (places E p)" "\<forall>r \<in> set (places E p). r < length (cores p)"
proof -
  have a: "map sub_core (submissions p) = [0..<length (cores p)]"
    using addr by (simp add: rlxd_addresses_def comp_def)
  have m: "mset (places E p) \<subseteq># mset [0..<length (cores p)]"
    using places_submset [OF wf ord] unfolding a .
  then show "distinct (places E p)" by (rule distinct_submset) simp
  show "\<forall>r \<in> set (places E p). r < length (cores p)"
    using set_mset_mono [OF m] by auto
qed

lemma located_distinct:
  assumes "rlxd_wf E k p" "order_inv p" "rlxd_addresses p"
  shows "distinct (located p)" "\<forall>r \<in> set (located p). r < length (cores p)"
  using places_distinct [OF assms] by (simp_all add: places_def)

section \<open>Finished tasks\<close>

lemma distinct_settled:
  assumes ord: "order_inv p" and addr: "rlxd_addresses p"
  shows "distinct (direct_starts p @ concat (lane_sent (lane_queue p)))"
proof (rule distinct_submset)
  let ?s = "submissions p"
  have "mset (direct_starts p @ concat (lane_sent (lane_queue p))) =
      mset (map sub_core (filter (\<lambda>s. snd s = SubDirect) ?s)) + mset (map sub_core (filter (\<lambda>s. sub_sent (snd s)) ?s))"
    using ord by (simp add: order_inv_def)
  also have "\<dots> \<subseteq># mset (map sub_core ?s)"
    by (subst mset_three_parts [of "\<lambda>s. snd s = SubDirect" "\<lambda>s. sub_sent (snd s)" sub_core ?s, symmetric])
      simp_all
  also have "map sub_core ?s = [0..<length (cores p)]" using addr by (simp add: rlxd_addresses_def comp_def)
  finally show "mset (direct_starts p @ concat (lane_sent (lane_queue p))) \<subseteq># mset [0..<length (cores p)]" .
qed simp

definition core_finished :: "('r, 'n, 's, 'q, 'c, 'o, 'h) rlxd \<Rightarrow> core_ref \<Rightarrow> bool" where
  "core_finished p r \<longleftrightarrow> core_is_finished (cores p ! r)"

definition task_over :: "('r, 'n, 's, 'q, 'c, 'o, 'h) rlxd \<Rightarrow> core_ref \<Rightarrow> bool" where
  "task_over p r \<longleftrightarrow> (\<exists>t \<in> set (spawned p). rt_core t = r \<and> run_finished t)"

definition finished_inv :: "('r, 'n, 's, 'q, 'c, 'o, 'h) rlxd \<Rightarrow> bool" where
  "finished_inv p \<longleftrightarrow> (\<forall>r < length (cores p). core_finished p r = task_over p r)"

lemma located_spawned: "t \<in> set (spawned p) \<Longrightarrow> rt_core t \<in> set (located p)"
  by (simp add: located_def)

lemma finished_keep:
  assumes "finished_inv p" "length (cores q) = length (cores p)"
    and "\<And>r. r < length (cores p) \<Longrightarrow> core_finished q r = core_finished p r"
    and "\<And>r. task_over q r = task_over p r"
  shows "finished_inv q"
  using assms by (simp add: finished_inv_def)

lemma sub_effect_over: "sub_effect E k t p q pc pc' \<Longrightarrow> task_over q r = task_over p r"
  by (erule sub_effect.cases) (simp_all add: task_over_def run_finished_def)

lemma lane_effect_over: "lane_effect E i p q pc pc' \<Longrightarrow> task_over q r = task_over p r"
  by (erule lane_effect.cases) (auto simp: task_over_def run_finished_def)

lemma task_over_run:
  assumes dist: "distinct (located p)" and f: "run_frame i t p q"
  shows "task_over q r = (if r = rt_core (spawned p ! i) then run_finished t else task_over p r)"
    and "task_over p (rt_core (spawned p ! i)) = run_finished (spawned p ! i)"
proof -
  let ?t = "spawned p ! i"
  have i: "i < length (spawned p)" and q: "spawned q = (spawned p)[i := t]" and c: "rt_core t = rt_core ?t"
    using f by (auto simp: run_frame_def)
  have d: "distinct (map rt_core (spawned p))" using dist by (simp add: located_def)
  have "task_over q r \<longleftrightarrow>
      (\<exists>j < length (spawned p). rt_core (spawned p ! j) = r \<and> run_finished (if i = j then t else spawned p ! j))"
    using c by (auto simp: task_over_def q in_set_conv_nth nth_upd Bex_def) (metis nth_upd)+
  moreover have "j < length (spawned p) \<Longrightarrow> rt_core (spawned p ! j) = rt_core ?t \<Longrightarrow> j = i" for j
    using d i by (simp add: distinct_conv_nth) metis
  ultimately show "task_over q r = (if r = rt_core ?t then run_finished t else task_over p r)"
    using i by (auto simp: task_over_def in_set_conv_nth Bex_def)
  show "task_over p (rt_core ?t) = run_finished ?t"
    using d nth_mem [OF i] by (auto simp: task_over_def distinct_map simp del: nth_mem dest: inj_onD)
qed

lemma finished_run:
  assumes addr: "\<forall>r \<in> set (located p). r < length (cores p)" and dist: "distinct (located p)"
    and inv: "finished_inv p"
    and f: "run_frame i t p q" and e: "run_effect E (spawned p ! i) p q (rt_pc (spawned p ! i)) (rt_pc t)"
  shows "finished_inv q"
proof -
  let ?t = "spawned p ! i"
  have i: "i < length (spawned p)" using f by (simp add: run_frame_def)
  note over = task_over_run [OF dist f]
  have r: "rt_core ?t < length (cores p)" using addr i located_spawned [of ?t p] by simp
  have keep: "cores q = cores p \<Longrightarrow> run_finished t = run_finished ?t \<Longrightarrow> finished_inv q"
    using over by (intro finished_keep [OF inv]) (auto simp: core_finished_def)
  from e show ?thesis
  proof cases
    case run_mark
    then have "run_finished t" by (simp add: run_finished_def)
    with run_mark inv over r show ?thesis
      by (auto simp: finished_inv_def core_finished_def)
  qed (auto intro: keep simp: run_finished_def)
qed

lemma finished_step:
  assumes L: "lawful E" and wf: "rlxd_wf E k p" and ord: "order_inv p" and addr: "rlxd_addresses p"
    and inv: "finished_inv p" and st: "rlxd_step E e p = Some q"
  shows "finished_inv q"
  using L wf st
proof (cases rule: rlxd_step_cases)
  case quiet
  then show ?thesis
    by (intro finished_keep [OF inv]) (auto simp: quiet_def cores_kept_def core_finished_def task_over_def)
next
  case (new ls f)
  have "\<forall>t \<in> set (spawned p). rt_core t \<noteq> length (cores p)"
    using located_distinct(2) [OF wf ord addr] located_spawned [of _ p] by fastforce
  with new inv show ?thesis
    by (auto simp: finished_inv_def fresh_submission_def core_finished_def task_over_def nth_append less_Suc_eq)
next
  case (sub r pc pc')
  have c: "cores q = cores p" using sub(1) by (simp add: sub_frame_def)
  show ?thesis
    by (rule finished_keep [OF inv]) (simp_all add: c core_finished_def sub_effect_over [OF sub(2)])
next
  case (lane i pc pc')
  have c: "cores q = cores p" using lane(1) by (simp add: lane_frame_def)
  show ?thesis
    by (rule finished_keep [OF inv]) (simp_all add: c core_finished_def lane_effect_over [OF lane(2)])
next
  case (run i t)
  then show ?thesis by (rule finished_run [OF located_distinct(2,1) [OF wf ord addr] inv])
qed

lemma finished_new: "finished_inv (rlxd_new E limit cap n name)"
  by (simp add: finished_inv_def rlxd_new_def Let_def)

interpretation rlxd_finished: relative_invariant "\<lambda>p. p = rlxd_new E limit cap n name" "rlxd_step E"
    "\<lambda>p. lawful E \<longrightarrow> finished_inv p" for E limit cap n name
proof unfold_locales
  show "p = rlxd_new E limit cap n name \<Longrightarrow> lawful E \<longrightarrow> finished_inv p" for p
    using finished_new by blast
  show "rlxd_reach E limit cap n name p \<Longrightarrow> lawful E \<longrightarrow> finished_inv p \<Longrightarrow> rlxd_step E e p = Some q \<Longrightarrow>
      lawful E \<longrightarrow> finished_inv q" for p e q
    using finished_step [OF _ rlxd_pool_wf rlxd_pool_order rlxd_pool_addresses] by blast
qed

lemma rlxd_pool_finished: "lawful E \<Longrightarrow> rlxd_reach E limit cap n name p \<Longrightarrow> finished_inv p"
  using rlxd_finished.reach_inv by blast

text \<open>The task of an unsettled submission and the task in a dispatcher's hands are not over.\<close>

lemma sub_core_nth: "rlxd_addresses p \<Longrightarrow> r < length (submissions p) \<Longrightarrow> sub_core (submissions p ! r) = r \<and> r < length (cores p)"
proof -
  assume "rlxd_addresses p" and r: "r < length (submissions p)"
  then have m: "map sub_core (submissions p) = [0..<length (cores p)]" by (simp add: rlxd_addresses_def comp_def)
  then have "length (submissions p) = length (cores p)" by (metis length_map length_upt minus_nat.diff_0)
  with r arg_cong [OF m, of "\<lambda>xs. xs ! r"] show ?thesis by simp
qed

lemma distinct_append3:
  "distinct (xs @ ys @ zs) \<Longrightarrow> x \<in> set xs \<Longrightarrow> x \<notin> set ys \<and> x \<notin> set zs"
  by auto

lemma over_spawned: "task_over p r \<Longrightarrow> r \<in> set (map rt_core (spawned p))"
  by (auto simp: task_over_def)

lemma over_elsewhere:
  "distinct (located p) \<Longrightarrow> task_over p r \<Longrightarrow>
     r \<notin> set (in_hands p) \<and> r \<notin> set (map sub_core (filter (\<lambda>s. unsettled (snd s)) (submissions p)))"
  unfolding located_def by (erule distinct_append3) (erule over_spawned)

lemma not_over_sub:
  assumes dist: "distinct (located p)" and addr: "rlxd_addresses p"
    and r: "r < length (submissions p)" "unsettled (snd (submissions p ! r))"
  shows "\<not> task_over p r"
proof
  assume over: "task_over p r"
  have "submissions p ! r \<in> set (filter (\<lambda>s. unsettled (snd s)) (submissions p))" using r by simp
  then have "sub_core (submissions p ! r) \<in> set (map sub_core (filter (\<lambda>s. unsettled (snd s)) (submissions p)))"
    unfolding set_map by (rule imageI)
  then have "r \<in> set (map sub_core (filter (\<lambda>s. unsettled (snd s)) (submissions p)))"
    unfolding sub_core_nth [OF addr r(1), THEN conjunct1] .
  with over_elsewhere [OF dist over] show False by (elim conjE) (erule (1) notE)
qed

lemma hand_located:
  "i < length (dispatchers p) \<Longrightarrow> t \<in> set (lane_hand (dispatchers p ! i)) \<Longrightarrow> mt_core t \<in> set (in_hands p)"
  using lane_hand_cores by (fastforce simp: in_hands_def)

lemma not_over_hand:
  assumes dist: "distinct (located p)" and i: "i < length (dispatchers p)" "t \<in> set (lane_hand (dispatchers p ! i))"
  shows "\<not> task_over p (mt_core t)"
proof
  assume "task_over p (mt_core t)"
  from over_elsewhere [OF dist this] hand_located [OF i] show False by (elim conjE) (erule (1) notE)
qed

end
