(* ===== verification/RlxdShards.thy ===== *)
theory RlxdShards
  imports RlxdPlaces
begin

text \<open>
  The contents of the registry of the relaxed pool: what a shard lists are the tasks placed there
  that have not finished. So a sweep over the shards reaches every running task.
\<close>

section \<open>The contents of the shards\<close>

text \<open>Task \<open>r\<close> has been stored in shard \<open>j\<close>, by its dispatcher or by a direct dispatch.\<close>

definition placed :: "('r, 'n, 's, 'q, 'c, 'o, 'h) rlxd \<Rightarrow> nat \<Rightarrow> core_ref \<Rightarrow> bool" where
  "placed p j r \<longleftrightarrow>
     r \<in> lane_stored (dispatchers p ! j) \<or>
     (r < length (submissions p) \<and> snd (submissions p ! r) = SubSpawn j) \<or>
     (\<exists>t \<in> set (spawned p). rt_core t = r \<and> rt_shard t = j)"

definition shards_inv :: "('r, 'n, 's, 'q, 'c, 'o, 'h) rlxd \<Rightarrow> bool" where
  "shards_inv p \<longleftrightarrow>
     (\<forall>j < length (shards p).
        (\<forall>r \<in> ran (slot_map (entries (shards p ! j))). r < length (cores p)) \<and>
        (\<forall>r. r \<in> live (cores p) (entries (shards p ! j)) \<longleftrightarrow> placed p j r \<and> \<not> core_finished p r))"

lemma placed_core:
  assumes "\<forall>r \<in> set (located p). r < length (cores p)" "rlxd_addresses p" "j < length (dispatchers p)" "placed p j r"
  shows "r < length (cores p)"
proof -
  from assms(4) consider "r \<in> lane_stored (dispatchers p ! j)"
    | "r < length (submissions p)" | t where "t \<in> set (spawned p)" "rt_core t = r"
    unfolding placed_def by blast
  then show ?thesis
  proof cases
    case 1
    then obtain t where "t \<in> set (lane_hand (dispatchers p ! j))" "mt_core t = r"
      by (cases "dispatchers p ! j") auto
    with hand_located [OF assms(3)] assms(1) show ?thesis by (auto simp: located_def)
  next
    case 2
    with sub_core_nth [OF assms(2)] show ?thesis by blast
  next
    case (3 t)
    with assms(1) located_spawned [of t p] show ?thesis by simp
  qed
qed

lemma deferred_store_ran:
  assumes "slots_wf (entries d)" "deferred_store h r d = Inr d'"
  shows "ran (slot_map (entries d')) \<subseteq> insert r (ran (slot_map (entries d)))"
proof -
  let ?a = "if free (entries d) = [] then sweep_finished h (entries d) else entries d"
  have wf: "slots_wf ?a" using assms(1) by (simp add: sweep_finished_spec)
  have "ran (slot_map ?a) \<subseteq> ran (slot_map (entries d))"
    by (auto simp: ran_def sweep_finished_spec(2) [OF assms(1)] split: option.splits if_splits)
  moreover from slots_insert_spec [OF wf, of r] obtain i a' where
    "slots_insert r ?a = Inr (i, a')" "slot_map a' = (slot_map ?a)(i \<mapsto> r)" by blast
  moreover then have "entries d' = a'" using assms(2) by (auto simp: deferred_store_def Let_def)
  ultimately show ?thesis by (auto simp: ran_def split: if_splits)
qed

lemma live_same:
  assumes "\<forall>r \<in> ran (slot_map a). core_is_finished (h' ! r) = core_is_finished (h ! r)"
  shows "live h' a = live h a"
  using assms by (auto simp: live_def)

lemma shards_keep:
  assumes inv: "shards_inv p" and pc: "\<And>j r. j < length (shards p) \<Longrightarrow> placed p j r \<Longrightarrow> r < length (cores p)"
    and len: "length (shards q) = length (shards p)" "length (cores p) \<le> length (cores q)"
    and fin: "\<And>r. r < length (cores p) \<Longrightarrow> core_finished q r = core_finished p r"
    and ent: "\<And>j. j < length (shards p) \<Longrightarrow> entries (shards q ! j) = entries (shards p ! j)"
    and pl: "\<And>j r. j < length (shards p) \<Longrightarrow> placed q j r = placed p j r"
  shows "shards_inv q"
  unfolding shards_inv_def
proof (intro allI impI conjI)
  fix j assume "j < length (shards q)"
  then have j: "j < length (shards p)" by (simp add: len)
  let ?a = "entries (shards p ! j)"
  have ran: "\<forall>r \<in> ran (slot_map ?a). r < length (cores p)" using inv j by (simp add: shards_inv_def)
  then show "\<forall>r \<in> ran (slot_map (entries (shards q ! j))). r < length (cores q)"
    using len(2) by (auto simp: ent [OF j] intro: less_le_trans)
  have "live (cores q) ?a = live (cores p) ?a"
    by (rule live_same) (use ran fin in \<open>simp add: core_finished_def\<close>)
  then have "r \<in> live (cores q) (entries (shards q ! j)) \<longleftrightarrow> placed p j r \<and> \<not> core_finished p r" for r
    using inv j by (simp add: shards_inv_def ent [OF j])
  then show "r \<in> live (cores q) (entries (shards q ! j)) \<longleftrightarrow> placed q j r \<and> \<not> core_finished q r" for r
    using pc [OF j] fin pl [OF j] by blast
qed

lemma shards_store:
  assumes inv: "shards_inv p" and i: "i < length (shards p)" and wf: "slots_wf (entries (shards p ! i))"
    and st: "deferred_store (cores p) x (shards p ! i) = Inr d" and sh: "shards q = (shards p)[i := d]"
    and c: "cores q = cores p" and x: "x < length (cores p)" "\<not> core_finished p x"
    and pl: "\<And>j r. j < length (shards p) \<Longrightarrow> placed q j r \<longleftrightarrow> placed p j r \<or> i = j \<and> r = x"
  shows "shards_inv q"
  unfolding shards_inv_def
proof (intro allI impI conjI)
  fix j assume "j < length (shards q)"
  then have j: "j < length (shards p)" by (simp add: sh)
  have fin: "core_finished q r = core_finished p r" for r by (simp add: core_finished_def c)
  have ran: "\<forall>r \<in> ran (slot_map (entries (shards p ! j))). r < length (cores p)"
    using inv j by (simp add: shards_inv_def)
  show "\<forall>r \<in> ran (slot_map (entries (shards q ! j))). r < length (cores q)"
    using ran deferred_store_ran [OF wf st] x(1) j by (cases "i = j") (auto simp: sh c)
  have lv: "r \<in> live (cores p) (entries (shards p ! j)) \<longleftrightarrow> placed p j r \<and> \<not> core_finished p r" for r
    using inv j by (simp add: shards_inv_def)
  have "live (cores p) (entries d) = insert x (live (cores p) (entries (shards p ! i)))"
    using deferred_store_spec [OF wf, of "cores p" x] x(2) st by (auto simp: core_finished_def)
  then have eq: "r \<in> live (cores q) (entries (shards q ! j)) \<longleftrightarrow>
      i = j \<and> r = x \<or> r \<in> live (cores p) (entries (shards p ! j))" for r
    using j by (cases "i = j") (auto simp: sh c)
  then show "r \<in> live (cores q) (entries (shards q ! j)) \<longleftrightarrow> placed q j r \<and> \<not> core_finished q r" for r
    using x(2) by (auto simp: eq lv pl [OF j] fin)
qed

lemma placed_sub:
  assumes f: "sub_frame k r0 pc pc' p q"
  shows "placed q j r \<longleftrightarrow>
    r \<in> lane_stored (dispatchers p ! j) \<or>
    (if r = r0 then pc' = SubSpawn j else r < length (submissions p) \<and> snd (submissions p ! r) = SubSpawn j) \<or>
    (\<exists>t \<in> set (spawned q). rt_core t = r \<and> rt_shard t = j)"
  using f by (auto simp: placed_def sub_frame_def nth_upd)

lemma placed_lane:
  assumes f: "lane_frame i pc pc' p q"
  shows "placed q j r \<longleftrightarrow>
    r \<in> lane_stored (if i = j then pc' else dispatchers p ! j) \<or>
    (r < length (submissions p) \<and> snd (submissions p ! r) = SubSpawn j) \<or>
    (\<exists>t \<in> set (spawned q). rt_core t = r \<and> rt_shard t = j)"
  using f by (auto simp: placed_def lane_frame_def nth_upd)

lemma placed_run:
  assumes f: "run_frame i t p q"
  shows "placed q j r = placed p j r"
proof -
  have "(\<exists>t \<in> set (spawned q). rt_core t = r \<and> rt_shard t = j) \<longleftrightarrow>
      (r, j) \<in> set (map (\<lambda>t. (rt_core t, rt_shard t)) (spawned q))" by auto
  also have "map (\<lambda>t. (rt_core t, rt_shard t)) (spawned q) = map (\<lambda>t. (rt_core t, rt_shard t)) (spawned p)"
    using f by (simp add: run_frame_def map_id_update)
  finally show ?thesis using f by (auto simp: placed_def run_frame_def)
qed

lemma shards_sub:
  assumes wf: "rlxd_wf E k p" and addr: "rlxd_addresses p" and fin: "finished_inv p"
    and dist: "distinct (located p)" and loc: "\<forall>r \<in> set (located p). r < length (cores p)"
    and inv: "shards_inv p" and f: "sub_frame k r pc pc' p q"
    and e: "sub_effect E k (fst (submissions p ! r)) p q pc pc'"
  shows "shards_inv q"
proof -
  have c: "cores q = cores p" and d: "dispatchers q = dispatchers p" and r: "r < length (submissions p)"
    and old: "pc = snd (submissions p ! r)" "\<not> sub_sent pc" "pc \<noteq> SubDirect"
    using f by (auto simp: sub_frame_def)
  have len: "length (dispatchers p) = length (shards p)" using wf by (simp add: rlxd_wf_def)
  have core: "sub_core (submissions p ! r) = r" "r < length (cores p)" using sub_core_nth [OF addr r] by auto
  have pc: "j < length (shards p) \<Longrightarrow> placed p j r' \<Longrightarrow> r' < length (cores p)" for j r'
    using placed_core [OF loc addr] len by simp
  have before: "placed p j r' \<longleftrightarrow> r' \<in> lane_stored (dispatchers p ! j) \<or>
      (if r' = r then pc = SubSpawn j else r' < length (submissions p) \<and> snd (submissions p ! r') = SubSpawn j) \<or>
      (\<exists>t \<in> set (spawned p). rt_core t = r' \<and> rt_shard t = j)" for j r'
    using r old(1) by (auto simp: placed_def)
  have keep: "length (shards q) = length (shards p) \<Longrightarrow>
      (\<And>j. j < length (shards p) \<Longrightarrow> entries (shards q ! j) = entries (shards p ! j)) \<Longrightarrow>
      (\<And>j r'. j < length (shards p) \<Longrightarrow> placed q j r' = placed p j r') \<Longrightarrow> shards_inv q"
    by (rule shards_keep [OF inv pc]) (simp_all add: c core_finished_def)
  note after = placed_sub [OF f]
  from e show ?thesis
  proof cases
    case sub_quiet
    then have "\<forall>j. pc \<noteq> SubSpawn j \<and> pc' \<noteq> SubSpawn j" by (simp add: sub_quiet_def)
    with sub_quiet show ?thesis by (intro keep) (simp_all add: after before)
  next
    case (sub_count j)
    then show ?thesis by (intro keep) (auto simp: after before nth_upd)
  next
    case (sub_store j x)
    have "\<not> task_over p r" using old by (intro not_over_sub [OF dist addr r]) simp_all
    then have nf: "\<not> core_finished p r" using fin core(2) by (simp add: finished_inv_def)
    have j: "j < length (shards p)" "slots_wf (entries (shards p ! j))"
      using wf sub_store(3) by (auto simp: rlxd_wf_def)
    have "placed q l r' \<longleftrightarrow> placed p l r' \<or> j = l \<and> r' = r" for l r'
      using sub_store(1,2) by (auto simp: after before sub_store(9))
    with shards_store [OF inv j(1) j(2) _ _ c core(2) nf, of x] sub_store(5,8) core(1) show ?thesis by simp
  next
    case (sub_spawn j b)
    have "placed q l r' = placed p l r'" for l r'
      using sub_spawn(1,2) core(1) by (auto simp: after before sub_spawn(7))
    with sub_spawn show ?thesis by (intro keep) simp_all
  qed (auto intro!: keep simp: after before)
qed

lemma shards_lane:
  assumes wf: "rlxd_wf E k p" and addr: "rlxd_addresses p" and fin: "finished_inv p"
    and dist: "distinct (located p)" and loc: "\<forall>r \<in> set (located p). r < length (cores p)"
    and inv: "shards_inv p" and f: "lane_frame i pc pc' p q" and e: "lane_effect E i p q pc pc'"
  shows "shards_inv q"
proof -
  have c: "cores q = cores p" and i: "i < length (dispatchers p)" and old: "pc = dispatchers p ! i"
    using f by (auto simp: lane_frame_def)
  have len: "length (dispatchers p) = length (shards p)" using wf by (simp add: rlxd_wf_def)
  have pc: "j < length (shards p) \<Longrightarrow> placed p j r' \<Longrightarrow> r' < length (cores p)" for j r'
    using placed_core [OF loc addr] len by simp
  have before: "placed p j r' \<longleftrightarrow> r' \<in> lane_stored (if i = j then pc else dispatchers p ! j) \<or>
      (r' < length (submissions p) \<and> snd (submissions p ! r') = SubSpawn j) \<or>
      (\<exists>t \<in> set (spawned p). rt_core t = r' \<and> rt_shard t = j)" for j r'
    using old by (auto simp: placed_def)
  have keep: "length (shards q) = length (shards p) \<Longrightarrow>
      (\<And>j. j < length (shards p) \<Longrightarrow> entries (shards q ! j) = entries (shards p ! j)) \<Longrightarrow>
      (\<And>j r'. j < length (shards p) \<Longrightarrow> placed q j r' = placed p j r') \<Longrightarrow> shards_inv q"
    by (rule shards_keep [OF inv pc]) (simp_all add: c core_finished_def)
  note after = placed_lane [OF f]
  from e show ?thesis
  proof cases
    case lane_quiet
    then have "lane_stored pc = {}" "lane_stored pc' = {}" by (simp_all add: lane_quiet_def)
    with lane_quiet show ?thesis by (intro keep) (simp_all add: after before)
  next
    case (lane_recv x)
    then have "lane_stored pc = {}" "lane_stored pc' = {}" by (auto split: recv.splits)
    with lane_recv show ?thesis by (intro keep) (simp_all add: after before)
  next
    case (lane_take t)
    then have "lane_stored pc = {}" "lane_stored pc' = {}" by auto
    with lane_take show ?thesis by (intro keep) (simp_all add: after before)
  next
    case (lane_count t)
    then show ?thesis by (intro keep) (auto simp: after before nth_upd)
  next
    case (lane_store t x)
    have t: "t \<in> set (lane_hand (dispatchers p ! i))" by (simp add: lane_store(1) flip: old)
    have nt: "\<not> task_over p (mt_core t)" by (rule not_over_hand [OF dist i t])
    have ct: "mt_core t < length (cores p)" using loc hand_located [OF i t] by (simp add: located_def)
    with nt have nf: "\<not> core_finished p (mt_core t)" using fin by (simp add: finished_inv_def)
    have j: "i < length (shards p)" "slots_wf (entries (shards p ! i))"
      using wf i len by (auto simp: rlxd_wf_def)
    have "placed q l r' \<longleftrightarrow> placed p l r' \<or> i = l \<and> r' = mt_core t" for l r'
      using lane_store(1,2) by (auto simp: after before lane_store(8))
    with shards_store [OF inv j(1) j(2) _ _ c ct nf, of x] lane_store(4,7) show ?thesis by simp
  next
    case (lane_spawn t b)
    have "placed q l r' = placed p l r'" for l r'
      using lane_spawn(1,2) by (auto simp: after before lane_spawn(6))
    with lane_spawn show ?thesis by (intro keep) simp_all
  qed (auto intro!: keep simp: after before)
qed

lemma shards_run:
  assumes wf: "rlxd_wf E k p" and addr: "rlxd_addresses p"
    and loc: "\<forall>r \<in> set (located p). r < length (cores p)" and inv: "shards_inv p"
    and f: "run_frame i t p q" and e: "run_effect E (spawned p ! i) p q (rt_pc (spawned p ! i)) (rt_pc t)"
  shows "shards_inv q"
proof -
  have len: "length (dispatchers p) = length (shards p)" using wf by (simp add: rlxd_wf_def)
  have pc: "j < length (shards p) \<Longrightarrow> placed p j r' \<Longrightarrow> r' < length (cores p)" for j r'
    using placed_core [OF loc addr] len by simp
  note after = placed_run [OF f]
  from e show ?thesis
  proof cases
    case run_mark
    let ?x = "rt_core (spawned p ! i)"
    have x: "?x < length (cores p)"
      using f loc located_spawned [of "spawned p ! i" p] by (simp add: run_frame_def)
    then have "core_finished q r \<longleftrightarrow> core_finished p r \<or> r = ?x" for r
      by (auto simp: core_finished_def run_mark heap_mark_finished_def nth_upd)
    with inv x show ?thesis
      by (auto simp: shards_inv_def run_mark live_mark after)
  next
    case run_finish
    have "entries (shards q ! j) = entries (shards p ! j)" if "j < length (shards p)" for j
      using that by (simp add: run_finish nth_upd)
    with run_finish show ?thesis
      by (intro shards_keep [OF inv pc]) (simp_all add: core_finished_def after)
  qed (rule shards_keep [OF inv pc]; simp add: core_finished_def after)+
qed

lemma shards_step:
  assumes L: "lawful E" and wf: "rlxd_wf E k p" and ord: "order_inv p" and addr: "rlxd_addresses p"
    and fin: "finished_inv p" and inv: "shards_inv p" and st: "rlxd_step E e p = Some q"
  shows "shards_inv q"
proof -
  note loc = located_distinct [OF wf ord addr]
  have len: "length (dispatchers p) = length (shards p)" using wf by (simp add: rlxd_wf_def)
  have pc: "j < length (shards p) \<Longrightarrow> placed p j r' \<Longrightarrow> r' < length (cores p)" for j r'
    using placed_core [OF loc(2) addr] len by simp
  from L wf st show ?thesis
  proof (cases rule: rlxd_step_cases)
    case quiet
    then show ?thesis
      by (intro shards_keep [OF inv pc]) (auto simp: quiet_def cores_kept_def core_finished_def placed_def)
  next
    case (new ls f)
    have "length (submissions p) = length (cores p)"
      using addr by (metis length_map length_upt minus_nat.diff_0 rlxd_addresses_def)
    with new show ?thesis
      by (intro shards_keep [OF inv pc])
        (auto simp: fresh_submission_def core_finished_def placed_def nth_append)
  next
    case (sub r pc pc')
    then show ?thesis by (rule shards_sub [OF wf addr fin loc inv])
  next
    case (lane i pc pc')
    then show ?thesis by (rule shards_lane [OF wf addr fin loc inv])
  next
    case (run i t)
    then show ?thesis by (rule shards_run [OF wf addr loc(2) inv])
  qed
qed

lemma shards_new: "shards_inv (rlxd_new E limit cap n name)"
  by (auto simp: shards_inv_def rlxd_new_def Let_def placed_def deferred_with_capacity_def live_def)

interpretation rlxd_shards: relative_invariant "\<lambda>p. p = rlxd_new E limit cap n name" "rlxd_step E"
    "\<lambda>p. lawful E \<longrightarrow> shards_inv p" for E limit cap n name
proof unfold_locales
  show "p = rlxd_new E limit cap n name \<Longrightarrow> lawful E \<longrightarrow> shards_inv p" for p
    using shards_new by blast
  show "rlxd_reach E limit cap n name p \<Longrightarrow> lawful E \<longrightarrow> shards_inv p \<Longrightarrow> rlxd_step E e p = Some q \<Longrightarrow>
      lawful E \<longrightarrow> shards_inv q" for p e q
    by (blast intro: shards_step rlxd_pool_wf rlxd_pool_order rlxd_pool_addresses rlxd_pool_finished)
qed

lemma rlxd_pool_shards: "lawful E \<Longrightarrow> rlxd_reach E limit cap n name p \<Longrightarrow> shards_inv p"
  using rlxd_shards.reach_inv by blast

end
