(* ===== verification/RlxdSweep.thy ===== *)
theory RlxdSweep
  imports RlxdShards
begin

text \<open>
  Sweeps of the relaxed pool: a cancellation by labels and the forceful part of \<open>shutdown\<close> read the
  shards one after another while the pool goes on. A task that is in a shard when the sweep
  starts is cancelled by its end, unless it has finished by then; nothing else is cancelled.
\<close>

section \<open>What never goes back\<close>

definition cores_grow :: "'n heap \<Rightarrow> 'n heap \<Rightarrow> bool" where
  "cores_grow h h' \<longleftrightarrow>
     length h \<le> length h' \<and>
     (\<forall>r < length h. task_id (h' ! r) = task_id (h ! r) \<and> labels (h' ! r) = labels (h ! r) \<and>
        (core_is_cancelled (h ! r) \<longrightarrow> core_is_cancelled (h' ! r)) \<and>
        (core_is_finished (h ! r) \<longrightarrow> core_is_finished (h' ! r)))"

lemma cores_grow_refl [simp]: "cores_grow h h"
  by (simp add: cores_grow_def)

lemma rlxd_step_cores:
  assumes L: "lawful E" and wf: "rlxd_wf E k p" and st: "rlxd_step E e p = Some q"
  shows "cores_grow (cores p) (cores q)"
  using L wf st
proof (cases rule: rlxd_step_cases)
  case quiet
  then show ?thesis by (auto simp: quiet_def cores_kept_def cores_grow_def)
next
  case (new ls f)
  then show ?thesis by (auto simp: fresh_submission_def cores_grow_def nth_append)
next
  case (run i t)
  from run_effect_cores [OF run(2)] show ?thesis by (auto simp: cores_grow_def)
qed (simp_all add: sub_frame_def lane_frame_def)

lemma placed_stays:
  assumes L: "lawful E" and wf: "rlxd_wf E k p" and addr: "rlxd_addresses p"
    and st: "rlxd_step E e p = Some q" and pl: "placed p j r"
  shows "placed q j r"
  using L wf st
proof (cases rule: rlxd_step_cases)
  case quiet
  with pl show ?thesis by (auto simp: quiet_def placed_def)
next
  case (new ls f)
  with pl show ?thesis by (auto simp: fresh_submission_def placed_def nth_append)
next
  case (sub s pc pc')
  note after = placed_sub [OF sub(1)]
  have s: "s < length (submissions p)" "pc = snd (submissions p ! s)" using sub(1) by (auto simp: sub_frame_def)
  have core: "sub_core (submissions p ! s) = s" by (rule sub_core_nth [OF addr s(1), THEN conjunct1])
  have before: "r \<in> lane_stored (dispatchers p ! j) \<or>
      (if r = s then pc = SubSpawn j else r < length (submissions p) \<and> snd (submissions p ! r) = SubSpawn j) \<or>
      (\<exists>t \<in> set (spawned p). rt_core t = r \<and> rt_shard t = j)"
    using pl s by (auto simp: placed_def)
  from sub(2) show ?thesis
  proof cases
    case sub_quiet
    with before show ?thesis by (simp add: after sub_quiet_def split: if_splits)
  next
    case (sub_spawn l b)
    with before core show ?thesis by (auto simp: after sub_spawn(7) split: if_splits)
  qed (use before in \<open>auto simp: after split: if_splits\<close>)
next
  case (lane i pc pc')
  note after = placed_lane [OF lane(1)]
  have d: "pc = dispatchers p ! i" using lane(1) by (simp add: lane_frame_def)
  have before: "r \<in> lane_stored (if i = j then pc else dispatchers p ! j) \<or>
      (r < length (submissions p) \<and> snd (submissions p ! r) = SubSpawn j) \<or>
      (\<exists>t \<in> set (spawned p). rt_core t = r \<and> rt_shard t = j)"
    using pl d by (auto simp: placed_def)
  from lane(2) show ?thesis
  proof cases
    case lane_quiet
    with before show ?thesis by (simp add: after lane_quiet_def split: if_splits)
  next
    case (lane_spawn t b)
    with before show ?thesis by (auto simp: after lane_spawn(6) split: if_splits)
  qed (use before in \<open>auto simp: after split: if_splits\<close>)
next
  case (run i t)
  with pl placed_run show ?thesis by blast
qed

text \<open>Submissions, dispatchers and tasks leave the other activities alone.\<close>

definition others_same :: "('r, 'n, 's, 'q, 'c, 'o, 'h) rlxd \<Rightarrow> ('r, 'n, 's, 'q, 'c, 'o, 'h) rlxd \<Rightarrow> bool" where
  "others_same p q \<longleftrightarrow>
     label_sweeps q = label_sweeps p \<and> stops q = stops p \<and> join_handles q = join_handles p \<and>
     drops q = drops p \<and> gauges q = gauges p \<and> shutdown_token q = shutdown_token p"

lemma submission_step_others: "submission_step E r p = Some q \<Longrightarrow> others_same p q"
  by (auto simp: submission_step_def rlxd_send_step_def others_same_def rlxd_set_defs shard_count_def shard_store_def
      split: if_splits submit_pc.splits option.splits prod.splits sum.splits)

lemma lane_step_others: "lane_step E i p = Some q \<Longrightarrow> others_same p q"
  by (auto simp: lane_step_def others_same_def rlxd_set_defs shard_count_def shard_store_def
      split: if_splits lane_pc.splits prod.splits sum.splits)

lemma run_step_others: "run_step E i p = Some q \<Longrightarrow> others_same p q"
  by (auto simp: run_step_def others_same_def rlxd_set_defs Let_def split: if_splits run_pc.splits)

lemma active_others:
  assumes "rlxd_step E e p = Some q" "active_event e"
  shows "others_same p q"
proof -
  from assms(2) consider ls f where "e = RSubmit ls f" | r where "e = RStepSubmit r" | r where "e = RAbandonSubmit r"
    | i where "e = RStepDispatcher i" | i where "e = RStepTask i" by (auto simp: active_event_def)
  then show ?thesis
  proof cases
    case (1 ls f)
    with assms show ?thesis
      by (auto simp: with_manager_def rlxd_submit_begin_def others_same_def Let_def split: if_splits)
  next
    case (3 r)
    with assms show ?thesis
      by (auto simp: submission_abandon_def others_same_def rlxd_set_defs split: if_splits)
  qed (use assms in \<open>auto intro: submission_step_others lane_step_others run_step_others\<close>)
qed

lemma rlxd_release_sink_others [simp]: "others_same p (rlxd_release_sink E p)"
  by (simp add: others_same_def)

section \<open>A sweep covers a task\<close>

text \<open>The task \<open>r\<close> of shard \<open>j\<close> is still ahead of the sweep, listed by it, or cancelled.\<close>

fun covers :: "sweep_pc \<Rightarrow> nat \<Rightarrow> core_ref \<Rightarrow> bool \<Rightarrow> bool" where
  "covers (SweepRead k rs) j r c \<longleftrightarrow> k \<le> j \<or> r \<in> set rs \<or> c"
| "covers (SweepCancel rs) j r c \<longleftrightarrow> r \<in> set rs \<or> c"
| "covers SweepDone j r c \<longleftrightarrow> c"

lemma covers_mono: "covers pc j r c \<Longrightarrow> (c \<Longrightarrow> c') \<Longrightarrow> covers pc j r c'"
  by (cases pc) auto

lemma sweep_step_covers:
  assumes "sweep_step N sel ds pc h = Some (pc', h')" "covers pc j r (core_is_cancelled (h ! r))"
    and "j < length ds" "r \<in> set (shard_tokens h sel (ds ! j))" "r < length h"
  shows "covers pc' j r (core_is_cancelled (h' ! r))"
  using assms
  by (cases "(N, sel, ds, pc, h)" rule: sweep_step.cases) (auto simp: le_Suc_eq not_less_eq_eq split: if_splits)

lemma shard_tokens_live:
  "set (shard_tokens h sel d) =
     {r \<in> live h (entries d). case sel of None \<Rightarrow> True | Some ls \<Rightarrow> labels (h ! r) \<inter> ls \<noteq> {}}"
  by (cases sel) (auto simp: deferred_registry.set_all deferred_registry.set_matching)

lemma shard_tokens_placed:
  assumes "shards_inv p" "j < length (shards p)"
  shows "r \<in> set (shard_tokens (cores p) sel (shards p ! j)) \<longleftrightarrow>
    placed p j r \<and> \<not> core_finished p r \<and> (case sel of None \<Rightarrow> True | Some ls \<Rightarrow> labels (cores p ! r) \<inter> ls \<noteq> {})"
  using assms unfolding shard_tokens_live shards_inv_def by auto

section \<open>Label sweeps\<close>

text \<open>What a step does to the label sweeps: nothing, a new one, or one step of one of them.\<close>

lemma label_sweeps_cases:
  assumes st: "rlxd_step E e p = Some q"
  obtains (same) "label_sweeps q = label_sweeps p"
    | (new) ls where "label_sweeps q = label_sweeps p @ [(ls, SweepRead 0 [])]" "cores q = cores p"
    | (step) i ls pc pc' h where "i < length (label_sweeps p)" "label_sweeps p ! i = (ls, pc)"
        "sweep_step (n_ops E) (Some ls) (shards p) pc (cores p) = Some (pc', h)"
        "q = p\<lparr>cores := h, label_sweeps := (label_sweeps p)[i := (ls, pc')]\<rparr>" "e = RStepCancel i"
proof (cases "active_event e")
  case True
  with same active_others [OF st] show ?thesis by (simp add: others_same_def)
next
  case False
  show ?thesis
  proof (cases e)
    case (RCancelLabels ls)
    with st have "q = rlxd_cancel_tasks_by_labels ls p" by (auto simp: with_manager_def split: if_splits)
    then show ?thesis by (cases "ls = {}") (simp_all add: rlxd_cancel_tasks_by_labels_def same new [of ls])
  next
    case (RStepCancel k)
    obtain ls pc where k: "label_sweeps p ! k = (ls, pc)" by fastforce
    from st RStepCancel obtain pc' h where "sweep_step (n_ops E) (Some ls) (shards p) pc (cores p) = Some (pc', h)"
      "k < length (label_sweeps p)" "q = p\<lparr>cores := h, label_sweeps := (label_sweeps p)[k := (ls, pc')]\<rparr>"
      by (auto simp: label_sweep_step_def k split: if_splits option.splits)
    with step [OF _ k] RStepCancel show ?thesis by blast
  next
    case (RStepShutdown k)
    with st have "label_sweeps q = label_sweeps p"
      by (auto simp: stop_step_def rlxd_set_defs split: if_splits stop_pc.splits option.splits prod.splits list.splits)
    then show ?thesis by (rule same)
  next
    case (RTimeoutShutdown k)
    with st have "label_sweeps q = label_sweeps p"
      by (auto simp: stop_timeout_def rlxd_set_defs split: if_splits stop_pc.splits nat.splits list.splits)
    then show ?thesis by (rule same)
  next
    case (RStepDrop k)
    with st have "label_sweeps q = label_sweeps p"
      by (auto simp: rlxd_drop_step_def Let_def split: if_splits drop_pc.splits)
    then show ?thesis by (rule same)
  qed (use st False in \<open>auto simp: active_event_def with_manager_def rlxd_with_handle_def await_step_def
      detach_step_def stop_abandon_def gauge_defs dest!: gauge_step_frame
      split: if_splits option.splits sum.splits prod.splits intro: same\<close>)
qed

text \<open>Task \<open>r\<close> is in the reach of the sweep \<open>i\<close> for the labels \<open>ls\<close>.\<close>

definition label_track ::
  "nat \<Rightarrow> task_label set \<Rightarrow> nat \<Rightarrow> core_ref \<Rightarrow> ('r, 'n, 's, 'q, 'c, 'o, 'h) rlxd \<Rightarrow> bool" where
  "label_track i ls j r p \<longleftrightarrow>
     j < length (shards p) \<and> placed p j r \<and> r < length (cores p) \<and> labels (cores p ! r) \<inter> ls \<noteq> {} \<and>
     i < length (label_sweeps p) \<and> fst (label_sweeps p ! i) = ls \<and>
     (\<not> core_finished p r \<longrightarrow> covers (snd (label_sweeps p ! i)) j r (core_cancelled p r))"

lemma label_track_step:
  assumes L: "lawful E" and r: "rlxd_reach E limit cap n name p" and inv: "label_track i ls j x p"
    and st: "rlxd_step E e p = Some q"
  shows "label_track i ls j x q"
proof -
  note wf = rlxd_pool_wf [OF L r] and wf' = rlxd_pool_wf [OF L reach_step [OF r st]]
  have g: "cores_grow (cores p) (cores q)" by (rule rlxd_step_cores [OF L wf st])
  have len: "length (shards q) = length (shards p)" using wf wf' by (simp add: rlxd_wf_def)
  have pl: "placed q j x" using placed_stays [OF L wf rlxd_pool_addresses [OF L r] st] inv by (simp add: label_track_def)
  have x: "x < length (cores p)" using inv by (simp add: label_track_def)
  have up: "x < length (cores q)" "labels (cores q ! x) = labels (cores p ! x)"
    "core_cancelled p x \<Longrightarrow> core_cancelled q x" "core_finished p x \<Longrightarrow> core_finished q x"
    using g x by (auto simp: cores_grow_def core_cancelled_def core_finished_def)
  have "i < length (label_sweeps q) \<and> fst (label_sweeps q ! i) = ls \<and>
      (\<not> core_finished q x \<longrightarrow> covers (snd (label_sweeps q ! i)) j x (core_cancelled q x))"
    using st
  proof (cases rule: label_sweeps_cases)
    case same
    with inv up(3,4) show ?thesis by (auto simp: label_track_def intro: covers_mono)
  next
    case (new ms)
    with inv up(3,4) show ?thesis by (auto simp: label_track_def nth_append intro: covers_mono)
  next
    case (step k ms pc pc' h)
    show ?thesis
    proof (cases "k = i")
      case False
      with step inv up(3,4) show ?thesis by (auto simp: label_track_def intro: covers_mono)
    next
      case True
      then have ms: "ms = ls" "snd (label_sweeps p ! i) = pc" using step(2) inv by (auto simp: label_track_def)
      have "covers pc' j x (core_is_cancelled (h ! x))" if "\<not> core_finished q x"
      proof (rule sweep_step_covers [OF step(3)])
        have nf: "\<not> core_finished p x" using that up(4) by blast
        with inv show "covers pc j x (core_is_cancelled (cores p ! x))"
          by (simp add: label_track_def core_cancelled_def ms)
        show "x \<in> set (shard_tokens (cores p) (Some ms) (shards p ! j))"
          by (rule shard_tokens_placed [OF rlxd_pool_shards [OF L r], THEN iffD2])
            (use inv nf in \<open>simp_all add: label_track_def ms\<close>)
      qed (use inv x in \<open>auto simp: label_track_def\<close>)
      with inv step(1) ms True show ?thesis by (auto simp: step(4) label_track_def core_cancelled_def)
    qed
  qed
  with inv pl up len show ?thesis by (simp add: label_track_def)
qed

lemma label_track_run:
  assumes "lawful E" "rlxd_reach E limit cap n name p" "label_track i ls j x p" "run (rlxd_step E) es p = Some q"
  shows "label_track i ls j x q"
  by (rule run_keeps [where I = "label_track i ls j x", OF _ assms(2,3,4)]) (rule label_track_step [OF assms(1)])

lemma placed_pool:
  assumes "lawful E" "rlxd_reach E limit cap n name p" "j < length (shards p)" "placed p j r"
  shows "r < length (cores p)"
proof -
  note wf = rlxd_pool_wf [OF assms(1,2)] and addr = rlxd_pool_addresses [OF assms(1,2)]
  have "j < length (dispatchers p)" using wf assms(3) by (simp add: rlxd_wf_def)
  from placed_core [OF located_distinct(2) [OF wf rlxd_pool_order [OF assms(1,2)] addr] addr this assms(4)]
  show ?thesis .
qed

lemma label_track_begin:
  assumes L: "lawful E" and r: "rlxd_reach E limit cap n name p" and st: "rlxd_step E (RCancelLabels ls) p = Some q"
    and j: "j < length (shards p)" "placed p j x" "labels (cores p ! x) \<inter> ls \<noteq> {}"
  shows "label_track (length (label_sweeps p)) ls j x q"
proof -
  have "ls \<noteq> {}" using j(3) by blast
  with st have q: "q = p\<lparr>label_sweeps := label_sweeps p @ [(ls, SweepRead 0 [])]\<rparr>"
    by (auto simp: with_manager_def rlxd_cancel_tasks_by_labels_def split: if_splits)
  have "placed q j x" using j(2) by (simp add: placed_def q)
  with j placed_pool [OF L r j(1,2)] show ?thesis by (simp add: label_track_def q)
qed

text \<open>Nothing else is listed: every listed task was placed and has one of the labels.\<close>

fun listed :: "sweep_pc \<Rightarrow> core_ref set" where
  "listed (SweepRead k rs) = set rs"
| "listed (SweepCancel rs) = set rs"
| "listed SweepDone = {}"

definition wanted :: "task_label set \<Rightarrow> core_ref \<Rightarrow> ('r, 'n, 's, 'q, 'c, 'o, 'h) rlxd \<Rightarrow> bool" where
  "wanted ls r p \<longleftrightarrow>
     r < length (cores p) \<and> labels (cores p ! r) \<inter> ls \<noteq> {} \<and> (\<exists>j < length (shards p). placed p j r)"

definition sweeps_inv :: "('r, 'n, 's, 'q, 'c, 'o, 'h) rlxd \<Rightarrow> bool" where
  "sweeps_inv p \<longleftrightarrow> (\<forall>s \<in> set (label_sweeps p). \<forall>r \<in> listed (snd s). wanted (fst s) r p)"

lemma sweep_step_listed:
  assumes "sweep_step N sel ds pc h = Some (pc', h')"
  shows "listed pc' \<subseteq> listed pc \<union> (\<Union>j < length ds. set (shard_tokens h sel (ds ! j)))"
  using assms by (cases "(N, sel, ds, pc, h)" rule: sweep_step.cases) (auto split: if_splits)

lemma wanted_stays:
  assumes L: "lawful E" and r: "rlxd_reach E limit cap n name p" and st: "rlxd_step E e p = Some q" and w: "wanted ls x p"
  shows "wanted ls x q"
proof -
  note wf = rlxd_pool_wf [OF L r] and wf' = rlxd_pool_wf [OF L reach_step [OF r st]]
  have len: "length (shards q) = length (shards p)" using wf wf' by (simp add: rlxd_wf_def)
  have g: "cores_grow (cores p) (cores q)" by (rule rlxd_step_cores [OF L wf st])
  have x: "x < length (cores p)" "labels (cores p ! x) \<inter> ls \<noteq> {}" using w by (simp_all add: wanted_def)
  with g have x': "x < length (cores q)" "labels (cores q ! x) = labels (cores p ! x)" by (auto simp: cores_grow_def)
  obtain j where "j < length (shards p)" "placed p j x" using w unfolding wanted_def by blast
  then have "j < length (shards q)" "placed q j x"
    using placed_stays [OF L wf rlxd_pool_addresses [OF L r] st] len by simp_all
  then show ?thesis using x x' unfolding wanted_def by auto
qed

lemma shard_tokens_core:
  assumes "shards_inv p" "j < length (shards p)" "x \<in> set (shard_tokens (cores p) sel (shards p ! j))"
  shows "x < length (cores p)"
proof -
  have "x \<in> live (cores p) (entries (shards p ! j))" using assms(3) by (simp add: shard_tokens_live)
  then have "x \<in> ran (slot_map (entries (shards p ! j)))" by (auto simp: live_def)
  with assms(1,2) show ?thesis by (simp add: shards_inv_def)
qed

lemma sweeps_step:
  assumes L: "lawful E" and r: "rlxd_reach E limit cap n name p" and inv: "sweeps_inv p"
    and st: "rlxd_step E e p = Some q"
  shows "sweeps_inv q"
proof -
  note stays = wanted_stays [OF L r st]
  from st show ?thesis
  proof (cases rule: label_sweeps_cases)
    case same
    with inv stays show ?thesis by (simp add: sweeps_inv_def)
  next
    case (new ls)
    with inv stays show ?thesis by (simp add: sweeps_inv_def)
  next
    case (step i ls pc pc' h)
    have "wanted ls x p" if "x \<in> listed pc'" for x
    proof -
      from that sweep_step_listed [OF step(3)] consider "x \<in> listed pc"
        | j where "j < length (shards p)" "x \<in> set (shard_tokens (cores p) (Some ls) (shards p ! j))" by blast
      then show ?thesis
      proof cases
        case 1
        with inv nth_mem [OF step(1)] show ?thesis by (fastforce simp: sweeps_inv_def step(2))
      next
        case (2 j)
        note sh = rlxd_pool_shards [OF L r]
        from 2(1) iffD1 [OF shard_tokens_placed [OF sh 2(1)] 2(2)] shard_tokens_core [OF sh 2]
        show ?thesis unfolding wanted_def by auto
      qed
    qed
    then have "\<forall>x \<in> listed pc'. wanted ls x q" using stays by blast
    moreover have "label_sweeps q = (label_sweeps p)[i := (ls, pc')]" by (simp add: step(4))
    ultimately show ?thesis using inv stays by (auto simp: sweeps_inv_def dest!: in_set_update)
  qed
qed

interpretation rlxd_sweeps: relative_invariant "\<lambda>p. p = rlxd_new E limit cap n name" "rlxd_step E"
    "\<lambda>p. lawful E \<longrightarrow> sweeps_inv p" for E limit cap n name
proof unfold_locales
  show "p = rlxd_new E limit cap n name \<Longrightarrow> lawful E \<longrightarrow> sweeps_inv p" for p
    by (simp add: sweeps_inv_def rlxd_new_def Let_def)
  show "rlxd_reach E limit cap n name p \<Longrightarrow> lawful E \<longrightarrow> sweeps_inv p \<Longrightarrow> rlxd_step E e p = Some q \<Longrightarrow>
      lawful E \<longrightarrow> sweeps_inv q" for p e q
    by (blast intro: sweeps_step)
qed

lemma rlxd_pool_sweeps: "lawful E \<Longrightarrow> rlxd_reach E limit cap n name p \<Longrightarrow> sweeps_inv p"
  using rlxd_sweeps.reach_inv by blast

lemma label_sweep_sound:
  assumes L: "lawful E" and r: "rlxd_reach E limit cap n name p" and i: "i < length (label_sweeps p)"
    and st: "rlxd_step E (RStepCancel i) p = Some q" and x: "x < length (cores p)" "core_cancelled q x"
  shows "core_cancelled p x \<or> wanted (fst (label_sweeps p ! i)) x p"
proof -
  obtain ls pc where l: "label_sweeps p ! i = (ls, pc)" by fastforce
  with st i obtain pc' h where s: "sweep_step (n_ops E) (Some ls) (shards p) pc (cores p) = Some (pc', h)" "cores q = h"
    by (auto simp: label_sweep_step_def split: option.splits)
  have c: "core_is_cancelled (h ! x)" using x(2) by (simp add: core_cancelled_def s(2))
  have "core_is_cancelled (cores p ! x) \<or> x \<in> listed pc"
    using s(1) x(1) c by (cases "(n_ops E, Some ls, shards p, pc, cores p)" rule: sweep_step.cases)
      (auto split: if_splits)
  moreover have "\<forall>y \<in> listed pc. wanted ls y p"
    using rlxd_pool_sweeps [OF L r] nth_mem [OF i] by (fastforce simp: sweeps_inv_def l)
  ultimately show ?thesis by (auto simp: core_cancelled_def l)
qed

section \<open>The sweep of a forceful shutdown\<close>

lemma stops_cases:
  assumes st: "rlxd_step E e p = Some q"
  obtains (same) "stops q = stops p"
    | (new) m where "stops q = stops p @ [StopStart m]"
    | (step) i where "i < length (stops p)" "e = RStepShutdown i"
    | (timeout) i where "i < length (stops p)" "e = RTimeoutShutdown i"
    | (abandon) i where "i < length (stops p)" "stop_suspended (stops p ! i)"
        "stops q = (stops p)[i := StopAbandoned]"
proof (cases "active_event e")
  case True
  with same active_others [OF st] show ?thesis by (simp add: others_same_def)
next
  case False
  show ?thesis
  proof (cases e)
    case (RCancelLabels ls)
    with st have "stops q = stops p"
      by (auto simp: with_manager_def rlxd_cancel_tasks_by_labels_def split: if_splits)
    then show ?thesis by (rule same)
  next
    case (RStepCancel k)
    with st have "stops q = stops p" by (auto simp: label_sweep_step_def split: if_splits option.splits)
    then show ?thesis by (rule same)
  next
    case (RStepShutdown k)
    with st step [of k] show ?thesis by (auto simp: stop_step_def split: if_splits)
  next
    case (RTimeoutShutdown k)
    with st timeout [of k] show ?thesis by (auto simp: stop_timeout_def split: if_splits)
  next
    case (RAbandonShutdown k)
    with st abandon [of k] show ?thesis by (auto simp: stop_abandon_def split: if_splits)
  next
    case (RShutdown m)
    with st new [of m] show ?thesis by (auto simp: with_manager_def split: if_splits)
  next
    case (RStepDrop k)
    with st have "stops q = stops p"
      by (auto simp: rlxd_drop_step_def Let_def split: if_splits drop_pc.splits)
    then show ?thesis by (rule same)
  qed (use st False in \<open>auto simp: active_event_def with_manager_def rlxd_with_handle_def await_step_def
      detach_step_def stop_abandon_def gauge_defs dest!: gauge_step_frame
      split: if_splits option.splits sum.splits prod.splits intro: same\<close>)
qed

text \<open>A call of \<open>shutdown\<close> in its sweep covers the task, and past its sweep it has cancelled it.\<close>

fun sweeping :: "stop_pc \<Rightarrow> bool" where
  "sweeping (StopSweep pc) = True"
| "sweeping _ = False"

fun stop_covers :: "stop_pc \<Rightarrow> nat \<Rightarrow> core_ref \<Rightarrow> bool \<Rightarrow> bool" where
  "stop_covers (StopStart m) j r c = False"
| "stop_covers (StopCancel m) j r c = False"
| "stop_covers (StopClose m k) j r c = False"
| "stop_covers (StopSweep pc) j r c = covers pc j r c"
| "stop_covers _ j r c = c"

lemma stop_covers_mono: "stop_covers pc j r c \<Longrightarrow> (c \<Longrightarrow> c') \<Longrightarrow> stop_covers pc j r c'"
  by (cases pc) (auto intro: covers_mono)

definition stop_track :: "nat \<Rightarrow> nat \<Rightarrow> core_ref \<Rightarrow> ('r, 'n, 's, 'q, 'c, 'o, 'h) rlxd \<Rightarrow> bool" where
  "stop_track i j r p \<longleftrightarrow>
     j < length (shards p) \<and> placed p j r \<and> r < length (cores p) \<and> i < length (stops p) \<and>
     (\<not> core_finished p r \<longrightarrow> stop_covers (stops p ! i) j r (core_cancelled p r))"

lemma stop_track_step:
  assumes L: "lawful E" and r: "rlxd_reach E limit cap n name p" and inv: "stop_track i j x p"
    and st: "rlxd_step E e p = Some q"
  shows "stop_track i j x q"
proof -
  note wf = rlxd_pool_wf [OF L r] and wf' = rlxd_pool_wf [OF L reach_step [OF r st]]
  have g: "cores_grow (cores p) (cores q)" by (rule rlxd_step_cores [OF L wf st])
  have len: "length (shards q) = length (shards p)" using wf wf' by (simp add: rlxd_wf_def)
  have pl: "placed q j x" using placed_stays [OF L wf rlxd_pool_addresses [OF L r] st] inv by (simp add: stop_track_def)
  have x: "x < length (cores p)" and i: "i < length (stops p)" using inv by (simp_all add: stop_track_def)
  have up: "x < length (cores q)" "core_cancelled p x \<Longrightarrow> core_cancelled q x" "core_finished p x \<Longrightarrow> core_finished q x"
    using g x by (auto simp: cores_grow_def core_cancelled_def core_finished_def)
  have old: "\<not> core_finished q x \<Longrightarrow> stop_covers (stops p ! i) j x (core_cancelled q x)"
    using inv up(2,3) by (auto simp: stop_track_def intro: stop_covers_mono)
  have "i < length (stops q) \<and> (\<not> core_finished q x \<longrightarrow> stop_covers (stops q ! i) j x (core_cancelled q x))"
    using st
  proof (cases rule: stops_cases)
    case same
    with old i show ?thesis by simp
  next
    case (new m)
    with old i show ?thesis by (simp add: nth_append)
  next
    case (step k)
    with st have s: "stop_step E k p = Some q" by simp
    show ?thesis
    proof (cases "k = i \<and> sweeping (stops p ! i)")
      case True
      then obtain pc where pc: "stops p ! i = StopSweep pc" by (cases "stops p ! i") auto
      show ?thesis
      proof (cases "sweep_step (n_ops E) None (shards p) pc (cores p)")
        case None
        then have "pc = SweepDone" by (cases pc) (auto simp: neq_Nil_conv elim: sweep_step.elims)
        with s pc None True old i show ?thesis by (auto simp: stop_step_def set_stop_def)
      next
        case (Some y)
        obtain pc' h where y: "y = (pc', h)" by fastforce
        have q: "cores q = h" "stops q = (stops p)[i := StopSweep pc']"
          using s pc Some True i by (auto simp: stop_step_def set_stop_def y)
        have "covers pc' j x (core_is_cancelled (h ! x))" if "\<not> core_finished q x"
        proof (rule sweep_step_covers [OF Some [unfolded y]])
          have nf: "\<not> core_finished p x" using that up(3) by blast
          with inv show "covers pc j x (core_is_cancelled (cores p ! x))"
            by (simp add: stop_track_def core_cancelled_def pc)
          show "x \<in> set (shard_tokens (cores p) None (shards p ! j))"
            by (rule shard_tokens_placed [OF rlxd_pool_shards [OF L r], THEN iffD2])
              (use inv nf in \<open>simp_all add: stop_track_def\<close>)
        qed (use inv x in \<open>auto simp: stop_track_def\<close>)
        with i show ?thesis by (simp add: q core_cancelled_def)
      qed
    next
      case False
      then show ?thesis
        using s old i
        by (auto simp: stop_step_def rlxd_set_defs nth_upd split: if_splits stop_pc.splits list.splits option.splits prod.splits)
    qed
  next
    case (timeout k)
    with st old i show ?thesis
      by (auto simp: stop_timeout_def rlxd_set_defs nth_upd split: if_splits stop_pc.splits nat.splits list.splits)
  next
    case (abandon k)
    with old i show ?thesis by (cases "stops p ! i") (auto simp: nth_upd)
  qed
  with inv pl up len show ?thesis by (simp add: stop_track_def)
qed

lemma stop_track_run:
  assumes "lawful E" "rlxd_reach E limit cap n name p" "stop_track i j x p" "run (rlxd_step E) es p = Some q"
  shows "stop_track i j x q"
  by (rule run_keeps [where I = "stop_track i j x", OF _ assms(2,3,4)]) (rule stop_track_step [OF assms(1)])

end
