(* ===== verification/RlxdResult.thy ===== *)
theory RlxdResult
  imports RlxdSweep PoolResult
begin

text \<open>
  Where results and completion messages of the relaxed pool come from: every task in a lane, in a
  dispatcher's hands or running is the submission of its own core, and every value in a
  oneshot and every message posted is explained by its future or by a cancellation.
\<close>

section \<open>Tasks come from submissions\<close>

abbreviation rlxd_submission :: "('r, 'n, 's, 'q, 'c, 'o, 'h) rlxd \<Rightarrow> core_ref \<Rightarrow> 'r managed_task" where
  "rlxd_submission p r \<equiv> fst (submissions p ! r)"

definition submitted :: "('r, 'n, 's, 'q, 'c, 'o, 'h) rlxd \<Rightarrow> 'r managed_task \<Rightarrow> bool" where
  "submitted p t \<longleftrightarrow> t \<in> set (map fst (submissions p))"

lemma rlxd_step_submissions:
  assumes L: "lawful E" and wf: "rlxd_wf E k p" and st: "rlxd_step E e p = Some q"
  shows "prefix (map fst (submissions p)) (map fst (submissions q))"
  using L wf st
proof (cases rule: rlxd_step_cases)
  case (sub r pc pc')
  with sub_frame_cores [OF sub(1)] show ?thesis by simp
qed (simp_all add: quiet_def fresh_submission_def lane_frame_def run_frame_def)

lemma submitted_mono:
  "prefix (map fst (submissions p)) (map fst (submissions q)) \<Longrightarrow> submitted p t \<Longrightarrow> submitted q t"
  unfolding submitted_def by (rule subsetD [OF set_mono_prefix])

lemma submission_stays:
  assumes "prefix (map fst (submissions p)) (map fst (submissions q))" "r < length (submissions p)"
  shows "rlxd_submission q r = rlxd_submission p r"
proof -
  obtain xs where xs: "map fst (submissions q) = map fst (submissions p) @ xs" using assms(1) by (auto simp: prefix_def)
  from arg_cong [OF xs, of length] have "r < length (submissions q)" using assms(2) by simp
  with arg_cong [OF xs, of "\<lambda>ys. ys ! r"] assms(2) show ?thesis by (simp add: nth_append)
qed

definition carried :: "('r, 'n, 's, 'q, 'c, 'o, 'h) env \<Rightarrow> ('r, 'n, 's, 'q, 'c, 'o, 'h) rlxd \<Rightarrow>
    'r managed_task \<Rightarrow> bool" where
  "carried E p t \<longleftrightarrow>
     in_lanes (q_ops E) (lane_queue p) t \<or> (\<exists>d \<in> set (dispatchers p). t \<in> set (lane_hand d)) \<or>
     t \<in> set (map rt_task (spawned p))"

lemma carried_lane:
  assumes f: "lane_frame i pc pc' p q" and c: "carried E q t"
  shows "in_lanes (q_ops E) (lane_queue q) t \<or> t \<in> set (lane_hand pc') \<or>
    (\<exists>d \<in> set (dispatchers p). t \<in> set (lane_hand d)) \<or> t \<in> set (map rt_task (spawned q))"
  using f c by (auto simp: carried_def lane_frame_def dest!: in_set_update)

lemma carried_step:
  assumes L: "lawful E" and wf: "rlxd_wf E k p" and st: "rlxd_step E e p = Some q" and c: "carried E q t"
  shows "carried E p t \<or> submitted p t"
proof -
  have C: "chan_laws (q_ops E)" using L by (simp add: lawful_def)
  have len: "length (txs (lane_queue p)) = k" "length (dispatchers p) = k"
    using rlxd_wf_lanes [OF wf] wf by (simp_all add: rlxd_wf_def)
  from L wf st show ?thesis
  proof (cases rule: rlxd_step_cases)
    case quiet
    with c show ?thesis by (simp add: quiet_def carried_def lanes_same_def)
  next
    case (new ls f)
    with c show ?thesis by (simp add: fresh_submission_def carried_def)
  next
    case (sub r pc pc')
    have r: "submitted p (fst (submissions p ! r))" and d: "dispatchers q = dispatchers p"
      using sub(1) by (auto simp: sub_frame_def submitted_def)
    from sub(2) show ?thesis
    proof cases
      case sub_quiet
      with c d show ?thesis by (simp add: carried_def lanes_same_def)
    next
      case sub_slot
      have "in_lanes (q_ops E) (lane_queue q) = in_lanes (q_ops E) (lane_queue p)"
        by (rule in_lanes_items) (simp_all add: sub_slot)
      with c d sub_slot show ?thesis by (simp add: carried_def)
    next
      case (sub_push i res)
      with lane_push_tasks [OF C sub_push(7)] c d r show ?thesis by (auto simp: carried_def)
    qed (use c d r in \<open>auto simp: carried_def\<close>)
  next
    case (lane i pc pc')
    have i: "i < length (dispatchers p)" "dispatchers p ! i = pc" using lane(1) by (auto simp: lane_frame_def)
    have old: "t \<in> set (lane_hand pc) \<Longrightarrow> carried E p t" using i nth_mem [of i "dispatchers p"] by (auto simp: carried_def)
    note c' = carried_lane [OF lane(1) c]
    from lane(2) show ?thesis
    proof cases
      case lane_quiet
      with c' old show ?thesis by (auto simp: lane_quiet_def carried_def)
    next
      case (lane_recv x)
      with lane_recv_tasks [OF C lane_recv(2)] i(1) len c' show ?thesis
        by (cases x) (auto simp: carried_def)
    next
      case (lane_take u)
      have "in_lanes (q_ops E) (lane_queue q) = in_lanes (q_ops E) (lane_queue p)"
        by (rule in_lanes_items) (simp_all add: lane_take lane_release_def)
      with lane_take c' old show ?thesis by (auto simp: carried_def)
    next
      case (lane_exit rs)
      with lane_drop_receiver_tasks [OF C lane_exit(3)] i(1) len c' show ?thesis by (auto simp: carried_def)
    qed (use c' old in \<open>auto simp: carried_def\<close>)
  next
    case (run i x)
    have "map rt_task (spawned q) = map rt_task (spawned p)"
      using run(1) by (simp add: run_frame_def map_id_update)
    with run(1) c show ?thesis unfolding carried_def run_frame_def by (simp del: set_map)
  qed
qed

interpretation rlxd_sources: relative_invariant "\<lambda>p. p = rlxd_new E limit cap n name" "rlxd_step E"
    "\<lambda>p. lawful E \<longrightarrow> (\<forall>t. carried E p t \<longrightarrow> submitted p t)" for E limit cap n name
proof unfold_locales
  show "p = rlxd_new E limit cap n name \<Longrightarrow> lawful E \<longrightarrow> (\<forall>t. carried E p t \<longrightarrow> submitted p t)" for p
    by (auto simp: carried_def rlxd_new_def Let_def in_lanes_def lanes_new_def lawful_def ch_new_items)
  fix p e q
  assume r: "rlxd_reach E limit cap n name p" and inv: "lawful E \<longrightarrow> (\<forall>t. carried E p t \<longrightarrow> submitted p t)"
    and st: "rlxd_step E e p = Some q"
  show "lawful E \<longrightarrow> (\<forall>t. carried E q t \<longrightarrow> submitted q t)"
  proof (intro impI allI)
    fix t
    assume L: "lawful E" and c: "carried E q t"
    note wf = rlxd_pool_wf [OF L r]
    from carried_step [OF L wf st c] inv L have "submitted p t" by blast
    then show "submitted q t" by (rule submitted_mono [OF rlxd_step_submissions [OF L wf st]])
  qed
qed

lemma rlxd_pool_sources:
  "lawful E \<Longrightarrow> rlxd_reach E limit cap n name p \<Longrightarrow> carried E p t \<Longrightarrow> submitted p t"
  using rlxd_sources.reach_inv by blast

lemma submitted_core:
  assumes "rlxd_addresses p" "submitted p t"
  shows "rlxd_submission p (mt_core t) = t" "mt_core t < length (cores p)" "mt_core t < length (submissions p)"
proof -
  from assms(2) obtain i where i: "i < length (submissions p)" "t = fst (submissions p ! i)"
    by (auto simp: submitted_def in_set_conv_nth)
  with sub_core_nth [OF assms(1) i(1)] show "rlxd_submission p (mt_core t) = t" "mt_core t < length (cores p)"
    "mt_core t < length (submissions p)" by auto
qed

section \<open>Explained results\<close>

definition rexplained :: "('r, 'n, 's, 'q, 'c, 'o, 'h) rlxd \<Rightarrow> core_ref \<Rightarrow> 'r task_result \<Rightarrow> bool" where
  "rexplained p r res \<longleftrightarrow> r < length (cores p) \<and> explains (rlxd_submission p r) (core_cancelled p r) res"

lemma rexplained_mono:
  assumes L: "lawful E" and wf: "rlxd_wf E k p" and addr: "rlxd_addresses p"
    and st: "rlxd_step E e p = Some q" and ex: "rexplained p r res"
  shows "rexplained q r res"
proof -
  have g: "cores_grow (cores p) (cores q)" by (rule rlxd_step_cores [OF L wf st])
  have r: "r < length (cores p)" using ex by (simp add: rexplained_def)
  moreover have "length (submissions p) = length (cores p)"
    using arg_cong [OF addr [unfolded rlxd_addresses_def, THEN conjunct1], of length] by simp
  ultimately have "rlxd_submission q r = rlxd_submission p r"
    using submission_stays [OF rlxd_step_submissions [OF L wf st]] by simp
  with ex g r show ?thesis
    by (auto simp: rexplained_def cores_grow_def core_cancelled_def elim: explains_mono)
qed

definition run_explained :: "('r, 'n, 's, 'q, 'c, 'o, 'h) rlxd \<Rightarrow> 'r run_task \<Rightarrow> bool" where
  "run_explained p x \<longleftrightarrow>
     (case rt_pc x of
        RReady y \<Rightarrow> \<exists>k. catch_unwind (mt_future (rt_task x) k) = Some y
      | RSend res \<Rightarrow> rexplained p (rt_core x) res
      | RNotify s \<Rightarrow> \<exists>res. s = status_from res \<and> rexplained p (rt_core x) res
      | _ \<Rightarrow> True)"

definition lane_explained :: "('r, 'n, 's, 'q, 'c, 'o, 'h) rlxd \<Rightarrow> 'r lane_pc \<Rightarrow> bool" where
  "lane_explained p d \<longleftrightarrow> (\<forall>r. d = LCancelled r \<or> d = LNotify r \<longrightarrow> rexplained p r (Inl TaskCancelled))"

definition message_explained ::
  "('r, 'n, 's, 'q, 'c, 'o, 'h) rlxd \<Rightarrow> internal_completion_message \<Rightarrow> bool" where
  "message_explained p m \<longleftrightarrow> (\<exists>res. cm_status m = status_from res \<and> rexplained p (cm_core m) res)"

definition rlxd_results ::
  "('r, 'n, 's, 'q, 'c, 'o, 'h) env \<Rightarrow> ('r, 'n, 's, 'q, 'c, 'o, 'h) rlxd \<Rightarrow> bool" where
  "rlxd_results E p \<longleftrightarrow>
     (\<forall>x \<in> set (spawned p). run_explained p x) \<and> (\<forall>d \<in> set (dispatchers p). lane_explained p d) \<and>
     (\<forall>r < length (oneshots p). \<forall>v. result_value E p r = Some v \<longrightarrow> rexplained p r v) \<and>
     (\<forall>m \<in> set (posted (completion_notifier p)). message_explained p m)"

lemma rlxd_results_add:
  assumes mono: "\<And>r res. rexplained p r res \<Longrightarrow> rexplained q r res" and inv: "rlxd_results E p"
    and runs: "\<And>x. x \<in> set (spawned q) \<Longrightarrow> x \<in> set (spawned p) \<or> run_explained q x"
    and lanes: "\<And>d. d \<in> set (dispatchers q) \<Longrightarrow> d \<in> set (dispatchers p) \<or> lane_explained q d"
    and os: "\<And>r v. r < length (oneshots q) \<Longrightarrow> result_value E q r = Some v \<Longrightarrow>
      r < length (oneshots p) \<and> result_value E p r = Some v \<or> rexplained q r v"
    and post: "\<And>m. m \<in> set (posted (completion_notifier q)) \<Longrightarrow>
      m \<in> set (posted (completion_notifier p)) \<or> message_explained q m"
  shows "rlxd_results E q"
proof -
  have "run_explained p x \<Longrightarrow> run_explained q x" for x
    using mono by (auto simp: run_explained_def split: run_pc.splits)
  moreover have "lane_explained p d \<Longrightarrow> lane_explained q d" for d using mono by (simp add: lane_explained_def)
  moreover have "message_explained p m \<Longrightarrow> message_explained q m" for m using mono by (auto simp: message_explained_def)
  ultimately show ?thesis using inv runs lanes os post mono unfolding rlxd_results_def by blast
qed

text \<open>A step that sends nothing and posts nothing.\<close>

lemma rlxd_results_keep:
  assumes "\<And>r res. rexplained p r res \<Longrightarrow> rexplained q r res" "rlxd_results E p"
    and "\<And>x. x \<in> set (spawned q) \<Longrightarrow> x \<in> set (spawned p) \<or> run_explained q x"
    and "\<And>d. d \<in> set (dispatchers q) \<Longrightarrow> d \<in> set (dispatchers p) \<or> lane_explained q d"
    and "values_kept E (oneshots p) (oneshots q)" "posted (completion_notifier q) = posted (completion_notifier p)"
  shows "rlxd_results E q"
  using assms(5,6) by (intro rlxd_results_add [OF assms(1-4)]) (auto simp: values_kept_def)

text \<open>A step that sends the result of \<open>r\<close>.\<close>

lemma rlxd_results_send:
  assumes O1: "oneshot_laws (o_ops E)" and mono: "\<And>r res. rexplained p r res \<Longrightarrow> rexplained q r res"
    and inv: "rlxd_results E p"
    and runs: "\<And>x. x \<in> set (spawned q) \<Longrightarrow> x \<in> set (spawned p) \<or> run_explained q x"
    and lanes: "\<And>d. d \<in> set (dispatchers q) \<Longrightarrow> d \<in> set (dispatchers p) \<or> lane_explained q d"
    and os: "oneshots q = (oneshots p)[r := snd (os_send (o_ops E) res (oneshots p ! r))]"
    and res: "rexplained q r res" and post: "posted (completion_notifier q) = posted (completion_notifier p)"
  shows "rlxd_results E q"
proof (rule rlxd_results_add [OF mono inv runs lanes])
  fix s v assume "s < length (oneshots q)" "result_value E q s = Some v"
  with os send_value [OF O1, of res "oneshots p ! r" v] res
  show "s < length (oneshots p) \<and> result_value E p s = Some v \<or> rexplained q s v"
    by (auto simp: nth_upd split: if_splits)
qed (simp_all add: post)

section \<open>The steps\<close>

text \<open>Steps of neither a dispatcher nor a spawned task send nothing and post nothing.\<close>

definition silent ::
  "('r, 'n, 's, 'q, 'c, 'o, 'h) env \<Rightarrow> ('r, 'n, 's, 'q, 'c, 'o, 'h) rlxd \<Rightarrow>
     ('r, 'n, 's, 'q, 'c, 'o, 'h) rlxd \<Rightarrow> bool" where
  "silent E p q \<longleftrightarrow>
     values_kept E (oneshots p) (oneshots q) \<and>
     posted (completion_notifier q) = posted (completion_notifier p) \<and> dispatchers q = dispatchers p \<and>
     (spawned q = spawned p \<or> (\<exists>x. spawned q = spawned p @ [x] \<and> rt_pc x = RPollFuture))"

lemma release_sink_posted [simp]:
  "posted (completion_notifier (rlxd_release_sink E p)) = posted (completion_notifier p)"
  by (simp add: rlxd_release_sink_def)

lemma spawn_future_posted:
  "posted (completion_notifier (spawn_future E d t k p)) = posted (completion_notifier p) \<and>
     oneshots (spawn_future E d t k p) = oneshots p \<and> dispatchers (spawn_future E d t k p) = dispatchers p \<and>
     (\<exists>x. spawned (spawn_future E d t k p) = spawned p @ [x] \<and> rt_pc x = RPollFuture)"
  using notifier_op_posted(3) [of "c_ops E" "completion_notifier p"]
  by (cases "sink_sender (c_ops E) (completion_notifier p)") (simp add: spawn_future_def)

lemma submission_step_silent:
  assumes O1: "oneshot_laws (o_ops E)" and st: "submission_step E r p = Some q"
  shows "silent E p q"
proof -
  have r: "r < length (submissions p)" using st by (auto simp: submission_step_def split: if_splits)
  show ?thesis
  proof (cases "snd (submissions p ! r)")
    case (SubLen k n)
    with st r show ?thesis by (auto simp: submission_step_def silent_def set_submission_def)
  next
    case SubTry
    with st r show ?thesis by (auto simp: submission_step_def silent_def set_submission_def split: option.splits)
  next
    case SubRoute
    with st r show ?thesis by (auto simp: submission_step_def silent_def set_submission_def split: prod.splits)
  next
    case (SubCount k)
    with st r show ?thesis
      by (auto simp: submission_step_def silent_def set_submission_def shard_count_def split: sum.splits)
  next
    case (SubStore k)
    with st r show ?thesis
      by (auto simp: submission_step_def silent_def set_submission_def shard_store_def split: sum.splits)
  next
    case (SubSpawn k)
    with st r have "q = set_submission r SubDirect (spawn_future E True (fst (submissions p ! r)) k p)"
      by (simp add: submission_step_def)
    then show ?thesis using spawn_future_posted [of E True "fst (submissions p ! r)" k p] by (simp add: silent_def set_submission_def)
  next
    case (SubSend pc)
    with st r values_kept_discard [OF O1] show ?thesis
      by (auto simp: submission_step_def rlxd_send_step_def silent_def set_submission_def
          split: option.splits lane_send_pc.splits sum.splits)
  qed (use st r in \<open>simp_all add: submission_step_def\<close>)
qed

lemma stop_step_silent: "stop_step E i p = Some q \<Longrightarrow> silent E p q"
  by (auto simp: stop_step_def silent_def set_stop_def take_join_handle_def split: if_splits stop_pc.splits option.splits list.splits prod.splits)

lemma drop_step_silent: "rlxd_drop_step E i p = Some q \<Longrightarrow> silent E p q"
  by (auto simp: rlxd_drop_step_def silent_def Let_def split: if_splits drop_pc.splits)

lemma handle_step_silent:
  assumes O1: "oneshot_laws (o_ops E)"
  shows "await_step E r t p = Some q \<Longrightarrow> silent E p q" "detach_step E r t p = Some q \<Longrightarrow> silent E p q"
  using await_step_values [OF O1, of r t p q] detach_step_values [OF O1, of r t p q]
  by (auto simp: silent_def await_step_def detach_step_def split: if_splits prod.splits)

lemma silent_step:
  assumes L: "lawful E" and st: "rlxd_step E e p = Some q"
    and e: "\<forall>i. e \<noteq> RStepDispatcher i" "\<forall>i. e \<noteq> RStepTask i"
  shows "silent E p q"
proof -
  have O1: "oneshot_laws (o_ops E)" using L by (simp add: lawful_def)
  show ?thesis
  proof (cases e)
    case (RSubmit ls f)
    with st values_kept_new [OF O1] show ?thesis
      by (auto simp: with_manager_def rlxd_submit_begin_def silent_def Let_def split: if_splits)
  next
    case (RStepSubmit r)
    with st show ?thesis by (auto intro: submission_step_silent [OF O1])
  next
    case (RAbandonSubmit r)
    with st values_kept_discard [OF O1] show ?thesis
      by (auto simp: submission_abandon_def silent_def set_submission_def split: if_splits)
  next
    case (RAwaitResult r)
    with st show ?thesis
      by (auto simp: rlxd_with_handle_def split: if_splits option.splits sum.splits intro: handle_step_silent [OF O1])
  next
    case (RDetach r)
    with st show ?thesis
      by (auto simp: rlxd_with_handle_def split: if_splits option.splits sum.splits intro: handle_step_silent [OF O1])
  next
    case (RStepShutdown i)
    with st stop_step_silent show ?thesis by simp
  next
    case (RStepDrop i)
    with st drop_step_silent show ?thesis by simp
  next
    case (RTimeoutShutdown i)
    with st show ?thesis
      by (auto simp: stop_timeout_def silent_def set_stop_def split: if_splits stop_pc.splits nat.splits list.splits)
  next
    case (RStepNotifier now)
    with st show ?thesis by (auto simp: silent_def dest: notifier_worker_clones)
  next
    case (RAddHandlerPush h)
    with st show ?thesis by (auto simp: with_manager_def silent_def dest: push_handler_clones split: if_splits)
  qed (use st e in \<open>auto simp: silent_def with_manager_def rlxd_with_handle_def label_sweep_step_def stop_abandon_def
      rlxd_cancel_tasks_by_labels_def gauge_defs dest!: gauge_step_frame
      split: if_splits option.splits sum.splits prod.splits\<close>)
qed

text \<open>What a dispatcher does with a result: nothing, it answers a cancelled task, or it reports it.\<close>

abbreviation task_message :: "('r, 'n, 's, 'q, 'c, 'o, 'h) rlxd \<Rightarrow> core_ref \<Rightarrow> task_completion_status \<Rightarrow>
    internal_completion_message" where
  "task_message p r s \<equiv> \<lparr>cm_pool_name = pool_name p, cm_core = r, cm_status = s\<rparr>"

inductive lane_report ::
  "('r, 'n, 's, 'q, 'c, 'o, 'h) env \<Rightarrow> ('r, 'n, 's, 'q, 'c, 'o, 'h) rlxd \<Rightarrow>
     ('r, 'n, 's, 'q, 'c, 'o, 'h) rlxd \<Rightarrow> 'r lane_pc \<Rightarrow> 'r lane_pc \<Rightarrow> bool" for E p q where
  lr_none: "\<forall>r. d \<noteq> LCancelled r \<and> d \<noteq> LNotify r \<Longrightarrow>
    \<forall>r. d' \<noteq> LCancelled r \<and> d' \<noteq> LNotify r \<Longrightarrow> values_kept E (oneshots p) (oneshots q) \<Longrightarrow>
    posted (completion_notifier q) = posted (completion_notifier p) \<Longrightarrow>
    spawned q = spawned p \<or> (\<exists>x. spawned q = spawned p @ [x] \<and> rt_pc x = RPollFuture) \<Longrightarrow>
    lane_report E p q d d'"
| lr_cancel: "core_cancelled p (mt_core t) \<Longrightarrow> posted (completion_notifier q) = posted (completion_notifier p) \<Longrightarrow>
    oneshots q = (oneshots p)[mt_core t := snd (os_send (o_ops E) (Inl TaskCancelled) (oneshots p ! mt_core t))] \<Longrightarrow>
    spawned q = spawned p \<Longrightarrow> lane_report E p q (LGot t) (LCancelled (mt_core t))"
| lr_sender: "oneshots q = oneshots p \<Longrightarrow> spawned q = spawned p \<Longrightarrow>
    posted (completion_notifier q) = posted (completion_notifier p) \<Longrightarrow> d' = LNotify r \<or> d' = LTop \<Longrightarrow>
    lane_report E p q (LCancelled r) d'"
| lr_post: "oneshots q = oneshots p \<Longrightarrow> spawned q = spawned p \<Longrightarrow>
    posted (completion_notifier q) = posted (completion_notifier p) \<or>
    posted (completion_notifier q) = posted (completion_notifier p) @ [task_message p r Cancelled] \<Longrightarrow>
    lane_report E p q (LNotify r) LTop"

lemma lane_step_report:
  assumes O1: "oneshot_laws (o_ops E)" and st: "lane_step E i p = Some q"
  obtains d' where "i < length (dispatchers p)" "dispatchers q = (dispatchers p)[i := d']"
    "lane_report E p q (dispatchers p ! i) d'"
proof -
  have i: "i < length (dispatchers p)" using st by (auto simp: lane_step_def split: if_splits)
  note defs = lane_step_def set_lane_def drop_task_def release_queue_permit_def
  have kept: "values_kept E (oneshots p) (drop_senders E rs (oneshots p))" for rs
    by (rule values_kept_drop_senders [OF O1])
  show ?thesis
  proof (cases "dispatchers p ! i")
    case (LReceived t)
    with st i kept [of "[mt_core t]"] show ?thesis
      by (intro that [of "if shutting_down p then LExit else LGot t"]) (auto simp: defs intro!: lr_none)
  next
    case (LGot t)
    with st i show ?thesis
      by (intro that [of "if core_cancelled p (mt_core t) then LCancelled (mt_core t) else LPollPermit t"])
        (auto simp: defs intro: lr_none lr_cancel)
  next
    case (LCancelled r)
    obtain b n where b: "sink_sender (c_ops E) (completion_notifier p) = (b, n)" by fastforce
    then have "posted n = posted (completion_notifier p)"
      using notifier_op_posted(3) [of "c_ops E" "completion_notifier p"] by simp
    with st i LCancelled b show ?thesis
      by (intro that [of "if b then LNotify r else LTop"]) (auto simp: defs intro!: lr_sender)
  next
    case (LNotify r)
    with st i send_completion_posted [of "c_ops E" "task_message p r Cancelled" "completion_notifier p"]
    show ?thesis by (intro that [of LTop]) (auto simp: defs Let_def intro!: lr_post)
  next
    case (LPollPermitToken t)
    with st i kept [of "[mt_core t]"] show ?thesis
      by (intro that [of "if shutting_down p then LExit else LPollPermit t"]) (auto simp: defs intro!: lr_none)
  next
    case (LCheck t)
    with st i kept [of "[mt_core t]"] show ?thesis
      by (intro that [of "if shutting_down p then LExit else LCount t"]) (auto simp: defs intro!: lr_none)
  next
    case (LCount t)
    with st i show ?thesis
      by (intro that [of "case shard_count i p of Inl _ \<Rightarrow> LPanicked | Inr _ \<Rightarrow> LStore t"])
        (auto simp: defs shard_count_def intro!: lr_none split: sum.splits)
  next
    case (LStore t)
    with st i show ?thesis
      by (intro that [of "case shard_store i (mt_core t) p of Inl _ \<Rightarrow> LPanicked | Inr _ \<Rightarrow> LSpawn t"])
        (auto simp: defs shard_store_def intro!: lr_none split: sum.splits)
  next
    case (LSpawn t)
    with st i spawn_future_posted [of E False t i p] show ?thesis
      by (intro that [of LTop]) (auto simp: defs intro!: lr_none)
  next
    case LExit
    obtain rs lq where "lane_drop_receiver (q_ops E) (s_ops E) i (lane_queue p) = (rs, lq)" by fastforce
    with LExit st i kept [of rs] show ?thesis
      by (intro that [of LStopped]) (auto simp: defs intro!: lr_none)
  next
    case LPollRecv
    obtain x lq where "lane_recv (q_ops E) i (lane_queue p) = (x, lq)" by fastforce
    with LPollRecv st i show ?thesis
      by (intro that [of "case x of RecvOk t \<Rightarrow> LReceived t | RecvDisconnected \<Rightarrow> LExit | RecvPending \<Rightarrow> LPollRecvToken"])
        (auto simp: defs intro!: lr_none split: recv.splits)
  next
    case (LPollPermit t)
    obtain b g where "gate_poll_acquire (s_ops E) i (concurrency_gate p) = (b, g)" by fastforce
    with LPollPermit st i show ?thesis
      by (intro that [of "if b then LCheck t else LPollPermitToken t"]) (auto simp: defs intro!: lr_none)
  qed (use st i in \<open>auto simp: defs intro!: that lr_none split: if_splits\<close>)
qed

text \<open>A spawned task sends its result, then posts it.\<close>

inductive run_report ::
  "('r, 'n, 's, 'q, 'c, 'o, 'h) env \<Rightarrow> ('r, 'n, 's, 'q, 'c, 'o, 'h) rlxd \<Rightarrow>
     ('r, 'n, 's, 'q, 'c, 'o, 'h) rlxd \<Rightarrow> 'r run_task \<Rightarrow> 'r run_pc \<Rightarrow> bool" for E p q x where
  rr_none: "\<forall>s. rt_pc x \<noteq> RNotify s \<Longrightarrow> \<forall>res. rt_pc x \<noteq> RSend res \<Longrightarrow> oneshots q = oneshots p \<Longrightarrow>
    posted (completion_notifier q) = posted (completion_notifier p) \<Longrightarrow>
    (case pc of
       RReady y \<Rightarrow> rt_pc x = RPollFuture \<and> (\<exists>k. catch_unwind (mt_future (rt_task x) k) = Some y)
     | RSend res \<Rightarrow> rt_pc x = RPollCancel \<and> res = Inl TaskCancelled \<and> core_cancelled p (rt_core x) \<or>
         (\<exists>y. rt_pc x = RReady y \<and> res = ready_outcome (core_cancelled p (rt_core x)) y)
     | RNotify s \<Rightarrow> False
     | RPollFuture \<Rightarrow> rt_pc x = RPollCancel
     | RPollCancel \<Rightarrow> rt_pc x = RPollFuture
     | RMark \<Rightarrow> False
     | RFinish \<Rightarrow> rt_pc x = RMark
     | RRelease \<Rightarrow> rt_pc x = RFinish
     | RDone \<Rightarrow> rt_pc x = RRelease) \<Longrightarrow>
    run_report E p q x pc"
| rr_send: "rt_pc x = RSend res \<Longrightarrow>
    oneshots q = (oneshots p)[rt_core x := snd (os_send (o_ops E) res (oneshots p ! rt_core x))] \<Longrightarrow>
    posted (completion_notifier q) = posted (completion_notifier p) \<Longrightarrow>
    pc = RMark \<or> pc = RNotify (status_from res) \<Longrightarrow> run_report E p q x pc"
| rr_post: "rt_pc x = RNotify s \<Longrightarrow> oneshots q = oneshots p \<Longrightarrow>
    posted (completion_notifier q) = posted (completion_notifier p) \<or>
    posted (completion_notifier q) = posted (completion_notifier p) @ [task_message p (rt_core x) s] \<Longrightarrow>
    run_report E p q x RMark"

lemma run_step_report:
  assumes st: "run_step E i p = Some q"
  obtains y where "i < length (spawned p)" "spawned q = (spawned p)[i := y]" "rt_task y = rt_task (spawned p ! i)"
    "run_report E p q (spawned p ! i) (rt_pc y)"
proof -
  let ?x = "spawned p ! i"
  have i: "i < length (spawned p)" using st by (auto simp: run_step_def split: if_splits)
  note defs = run_step_def set_run_def shard_finish_def Let_def
  show ?thesis
  proof (cases "rt_pc ?x")
    case RPollFuture
    with st i show ?thesis
      by (intro that [of "?x\<lparr>rt_polls := Suc (rt_polls ?x), rt_pc := (case catch_unwind (mt_future (rt_task ?x) (rt_polls ?x))
            of Some y \<Rightarrow> RReady y | None \<Rightarrow> RPollCancel)\<rparr>"])
        (auto simp: defs intro!: rr_none split: option.splits)
  next
    case (RReady y)
    with st i show ?thesis
      by (intro that [of "?x\<lparr>rt_pc := RSend (ready_outcome (core_cancelled p (rt_core ?x)) y)\<rparr>"])
        (auto simp: defs intro!: rr_none)
  next
    case RPollCancel
    with st i show ?thesis
      by (intro that [of "?x\<lparr>rt_pc := (if core_cancelled p (rt_core ?x) then RSend (Inl TaskCancelled) else RPollFuture)\<rparr>"])
        (auto simp: defs intro!: rr_none)
  next
    case (RSend res)
    with st i show ?thesis
      by (intro that [of "?x\<lparr>rt_pc := (if rt_notify ?x then RNotify (status_from res) else RMark)\<rparr>"])
        (auto simp: defs intro!: rr_send)
  next
    case (RNotify s)
    with st i send_completion_posted [of "c_ops E" "task_message p (rt_core ?x) s" "completion_notifier p"]
    show ?thesis by (intro that [of "?x\<lparr>rt_pc := RMark\<rparr>"]) (auto simp: defs intro!: rr_post)
  next
    case RMark
    with st i show ?thesis by (intro that [of "?x\<lparr>rt_pc := RFinish\<rparr>"]) (auto simp: defs intro!: rr_none)
  next
    case RFinish
    with st i show ?thesis by (intro that [of "?x\<lparr>rt_pc := RRelease\<rparr>"]) (auto simp: defs intro!: rr_none)
  next
    case RRelease
    with st i show ?thesis by (intro that [of "?x\<lparr>rt_pc := RDone\<rparr>"]) (auto simp: defs intro!: rr_none)
  qed (use st i in \<open>simp add: run_step_def\<close>)
qed

section \<open>The invariant of the results\<close>

lemma rlxd_lengths:
  assumes "rlxd_addresses p"
  shows "length (submissions p) = length (cores p)" "length (oneshots p) = length (cores p)"
proof -
  have m: "map sub_core (submissions p) = [0..<length (cores p)]"
    using assms by (simp add: rlxd_addresses_def comp_def)
  from arg_cong [OF m, of length] show "length (submissions p) = length (cores p)" by simp
  show "length (oneshots p) = length (cores p)" using assms by (simp add: rlxd_addresses_def)
qed

text \<open>A cancelled task, or one whose future is ready, explains its outcome.\<close>

lemma rexplained_task:
  assumes "rlxd_addresses p" "submitted p t"
  shows "core_cancelled p (mt_core t) \<Longrightarrow> rexplained p (mt_core t) (Inl TaskCancelled)"
    and "catch_unwind (mt_future t k) = Some y \<Longrightarrow>
      rexplained p (mt_core t) (ready_outcome (core_cancelled p (mt_core t)) y)"
  using submitted_core [OF assms] by (simp_all add: rexplained_def explains_cancelled explains_ready)

lemma rlxd_results_step:
  assumes L: "lawful E" and wf: "rlxd_wf E k p" and addr: "rlxd_addresses p"
    and src: "\<And>t. carried E p t \<Longrightarrow> submitted p t" and inv: "rlxd_results E p"
    and st: "rlxd_step E e p = Some q"
  shows "rlxd_results E q"
proof -
  have O1: "oneshot_laws (o_ops E)" using L by (simp add: lawful_def)
  note mono = rexplained_mono [OF L wf addr st]
  consider (lane) i where "e = RStepDispatcher i" | (run) i where "e = RStepTask i"
    | (silent) "\<forall>i. e \<noteq> RStepDispatcher i" "\<forall>i. e \<noteq> RStepTask i" by blast
  then show ?thesis
  proof cases
    case silent
    then have "silent E p q" by (rule silent_step [OF L st])
    then show ?thesis
      by (intro rlxd_results_keep [OF mono inv]) (auto simp: silent_def run_explained_def)
  next
    case (lane i)
    then have "lane_step E i p = Some q" using st by simp
    then obtain d' where i: "i < length (dispatchers p)" and d: "dispatchers q = (dispatchers p)[i := d']"
      and rep: "lane_report E p q (dispatchers p ! i) d'" by (rule lane_step_report [OF O1])
    have lanes: "lane_explained q d' \<Longrightarrow> x \<in> set (dispatchers q) \<Longrightarrow> x \<in> set (dispatchers p) \<or> lane_explained q x" for x
      unfolding d by (auto dest: in_set_update)
    have mem: "dispatchers p ! i \<in> set (dispatchers p)" using i by simp
    from rep show ?thesis
    proof cases
      case lr_none
      then have "lane_explained q d'" by (simp add: lane_explained_def)
      from lr_none show ?thesis
        by (intro rlxd_results_keep [OF mono inv _ lanes [OF \<open>lane_explained q d'\<close>]]) (auto simp: run_explained_def)
    next
      case (lr_cancel t)
      have "carried E p t" using mem unfolding carried_def lr_cancel(1) by force
      then have "rexplained q (mt_core t) (Inl TaskCancelled)" using mono rexplained_task(1) [OF addr] src lr_cancel(3) by blast
      moreover from this have "lane_explained q d'" by (simp add: lane_explained_def lr_cancel)
      ultimately show ?thesis using lr_cancel
        by (intro rlxd_results_send [OF O1 mono inv _ lanes, where r = "mt_core t" and res = "Inl TaskCancelled"]) auto
    next
      case (lr_sender r)
      have "rexplained q r (Inl TaskCancelled)"
        using mono inv mem unfolding rlxd_results_def lane_explained_def by (metis lr_sender(1))
      then have "lane_explained q d'" using lr_sender(5) by (auto simp: lane_explained_def)
      with lr_sender show ?thesis
        by (intro rlxd_results_keep [OF mono inv _ lanes]) auto
    next
      case (lr_post r)
      have "rexplained p r (Inl TaskCancelled)"
        using inv mem unfolding rlxd_results_def lane_explained_def by (metis lr_post(1))
      then have "message_explained q (task_message p r Cancelled)"
        using mono by (auto simp: message_explained_def intro!: exI [of _ "Inl TaskCancelled"])
      moreover have "lane_explained q d'" by (simp add: lane_explained_def lr_post)
      ultimately show ?thesis using lr_post
        by (intro rlxd_results_add [OF mono inv _ lanes]) auto
    qed
  next
    case (run i)
    then have "run_step E i p = Some q" using st by simp
    then obtain y where i: "i < length (spawned p)" and s: "spawned q = (spawned p)[i := y]"
      and t: "rt_task y = rt_task (spawned p ! i)" and rep: "run_report E p q (spawned p ! i) (rt_pc y)"
      by (rule run_step_report)
    let ?x = "spawned p ! i"
    have runs: "run_explained q y \<Longrightarrow> x \<in> set (spawned q) \<Longrightarrow> x \<in> set (spawned p) \<or> run_explained q x" for x
      unfolding s by (auto dest: in_set_update)
    have "run_step E i p = Some q" using st run by simp
    then have d: "dispatchers q = dispatchers p"
      by (rule run_step_cases [OF L]) (simp add: run_frame_def)
    have mem: "?x \<in> set (spawned p)" using i by simp
    then have old: "run_explained p ?x" using inv by (simp add: rlxd_results_def)
    have "carried E p (rt_task ?x)" using mem by (simp add: carried_def)
    then have sub: "submitted p (rt_task ?x)" by (rule src)
    from rep show ?thesis
    proof cases
      case rr_none
      have "run_explained q y"
        using rr_none(5) mono rexplained_task [OF addr sub] old
        by (auto simp: run_explained_def t split: run_pc.splits)
      from rr_none runs [OF this] d show ?thesis by (intro rlxd_results_keep [OF mono inv]) simp_all
    next
      case (rr_send res)
      have res: "rexplained q (rt_core ?x) res" using old mono rr_send(1) by (simp add: run_explained_def)
      then have "run_explained q y" using rr_send(4) by (auto simp: run_explained_def t)
      from rr_send runs [OF this] d res show ?thesis
        by (intro rlxd_results_send [OF O1 mono inv, where r = "rt_core ?x" and res = res]) simp_all
    next
      case (rr_post u)
      then have "run_explained q y" by (simp add: run_explained_def)
      moreover have "message_explained q (task_message p (rt_core ?x) u)"
        using old mono rr_post(2) by (auto simp: run_explained_def message_explained_def)
      ultimately show ?thesis using rr_post runs d by (intro rlxd_results_add [OF mono inv]) auto
    qed
  qed
qed

interpretation rlxd_result: relative_invariant "\<lambda>p. p = rlxd_new E limit cap n name" "rlxd_step E"
    "\<lambda>p. lawful E \<longrightarrow> rlxd_results E p" for E limit cap n name
proof unfold_locales
  show "p = rlxd_new E limit cap n name \<Longrightarrow> lawful E \<longrightarrow> rlxd_results E p" for p
    by (auto simp: rlxd_results_def rlxd_new_def Let_def lane_explained_def notifier_new_def)
  fix p e q
  assume r: "rlxd_reach E limit cap n name p" and inv: "lawful E \<longrightarrow> rlxd_results E p"
    and st: "rlxd_step E e p = Some q"
  show "lawful E \<longrightarrow> rlxd_results E q"
  proof
    assume L: "lawful E"
    from inv L show "rlxd_results E q"
      by (intro rlxd_results_step [OF L rlxd_pool_wf [OF L r] rlxd_pool_addresses [OF L r] _ _ st]
          rlxd_pool_sources [OF L r]) simp_all
  qed
qed

lemma rlxd_pool_results: "lawful E \<Longrightarrow> rlxd_reach E limit cap n name p \<Longrightarrow> rlxd_results E p"
  using rlxd_result.reach_inv by blast

end
