(* ===== verification/RlxdOnce.thy ===== *)
theory RlxdOnce
  imports RlxdResult
begin

text \<open>
  At most one completion message per task of the relaxed pool: a core whose task is still to be
  reported is in no message, and a task that has been reported never waits to be reported again.
\<close>

section \<open>Tasks still to be reported\<close>

definition before_report :: "'r run_task \<Rightarrow> bool" where
  "before_report x \<longleftrightarrow> rt_pc x \<noteq> RMark \<and> rt_pc x \<noteq> RFinish \<and> rt_pc x \<noteq> RRelease \<and> rt_pc x \<noteq> RDone"

definition unreported ::
  "('r, 'n, 's, 'q, 'c, 'o, 'h) env \<Rightarrow> ('r, 'n, 's, 'q, 'c, 'o, 'h) rlxd \<Rightarrow> core_ref \<Rightarrow> bool" where
  "unreported E p r \<longleftrightarrow>
     (\<exists>s \<in> set (submissions p). unsettled (snd s) \<and> sub_core s = r) \<or>
     (\<exists>t. in_lanes (q_ops E) (lane_queue p) t \<and> mt_core t = r) \<or>
     (\<exists>d \<in> set (dispatchers p). r \<in> set (lane_cores d)) \<or>
     (\<exists>x \<in> set (spawned p). before_report x \<and> rt_core x = r)"

lemma in_lanes_place:
  "in_lanes C q t \<Longrightarrow> mt_core t \<in> set (concat (lane_items C q))"
  by (fastforce simp: in_lanes_def lane_items_def)

text \<open>The places, as a set.\<close>

lemma unreported_places: "unreported E p r \<Longrightarrow> r \<in> set (places E p)"
  by (auto simp: unreported_def places_def located_def in_hands_def in_set_conv_nth [of _ "dispatchers p"]
      dest!: in_lanes_place)

lemma unreported_sub:
  assumes C: "chan_laws (q_ops E)" and f: "sub_frame k r pc pc' p q"
    and e: "sub_effect E k (fst (submissions p ! r)) p q pc pc'" and w: "unreported E q c"
  shows "unreported E p c"
proof -
  have r: "r < length (submissions p)" "unsettled (snd (submissions p ! r))" and d: "dispatchers q = dispatchers p"
    and s: "submissions q = (submissions p)[r := (fst (submissions p ! r), pc')]"
    using f by (auto simp: sub_frame_def)
  have here: "c = sub_core (submissions p ! r) \<Longrightarrow> unreported E p c"
    using r nth_mem [OF r(1)] unfolding unreported_def by blast
  have w': "unreported E p c \<or> c = sub_core (submissions p ! r) \<or>
      (\<exists>t. in_lanes (q_ops E) (lane_queue q) t \<and> \<not> in_lanes (q_ops E) (lane_queue p) t \<and> mt_core t = c) \<or>
      (\<exists>x \<in> set (spawned q). before_report x \<and> rt_core x = c)"
    using w unfolding unreported_def s d by (auto dest!: in_set_update)
  from e show ?thesis
  proof cases
    case sub_quiet
    then have "in_lanes (q_ops E) (lane_queue q) = in_lanes (q_ops E) (lane_queue p)" by (simp add: lanes_same_def)
    with w' here sub_quiet show ?thesis by (auto simp: unreported_def)
  next
    case sub_slot
    have "in_lanes (q_ops E) (lane_queue q) = in_lanes (q_ops E) (lane_queue p)"
      by (rule in_lanes_items) (simp_all add: sub_slot)
    with w' here sub_slot show ?thesis by (auto simp: unreported_def)
  next
    case (sub_push i res)
    then have "\<exists>t. in_lanes (q_ops E) (lane_queue q) t \<and> \<not> in_lanes (q_ops E) (lane_queue p) t \<and> mt_core t = c \<Longrightarrow>
        c = sub_core (submissions p ! r)"
      using lane_push_tasks [OF C sub_push(7)] by blast
    moreover have "\<exists>x \<in> set (spawned q). before_report x \<and> rt_core x = c \<Longrightarrow> unreported E p c"
      unfolding sub_push(6) by (simp add: unreported_def)
    ultimately show ?thesis using w' here by blast
  qed (use w' here in \<open>auto simp: unreported_def\<close>)
qed

lemma unreported_lane:
  assumes C: "chan_laws (q_ops E)" and len: "length (txs (lane_queue p)) = length (dispatchers p)"
    and f: "lane_frame i pc pc' p q" and e: "lane_effect E i p q pc pc'" and w: "unreported E q c"
  shows "unreported E p c"
proof -
  have i: "i < length (dispatchers p)" "pc = dispatchers p ! i" and s: "submissions q = submissions p"
    and d: "dispatchers q = (dispatchers p)[i := pc']"
    using f by (auto simp: lane_frame_def)
  have here: "c \<in> set (lane_cores pc) \<Longrightarrow> unreported E p c" using i nth_mem [OF i(1)] by (auto simp: unreported_def)
  have w': "unreported E p c \<or> c \<in> set (lane_cores pc') \<or>
      (\<exists>t. in_lanes (q_ops E) (lane_queue q) t \<and> \<not> in_lanes (q_ops E) (lane_queue p) t \<and> mt_core t = c) \<or>
      (\<exists>x \<in> set (spawned q). before_report x \<and> rt_core x = c)"
    using w unfolding unreported_def s d by (auto dest!: in_set_update)
  from e show ?thesis
  proof cases
    case lane_quiet
    with w' here show ?thesis by (auto simp: lane_quiet_def unreported_def)
  next
    case (lane_recv x)
    with lane_recv_tasks [OF C lane_recv(2)] i(1) len w' show ?thesis
      by (cases x) (auto simp: unreported_def)
  next
    case (lane_take u)
    have "in_lanes (q_ops E) (lane_queue q) = in_lanes (q_ops E) (lane_queue p)"
      by (rule in_lanes_items) (simp_all add: lane_take lane_release_def)
    with lane_take w' here show ?thesis by (auto simp: unreported_def)
  next
    case (lane_exit rs)
    with lane_drop_receiver_tasks [OF C lane_exit(3)] i(1) len w' show ?thesis by (auto simp: unreported_def)
  qed (use w' here in \<open>auto simp: unreported_def\<close>)
qed

lemma run_report_before:
  "run_report E p q x pc \<Longrightarrow> pc \<noteq> RMark \<and> pc \<noteq> RFinish \<and> pc \<noteq> RRelease \<and> pc \<noteq> RDone \<Longrightarrow> before_report x"
  by (erule run_report.cases) (auto simp: before_report_def split: run_pc.splits)

lemma unreported_step:
  assumes L: "lawful E" and wf: "rlxd_wf E k p" and st: "rlxd_step E e p = Some q" and w: "unreported E q c"
  shows "unreported E p c \<or> length (cores p) \<le> c"
proof -
  have C: "chan_laws (q_ops E)" using L by (simp add: lawful_def)
  have len: "length (txs (lane_queue p)) = length (dispatchers p)"
    using rlxd_wf_lanes [OF wf] wf by (simp add: rlxd_wf_def)
  from L wf st show ?thesis
  proof (cases rule: rlxd_event_cases)
    case quiet
    with w show ?thesis by (simp add: quiet_def unreported_def lanes_same_def)
  next
    case (new ls f)
    with w show ?thesis by (auto simp: fresh_submission_def unreported_def)
  next
    case (sub r pc pc')
    from unreported_sub [OF C sub w] show ?thesis by simp
  next
    case (lane i pc pc')
    from unreported_lane [OF C len lane(1,2) w] show ?thesis by simp
  next
    case (run i t)
    with st have "run_step E i p = Some q" by simp
    then obtain y where i: "i < length (spawned p)" and s: "spawned q = (spawned p)[i := y]"
      and t: "rt_task y = rt_task (spawned p ! i)" and rep: "run_report E p q (spawned p ! i) (rt_pc y)"
      by (rule run_step_report)
    have "before_report y \<Longrightarrow> before_report (spawned p ! i)"
      using run_report_before [OF rep] by (simp add: before_report_def)
    then have "\<exists>x \<in> set (spawned q). before_report x \<and> rt_core x = c \<Longrightarrow>
        \<exists>x \<in> set (spawned p). before_report x \<and> rt_core x = c"
      using t nth_mem [OF i] unfolding s by (auto dest!: in_set_update)
    with w run(1) have "unreported E p c" unfolding unreported_def run_frame_def by metis
    then show ?thesis ..
  qed
qed

section \<open>Messages are posted once\<close>

abbreviation rlxd_posted :: "('r, 'n, 's, 'q, 'c, 'o, 'h) rlxd \<Rightarrow> core_ref list" where
  "rlxd_posted p \<equiv> map cm_core (posted (completion_notifier p))"

text \<open>A step posts at most the message of one task, which waited before and waits no more.\<close>

lemma distinct_concat_upt:
  "distinct (concat (map f [0..<n])) \<Longrightarrow> i < n \<Longrightarrow> j < n \<Longrightarrow> x \<in> set (f i) \<Longrightarrow> x \<in> set (f j) \<Longrightarrow> i = (j :: nat)"
  by (induction n) (fastforce simp: less_Suc_eq disjoint_iff)+

lemma hand_places: "i < length (dispatchers p) \<Longrightarrow> r \<in> set (lane_cores (dispatchers p ! i)) \<Longrightarrow> r \<in> set (in_hands p)"
  by (auto simp: in_hands_def)

lemma sub_place:
  "\<exists>s \<in> set (submissions p). unsettled (snd s) \<and> sub_core s = r \<Longrightarrow>
     r \<in> set (map sub_core (filter (\<lambda>s. unsettled (snd s)) (submissions p)))"
  by force

lemma not_unreported_hand:
  assumes dist: "distinct (places E p)" and i: "i < length (dispatchers p)" "r \<in> set (lane_cores (dispatchers p ! i))"
    and q: "dispatchers q = (dispatchers p)[i := LTop]" "submissions q = submissions p" "spawned q = spawned p"
      "lane_queue q = lane_queue p"
  shows "\<not> unreported E q r"
proof
  assume w: "unreported E q r"
  have h: "r \<in> set (in_hands p)" using i by (rule hand_places)
  have n: "r \<notin> set (map rt_core (spawned p))" "r \<notin> set (map sub_core (filter (\<lambda>s. unsettled (snd s)) (submissions p)))"
    "r \<notin> set (concat (lane_items (q_ops E) (lane_queue p)))"
    using dist h unfolding places_def located_def distinct_append set_append by blast+
  have "j = i" if "j < length (dispatchers p)" "r \<in> set (lane_cores (dispatchers p ! j))" for j
    by (rule distinct_concat_upt [of "in_hand_of p", OF _ that(1) i(1) that(2) i(2)])
      (use dist in \<open>simp add: places_def located_def in_hands_def\<close>)
  then have "\<not> (\<exists>d \<in> set (dispatchers q). r \<in> set (lane_cores d))"
    by (auto simp: q(1) in_set_conv_nth [of _ "_[_ := _]"] nth_upd split: if_splits)
  moreover have "\<not> (\<exists>t. in_lanes (q_ops E) (lane_queue p) t \<and> mt_core t = r)" using n(3) in_lanes_place by metis
  moreover have "\<not> (\<exists>x \<in> set (spawned p). before_report x \<and> rt_core x = r)" using n(1) by auto
  ultimately show False using w n(2) sub_place [of p r] unfolding unreported_def q(2-4) by blast
qed

lemma not_unreported_run:
  assumes dist: "distinct (places E p)" and f: "run_frame i y p q" and y: "\<not> before_report y"
  shows "\<not> unreported E q (rt_core (spawned p ! i))"
proof
  let ?r = "rt_core (spawned p ! i)"
  assume w: "unreported E q ?r"
  have i: "i < length (spawned p)" and q: "spawned q = (spawned p)[i := y]" "dispatchers q = dispatchers p"
    "submissions q = submissions p" "lane_queue q = lane_queue p" using f by (simp_all add: run_frame_def)
  have h: "?r \<in> set (map rt_core (spawned p))" using i by simp
  have n: "?r \<notin> set (in_hands p)" "?r \<notin> set (map sub_core (filter (\<lambda>s. unsettled (snd s)) (submissions p)))"
    "?r \<notin> set (concat (lane_items (q_ops E) (lane_queue p)))"
    using dist h unfolding places_def located_def distinct_append set_append by blast+
  have "rt_core (spawned p ! j) \<noteq> ?r" if "j < length (spawned p)" "i \<noteq> j" for j
    using dist that i nth_eq_iff_index_eq [of "map rt_core (spawned p)" j i] by (simp add: places_def located_def)
  then have "\<not> (\<exists>x \<in> set (spawned q). before_report x \<and> rt_core x = ?r)"
    using y by (auto simp: q(1) in_set_conv_nth [of _ "_[_ := _]"] nth_upd split: if_splits)
  moreover have "\<not> (\<exists>t. in_lanes (q_ops E) (lane_queue p) t \<and> mt_core t = ?r)" using n(3) in_lanes_place by metis
  moreover have "\<not> (\<exists>d \<in> set (dispatchers p). ?r \<in> set (lane_cores d))"
    using n(1) hand_places by (metis in_set_conv_nth)
  ultimately show False using w n(2) sub_place [of p ?r] unfolding unreported_def q(2-4) by blast
qed

lemma report_step:
  assumes L: "lawful E" and wf: "rlxd_wf E k p" and ord: "order_inv p" and addr: "rlxd_addresses p"
    and st: "rlxd_step E e p = Some q"
  shows "rlxd_posted q = rlxd_posted p \<or>
    (\<exists>r. rlxd_posted q = rlxd_posted p @ [r] \<and> unreported E p r \<and> \<not> unreported E q r)"
proof -
  have O1: "oneshot_laws (o_ops E)" using L by (simp add: lawful_def)
  note dist = places_distinct(1) [OF wf ord addr]
  consider (lane) i where "e = RStepDispatcher i" | (run) i where "e = RStepTask i"
    | (silent) "\<forall>i. e \<noteq> RStepDispatcher i" "\<forall>i. e \<noteq> RStepTask i" by blast
  then show ?thesis
  proof cases
    case silent
    then have "silent E p q" by (rule silent_step [OF L st])
    then show ?thesis by (simp add: silent_def)
  next
    case (lane i)
    then have ls: "lane_step E i p = Some q" using st by simp
    then obtain d' where i: "i < length (dispatchers p)" and d: "dispatchers q = (dispatchers p)[i := d']"
      and rep: "lane_report E p q (dispatchers p ! i) d'" by (rule lane_step_report [OF O1])
    from rep show ?thesis
    proof cases
      case (lr_post r)
      have r: "r \<in> set (lane_cores (dispatchers p ! i))" by (simp add: lr_post(1))
      with i have w: "unreported E p r" unfolding unreported_def using nth_mem by blast
      have "submissions q = submissions p" "lane_queue q = lane_queue p"
        using ls i lr_post(1) by (auto simp: lane_step_def set_lane_def split: prod.splits)
      with not_unreported_hand [OF dist i r] d lr_post(2,4) have "\<not> unreported E q r" by simp
      with w lr_post(5) show ?thesis by auto
    qed auto
  next
    case (run i)
    then have rs: "run_step E i p = Some q" using st by simp
    then obtain y where i: "i < length (spawned p)" and s: "spawned q = (spawned p)[i := y]"
      and rep: "run_report E p q (spawned p ! i) (rt_pc y)"
      by (rule run_step_report)
    from run_step_cases [OF L rs] obtain x where f: "run_frame i x p q" by blast
    with s i have "x = y" by (metis nth_list_update_eq run_frame_def)
    with f have f: "run_frame i y p q" by simp
    from rep show ?thesis
    proof cases
      case (rr_post u)
      let ?r = "rt_core (spawned p ! i)"
      have w: "unreported E p ?r" using rr_post(2) nth_mem [OF i] unfolding unreported_def before_report_def by fastforce
      have "\<not> unreported E q ?r"
        by (rule not_unreported_run [OF dist f]) (use rr_post(1) in \<open>simp add: before_report_def\<close>)
      with w rr_post(4) show ?thesis by auto
    qed auto
  qed
qed

definition rlxd_once ::
  "('r, 'n, 's, 'q, 'c, 'o, 'h) env \<Rightarrow> ('r, 'n, 's, 'q, 'c, 'o, 'h) rlxd \<Rightarrow> bool" where
  "rlxd_once E p \<longleftrightarrow>
     distinct (rlxd_posted p) \<and> (\<forall>r \<in> set (rlxd_posted p). r < length (cores p) \<and> \<not> unreported E p r)"

lemma rlxd_once_step:
  assumes L: "lawful E" and wf: "rlxd_wf E k p" and ord: "order_inv p" and addr: "rlxd_addresses p"
    and inv: "rlxd_once E p" and st: "rlxd_step E e p = Some q"
  shows "rlxd_once E q"
proof -
  have len: "length (cores p) \<le> length (cores q)"
    using rlxd_step_cores [OF L wf st] by (simp add: cores_grow_def)
  have old: "r < length (cores q) \<and> \<not> unreported E q r" if "r \<in> set (rlxd_posted p)" for r
  proof -
    have "r < length (cores p)" "\<not> unreported E p r" using inv that by (auto simp: rlxd_once_def)
    with unreported_step [OF L wf st, of r] len show ?thesis by auto
  qed
  from report_step [OF L wf ord addr st] consider (same) "rlxd_posted q = rlxd_posted p"
    | (post) r where "rlxd_posted q = rlxd_posted p @ [r]" "unreported E p r" "\<not> unreported E q r" by blast
  then show ?thesis
  proof cases
    case same
    show ?thesis unfolding rlxd_once_def same using inv old unfolding rlxd_once_def by blast
  next
    case (post r)
    have "r < length (cores p)" using unreported_places [OF post(2)] places_distinct(2) [OF wf ord addr] by blast
    moreover have "r \<notin> set (rlxd_posted p)" using inv post(2) unfolding rlxd_once_def by blast
    ultimately show ?thesis unfolding rlxd_once_def post(1)
      using inv old post(3) len unfolding rlxd_once_def by auto
  qed
qed

interpretation rlxd_single: relative_invariant "\<lambda>p. p = rlxd_new E limit cap n name" "rlxd_step E"
    "\<lambda>p. lawful E \<longrightarrow> rlxd_once E p" for E limit cap n name
proof unfold_locales
  show "p = rlxd_new E limit cap n name \<Longrightarrow> lawful E \<longrightarrow> rlxd_once E p" for p
    by (simp add: rlxd_once_def rlxd_new_def Let_def notifier_new_def)
  fix p e q
  assume r: "rlxd_reach E limit cap n name p" and inv: "lawful E \<longrightarrow> rlxd_once E p"
    and st: "rlxd_step E e p = Some q"
  show "lawful E \<longrightarrow> rlxd_once E q"
  proof
    assume L: "lawful E"
    from inv L show "rlxd_once E q"
      by (intro rlxd_once_step [OF L rlxd_pool_wf [OF L r] rlxd_pool_order [OF L r] rlxd_pool_addresses [OF L r] _ st])
        simp
  qed
qed

lemma rlxd_pool_once: "lawful E \<Longrightarrow> rlxd_reach E limit cap n name p \<Longrightarrow> rlxd_once E p"
  using rlxd_single.reach_inv by blast

end
