(* ===== verification/RlxdLive.thy ===== *)
theory RlxdLive
  imports RlxdSweep
begin

text \<open>
  Progress of the relaxed pool after the flag is set: every dispatcher stops and every pending
  submission returns within a fixed number of its own steps, whatever the others do meanwhile.
\<close>

section \<open>The shutdown flag\<close>

lemma rlxd_step_token:
  assumes "rlxd_step E e p = Some q"
  shows "shutdown_token q = shutdown_token p \<or> shutdown_token q = cancel (n_ops E) (shutdown_token p)"
proof (cases "active_event e")
  case True
  with active_others [OF assms] show ?thesis by (simp add: others_same_def)
next
  case False
  show ?thesis
  proof (cases e)
    case (RStepShutdown i)
    with assms show ?thesis
      by (auto simp: stop_step_def rlxd_set_defs split: if_splits stop_pc.splits option.splits prod.splits list.splits)
  next
    case (RTimeoutShutdown i)
    with assms show ?thesis
      by (auto simp: stop_timeout_def rlxd_set_defs split: if_splits stop_pc.splits nat.splits list.splits)
  next
    case (RStepDrop i)
    with assms show ?thesis by (auto simp: rlxd_drop_step_def Let_def split: if_splits drop_pc.splits)
  next
    case (RStepCancel i)
    with assms show ?thesis by (auto simp: label_sweep_step_def split: if_splits option.splits)
  next
    case (RCancelLabels ls)
    with assms show ?thesis by (auto simp: with_manager_def rlxd_cancel_tasks_by_labels_def split: if_splits)
  qed (use assms False in \<open>auto simp: active_event_def with_manager_def rlxd_with_handle_def await_step_def
      detach_step_def stop_abandon_def gauge_defs dest!: gauge_step_frame
      split: if_splits option.splits sum.splits prod.splits\<close>)
qed

lemma rlxd_step_flag: "rlxd_step E e p = Some q \<Longrightarrow> shutting_down p \<Longrightarrow> shutting_down q"
  using rlxd_step_token [of E e p q] by auto

section \<open>The dispatchers\<close>

fun lane_rank :: "'r lane_pc \<Rightarrow> nat" where
  "lane_rank LStopped = 0"
| "lane_rank LPanicked = 0"
| "lane_rank LExit = 1"
| "lane_rank (LPollPermit t) = 3"
| "lane_rank LPollRecv = 3"
| "lane_rank (LSpawn t) = 3"
| "lane_rank (LNotify r) = 3"
| "lane_rank (LCancelled r) = 4"
| "lane_rank (LStore t) = 4"
| "lane_rank (LGot t) = 5"
| "lane_rank (LCount t) = 5"
| "lane_rank _ = 2"

lemma lane_rank_le: "lane_rank d \<le> 5"
  by (cases d) auto

lemma lane_rank_zero: "lane_rank d = 0 \<longleftrightarrow> d = LStopped \<or> d = LPanicked"
  by (cases d) auto

lemma lane_rank_step:
  assumes "shutting_down p" "lane_step E i p = Some q"
  shows "lane_rank (dispatchers q ! i) < lane_rank (dispatchers p ! i)"
  using assms
  by (auto simp: lane_step_def set_lane_def shard_count_def shard_store_def spawn_future_def
      drop_task_def release_queue_permit_def Let_def
      split: lane_pc.splits prod.splits recv.splits if_splits sum.splits)

lemma lane_enabled:
  "i < length (dispatchers p) \<Longrightarrow> 0 < lane_rank (dispatchers p ! i) \<Longrightarrow> lane_step E i p \<noteq> None"
  by (auto simp: lane_step_def Let_def split: lane_pc.splits prod.splits)

lemma dispatcher_untouched:
  assumes L: "lawful E" and st: "rlxd_step E e p = Some q" and e: "e \<noteq> RStepDispatcher i"
  shows "dispatchers q ! i = dispatchers p ! i"
proof (cases "active_event e")
  case False
  with quiet_step [OF L st] show ?thesis by (simp add: quiet_def)
next
  case True
  then consider ls f where "e = RSubmit ls f" | r where "e = RStepSubmit r" | r where "e = RAbandonSubmit r"
    | k where "e = RStepDispatcher k" | k where "e = RStepTask k" by (auto simp: active_event_def)
  then show ?thesis
  proof cases
    case (1 ls f)
    with st show ?thesis by (auto simp: with_manager_def rlxd_submit_begin_def Let_def split: if_splits)
  next
    case (2 r)
    with st show ?thesis
      by (auto simp: submission_step_def rlxd_send_step_def rlxd_set_defs shard_count_def shard_store_def
          split: if_splits submit_pc.splits option.splits prod.splits sum.splits)
  next
    case (3 r)
    with st show ?thesis by (auto simp: submission_abandon_def rlxd_set_defs split: if_splits)
  next
    case (4 k)
    with st e show ?thesis
      by (auto simp: lane_step_def rlxd_set_defs shard_count_def shard_store_def
          split: if_splits lane_pc.splits prod.splits sum.splits)
  next
    case (5 k)
    with st show ?thesis by (auto simp: run_step_def rlxd_set_defs Let_def split: if_splits run_pc.splits)
  qed
qed

definition lane_stopping :: "('r, 'n, 's, 'q, 'c, 'o, 'h) env \<Rightarrow> nat \<Rightarrow> nat \<Rightarrow>
    ('r, 'n, 's, 'q, 'c, 'o, 'h) rlxd \<Rightarrow> bool" where
  "lane_stopping E k i p \<longleftrightarrow> lawful E \<and> rlxd_wf E k p \<and> i < k \<and> shutting_down p"

lemma lane_stopping_step: "lane_stopping E k i p \<Longrightarrow> rlxd_step E e p = Some q \<Longrightarrow> lane_stopping E k i q"
  using rlxd_wf_step [of E k p e q] rlxd_step_flag [of E e p q] by (auto simp: lane_stopping_def)

interpretation lane_stops: ranked "rlxd_step E" "RStepDispatcher i" "lane_stopping E k i"
    "\<lambda>p. lane_rank (dispatchers p ! i)" for E k i
proof unfold_locales
  show "lane_stopping E k i p \<Longrightarrow> rlxd_step E e p = Some q \<Longrightarrow> lane_stopping E k i q" for p e q
    by (rule lane_stopping_step)
  show "lane_stopping E k i p \<Longrightarrow> rlxd_step E e p = Some q \<Longrightarrow> e \<noteq> RStepDispatcher i \<Longrightarrow>
      lane_rank (dispatchers q ! i) \<le> lane_rank (dispatchers p ! i)" for p e q
    using dispatcher_untouched [of E e p q i] by (simp add: lane_stopping_def)
  show "lane_stopping E k i p \<Longrightarrow> rlxd_step E (RStepDispatcher i) p = Some q \<Longrightarrow>
      lane_rank (dispatchers q ! i) < lane_rank (dispatchers p ! i)" for p q
    using lane_rank_step [of p E i q] by (simp add: lane_stopping_def)
  show "lane_stopping E k i p \<Longrightarrow> 0 < lane_rank (dispatchers p ! i) \<Longrightarrow> rlxd_step E (RStepDispatcher i) p \<noteq> None" for p
    using lane_enabled [of i p E] by (simp add: lane_stopping_def rlxd_wf_def)
qed

section \<open>The submissions\<close>

text \<open>The rank of a submission in a pool of \<open>k\<close> lanes: it still reads the queue's length.\<close>

fun submit_rank :: "nat \<Rightarrow> submit_pc \<Rightarrow> nat" where
  "submit_rank k (SubLen j n) = k - j + 6"
| "submit_rank k SubTry = 5"
| "submit_rank k SubRoute = 4"
| "submit_rank k (SubCount j) = 3"
| "submit_rank k (SubStore j) = 2"
| "submit_rank k (SubSpawn j) = 1"
| "submit_rank k (SubSend LaneCheck) = 1"
| "submit_rank k (SubSend LanePollGate) = 3"
| "submit_rank k (SubSend LanePollShutdown) = 1"
| "submit_rank k (SubSend LaneRoute) = 2"
| "submit_rank k (SubSend (LaneSend j)) = 1"
| "submit_rank k _ = 0"

lemma submit_rank_le: "submit_rank k pc \<le> k + 6"
  by (cases "(k, pc)" rule: submit_rank.cases) auto

lemma submit_rank_zero:
  assumes "sub_ok k pc"
  shows "submit_rank k pc = 0 \<longleftrightarrow> pc = SubDirect \<or> (\<exists>res. pc = SubSend (LaneDone res)) \<or> pc = SubSend LaneDropped"
  using assms by (cases "(k, pc)" rule: submit_rank.cases) auto

lemma submit_rank_step:
  assumes "shutting_down p" "length (txs (lane_queue p)) = k" "submission_step E r p = Some q"
  shows "submit_rank k (snd (submissions q ! r)) < submit_rank k (snd (submissions p ! r))"
proof (cases "snd (submissions p ! r)")
  case (SubSend pc)
  with assms show ?thesis
    by (cases pc) (auto simp: submission_step_def rlxd_send_step_def set_submission_def Let_def
        split: if_splits prod.splits sum.splits option.splits)
qed (use assms in \<open>auto simp: submission_step_def rlxd_set_defs shard_count_def shard_store_def
    split: if_splits prod.splits sum.splits option.splits\<close>)

lemma submission_enabled:
  assumes "r < length (submissions p)" "0 < submit_rank k (snd (submissions p ! r))"
  shows "submission_step E r p \<noteq> None"
proof (cases "snd (submissions p ! r)")
  case (SubSend pc)
  with assms show ?thesis
    by (cases pc) (auto simp: submission_step_def rlxd_send_step_def Let_def split: prod.splits sum.splits)
qed (use assms in \<open>auto simp: submission_step_def split: prod.splits\<close>)

text \<open>A submission that has not returned and was not dropped has a next step.\<close>

lemma submission_next:
  assumes "r < length (submissions p)" "sub_ok k (snd (submissions p ! r))"
  shows "rlxd_submit_result p r \<noteq> None \<or> snd (submissions p ! r) = SubSend LaneDropped \<or>
    submission_step E r p \<noteq> None"
  using submission_enabled [OF assms(1), of k E] submit_rank_zero [OF assms(2)]
  by (auto simp: rlxd_submit_result_def split: sum.splits)

lemma submission_untouched:
  assumes L: "lawful E" and st: "rlxd_step E e p = Some q" and e: "e \<noteq> RStepSubmit r"
    and r: "r < length (submissions p)"
  shows "r < length (submissions q) \<and> submit_rank k (snd (submissions q ! r)) \<le> submit_rank k (snd (submissions p ! r))"
proof (cases "active_event e")
  case False
  with quiet_step [OF L st] r show ?thesis by (simp add: quiet_def)
next
  case True
  then consider ls f where "e = RSubmit ls f" | s where "e = RStepSubmit s" | s where "e = RAbandonSubmit s"
    | i where "e = RStepDispatcher i" | i where "e = RStepTask i" by (auto simp: active_event_def)
  then show ?thesis
  proof cases
    case (1 ls f)
    with st r show ?thesis
      by (auto simp: with_manager_def rlxd_submit_begin_def Let_def nth_append split: if_splits)
  next
    case (2 s)
    then have "s \<noteq> r" using e by blast
    with 2 st r show ?thesis
      by (auto simp: submission_step_def rlxd_send_step_def rlxd_set_defs shard_count_def shard_store_def
          split: if_splits submit_pc.splits option.splits prod.splits sum.splits)
  next
    case (3 s)
    with st r show ?thesis by (auto simp: submission_abandon_def rlxd_set_defs nth_upd split: if_splits)
  next
    case (4 i)
    with st r show ?thesis
      by (auto simp: lane_step_def rlxd_set_defs shard_count_def shard_store_def
          split: if_splits lane_pc.splits prod.splits sum.splits)
  next
    case (5 i)
    with st r show ?thesis by (auto simp: run_step_def rlxd_set_defs Let_def split: if_splits run_pc.splits)
  qed
qed

definition submission_closing :: "('r, 'n, 's, 'q, 'c, 'o, 'h) env \<Rightarrow> nat \<Rightarrow> nat \<Rightarrow>
    ('r, 'n, 's, 'q, 'c, 'o, 'h) rlxd \<Rightarrow> bool" where
  "submission_closing E k r p \<longleftrightarrow>
     lawful E \<and> rlxd_wf E k p \<and> r < length (submissions p) \<and> shutting_down p"

interpretation rlxd_submission_ends: ranked "rlxd_step E" "RStepSubmit r" "submission_closing E k r"
    "\<lambda>p. submit_rank k (snd (submissions p ! r))" for E k r
proof unfold_locales
  have len: "submission_step E r p = Some q \<Longrightarrow> length (submissions q) = length (submissions p)" for p q
    by (auto simp: submission_step_def rlxd_send_step_def rlxd_set_defs shard_count_def shard_store_def
        split: if_splits submit_pc.splits option.splits prod.splits sum.splits)
  show "submission_closing E k r p \<Longrightarrow> rlxd_step E e p = Some q \<Longrightarrow> submission_closing E k r q" for p e q
    using rlxd_wf_step [of E k p e q] rlxd_step_flag [of E e p q] submission_untouched [of E e p q r k] len [of p q]
    by (cases "e = RStepSubmit r") (auto simp: submission_closing_def)
  show "submission_closing E k r p \<Longrightarrow> rlxd_step E e p = Some q \<Longrightarrow> e \<noteq> RStepSubmit r \<Longrightarrow>
      submit_rank k (snd (submissions q ! r)) \<le> submit_rank k (snd (submissions p ! r))" for p e q
    using submission_untouched [of E e p q r k] by (simp add: submission_closing_def)
  show "submission_closing E k r p \<Longrightarrow> rlxd_step E (RStepSubmit r) p = Some q \<Longrightarrow>
      submit_rank k (snd (submissions q ! r)) < submit_rank k (snd (submissions p ! r))" for p q
    using submit_rank_step [of p k E r q] by (simp add: submission_closing_def rlxd_wf_def lanes_inv_def)
  show "submission_closing E k r p \<Longrightarrow> 0 < submit_rank k (snd (submissions p ! r)) \<Longrightarrow>
      rlxd_step E (RStepSubmit r) p \<noteq> None" for p
    using submission_enabled [of r p k E] by (simp add: submission_closing_def)
qed

end
