(* ===== verification/RlxdStop.thy ===== *)
theory RlxdStop
  imports RlxdOnce RlxdLive
begin

text \<open>
  What ends in the relaxed pool: a call of \<open>shutdown\<close>, which with its timers can always return on
  its own, and a running task that has been cancelled.
\<close>

section \<open>A call of \<open>shutdown\<close>\<close>

text \<open>The steps a sweep has left when nobody else moves.\<close>

definition listed_from :: "nat \<Rightarrow> ('r, 'n, 's, 'q, 'c, 'o, 'h) rlxd \<Rightarrow> nat" where
  "listed_from k p = sum_list (map (\<lambda>d. length (shard_tokens (cores p) None d)) (drop k (shards p)))"

fun sweep_rank :: "sweep_pc \<Rightarrow> ('r, 'n, 's, 'q, 'c, 'o, 'h) rlxd \<Rightarrow> nat" where
  "sweep_rank (SweepRead k rs) p = length (shards p) - k + length rs + listed_from k p + 2"
| "sweep_rank (SweepCancel rs) p = length rs + 1"
| "sweep_rank SweepDone p = 0"

fun stop_rank :: "stop_pc \<Rightarrow> ('r, 'n, 's, 'q, 'c, 'o, 'h) rlxd \<Rightarrow> nat" where
  "stop_rank (StopStart m) p =
     length (txs (lane_queue p)) + sweep_rank (SweepRead 0 []) p + length (shards p) + length (join_handles p) + 12"
| "stop_rank (StopCancel m) p =
     length (txs (lane_queue p)) + sweep_rank (SweepRead 0 []) p + length (shards p) + length (join_handles p) + 11"
| "stop_rank (StopClose m k) p =
     length (txs (lane_queue p)) - k + sweep_rank (SweepRead 0 []) p + length (shards p) + length (join_handles p) + 10"
| "stop_rank (StopSweep pc) p = sweep_rank pc p + length (shards p) + length (join_handles p) + 9"
| "stop_rank (StopCount a k n) p = length (shards p) - k + length (join_handles p) + 8"
| "stop_rank (StopWait a k n) p = (if k = 0 then 0 else length (shards p) - k + 1) + length (join_handles p) + 7"
| "stop_rank (StopTakeHandles a) p = length (join_handles p) + 6"
| "stop_rank (StopJoin a ls) p = length ls + 5"
| "stop_rank (StopSink a) p = 4"
| "stop_rank StopTakeNotifier p = 3"
| "stop_rank StopJoinNotifier p = 2"
| "stop_rank StopDrop p = 1"
| "stop_rank StopDone p = 0"
| "stop_rank StopAbandoned p = 0"

definition call_rank :: "nat \<Rightarrow> ('r, 'n, 's, 'q, 'c, 'o, 'h) rlxd \<Rightarrow> nat" where
  "call_rank i p = stop_rank (stops p ! i) p"

text \<open>With the timers, the call can always move on its own.\<close>

definition stop_event :: "nat \<Rightarrow> ('r, 'n, 's, 'q, 'c, 'o, 'h) rlxd \<Rightarrow> ('r, 'h) rlxd_event" where
  "stop_event i p =
     (case stops p ! i of
        StopWait a 0 n \<Rightarrow> RTimeoutShutdown i
      | StopJoin a (l # ls) \<Rightarrow> RTimeoutShutdown i
      | StopJoinNotifier \<Rightarrow> RTimeoutShutdown i
      | _ \<Rightarrow> RStepShutdown i)"

lemma listed_from_read:
  "k < length (shards p) \<Longrightarrow>
     listed_from k p = length (shard_tokens (cores p) None (shards p ! k)) + listed_from (Suc k) p"
  by (simp add: listed_from_def Cons_nth_drop_Suc [symmetric])

lemma sweep_advance:
  assumes "sweep_step N None (shards p) pc (cores p) = Some (pc', h)" "shards q = shards p"
    and "\<forall>k rs. pc' = SweepRead k rs \<longrightarrow> cores q = cores p"
  shows "sweep_rank pc' q < sweep_rank pc p"
proof (cases pc)
  case (SweepRead k rs)
  show ?thesis
  proof (cases "k < length (shards p)")
    case True
    with SweepRead assms have "pc' = SweepRead (Suc k) (rs @ shard_tokens (cores p) None (shards p ! k))"
      "cores q = cores p" by auto
    with SweepRead listed_from_read [OF True] True assms(2) show ?thesis by (simp add: listed_from_def)
  next
    case False
    with SweepRead assms have "pc' = SweepCancel rs" by simp
    with SweepRead show ?thesis by simp
  qed
next
  case (SweepCancel rs)
  with assms show ?thesis by (cases rs) auto
qed (use assms in simp)

lemma stop_advance:
  assumes i: "i < length (stops p)" and n: "stops p ! i \<noteq> StopDone" "stops p ! i \<noteq> StopAbandoned"
  shows "\<exists>q. rlxd_step E (stop_event i p) p = Some q \<and> i < length (stops q) \<and>
    stops q ! i \<noteq> StopAbandoned \<and> call_rank i q < call_rank i p"
proof (cases "stops p ! i")
  case (StopSweep pc)
  show ?thesis
  proof (cases "sweep_step (n_ops E) None (shards p) pc (cores p)")
    case None
    with StopSweep i show ?thesis
      by (intro exI [of _ "set_stop i (StopCount False 0 0) p"])
        (simp add: stop_event_def stop_step_def set_stop_def call_rank_def)
  next
    case (Some x)
    obtain pc' h where x: "x = (pc', h)" by fastforce
    let ?q = "set_stop i (StopSweep pc') (p\<lparr>cores := h\<rparr>)"
    have "\<forall>k rs. pc' = SweepRead k rs \<longrightarrow> cores ?q = cores p"
      using Some by (cases "(n_ops E, None :: task_label set option, shards p, pc, cores p)" rule: sweep_step.cases)
        (auto simp: x set_stop_def)
    from sweep_advance [OF Some [unfolded x] _ this] have "sweep_rank pc' ?q < sweep_rank pc p"
      by (simp add: set_stop_def)
    with StopSweep Some x i show ?thesis
      by (intro exI [of _ ?q]) (simp add: stop_event_def stop_step_def set_stop_def call_rank_def)
  qed
next
  case (StopWait a k m)
  with i show ?thesis
    by (cases k) (auto simp: stop_event_def stop_step_def stop_timeout_def set_stop_def call_rank_def)
next
  case (StopJoin a ls)
  with i show ?thesis
    by (cases ls) (auto simp: stop_event_def stop_step_def stop_timeout_def set_stop_def call_rank_def)
next
  case StopTakeNotifier
  with i show ?thesis
    by (cases "take_join_handle (completion_notifier p)")
      (auto simp: stop_event_def stop_step_def set_stop_def call_rank_def)
qed (use i n in \<open>auto simp: stop_event_def stop_step_def stop_timeout_def set_stop_def call_rank_def listed_from_def lane_close_def\<close>)

interpretation stop_call: solo "rlxd_step E" "stop_event i" 
    "\<lambda>p. i < length (stops p) \<and> stops p ! i \<noteq> StopAbandoned" "call_rank i" "\<lambda>p. stops p ! i = StopDone" for E i
  by unfold_locales (use stop_advance in blast)

section \<open>A cancelled task\<close>

fun run_rank :: "'r run_pc \<Rightarrow> nat" where
  "run_rank RPollFuture = 7"
| "run_rank (RReady x) = 6"
| "run_rank RPollCancel = 6"
| "run_rank (RSend res) = 5"
| "run_rank (RNotify s) = 4"
| "run_rank RMark = 3"
| "run_rank RFinish = 2"
| "run_rank RRelease = 1"
| "run_rank RDone = 0"

lemma run_rank_le: "run_rank pc \<le> 7"
  by (cases pc) auto

lemma run_rank_zero: "run_rank pc = 0 \<longleftrightarrow> pc = RDone"
  by (cases pc) auto

lemma spawned_other:
  assumes L: "lawful E" and st: "rlxd_step E e p = Some q" and i: "i < length (spawned p)" and e: "e \<noteq> RStepTask i"
  shows "i < length (spawned q) \<and> spawned q ! i = spawned p ! i"
proof -
  have O1: "oneshot_laws (o_ops E)" using L by (simp add: lawful_def)
  consider (lane) k where "e = RStepDispatcher k" | (run) k where "e = RStepTask k"
    | (silent) "\<forall>i. e \<noteq> RStepDispatcher i" "\<forall>i. e \<noteq> RStepTask i" by blast
  then show ?thesis
  proof cases
    case silent
    then have "silent E p q" by (rule silent_step [OF L st])
    with i show ?thesis by (auto simp: silent_def nth_append)
  next
    case (lane k)
    then have "lane_step E k p = Some q" using st by simp
    then show ?thesis
      by (rule lane_step_report [OF O1]) (use i in \<open>auto elim!: lane_report.cases simp: nth_append\<close>)
  next
    case (run k)
    then have "run_step E k p = Some q" "k \<noteq> i" using st e by auto
    then show ?thesis using i by (auto elim!: run_step_report)
  qed
qed

text \<open>A running task that has been cancelled, with its result still to be chosen or chosen as such.\<close>

definition rlxd_doomed :: "('r, 'n, 's, 'q, 'c, 'o, 'h) env \<Rightarrow> nat \<Rightarrow> nat \<Rightarrow> core_ref \<Rightarrow>
    ('r, 'n, 's, 'q, 'c, 'o, 'h) rlxd \<Rightarrow> bool" where
  "rlxd_doomed E k i r p \<longleftrightarrow>
     lawful E \<and> rlxd_wf E k p \<and> i < length (spawned p) \<and> rt_core (spawned p ! i) = r \<and>
     r < length (cores p) \<and> core_cancelled p r"

lemma rlxd_doomed_step:
  assumes d: "rlxd_doomed E k i r p" and st: "rlxd_step E e p = Some q"
  shows "rlxd_doomed E k i r q"
proof -
  have L: "lawful E" and wf: "rlxd_wf E k p" and i: "i < length (spawned p)" using d by (simp_all add: rlxd_doomed_def)
  have "r < length (cores q) \<and> core_cancelled q r"
    using rlxd_step_cores [OF L wf st] d by (auto simp: rlxd_doomed_def cores_grow_def core_cancelled_def)
  moreover have "i < length (spawned q) \<and> rt_core (spawned q ! i) = r"
  proof (cases "e = RStepTask i")
    case True
    then have "run_step E i p = Some q" using st by simp
    then show ?thesis by (rule run_step_report) (use d in \<open>simp add: rlxd_doomed_def\<close>)
  next
    case False
    from spawned_other [OF L st i False] d show ?thesis by (simp add: rlxd_doomed_def)
  qed
  ultimately show ?thesis using rlxd_wf_step [OF L wf st] L by (simp add: rlxd_doomed_def)
qed

interpretation cancelled_run: ranked "rlxd_step E" "RStepTask i" "rlxd_doomed E k i r"
    "\<lambda>p. run_rank (rt_pc (spawned p ! i))" for E k i r
proof unfold_locales
  show "rlxd_doomed E k i r p \<Longrightarrow> rlxd_step E e p = Some q \<Longrightarrow> rlxd_doomed E k i r q" for p e q
    by (rule rlxd_doomed_step)
  show "rlxd_doomed E k i r p \<Longrightarrow> rlxd_step E e p = Some q \<Longrightarrow> e \<noteq> RStepTask i \<Longrightarrow>
      run_rank (rt_pc (spawned q ! i)) \<le> run_rank (rt_pc (spawned p ! i))" for p e q
    using spawned_other [of E e p q i] by (simp add: rlxd_doomed_def)
  show "rlxd_doomed E k i r p \<Longrightarrow> rlxd_step E (RStepTask i) p = Some q \<Longrightarrow>
      run_rank (rt_pc (spawned q ! i)) < run_rank (rt_pc (spawned p ! i))" for p q
    by (auto simp: rlxd_doomed_def run_step_def set_run_def shard_finish_def Let_def split: run_pc.splits option.splits)
  show "rlxd_doomed E k i r p \<Longrightarrow> 0 < run_rank (rt_pc (spawned p ! i)) \<Longrightarrow> rlxd_step E (RStepTask i) p \<noteq> None" for p
    by (auto simp: rlxd_doomed_def run_step_def Let_def split: run_pc.splits)
qed

text \<open>Its result, once chosen, is that it was cancelled.\<close>

definition reports_cancelled :: "nat \<Rightarrow> ('r, 'n, 's, 'q, 'c, 'o, 'h) rlxd \<Rightarrow> bool" where
  "reports_cancelled i p \<longleftrightarrow>
     (case rt_pc (spawned p ! i) of
        RSend res \<Rightarrow> res = Inl TaskCancelled
      | RNotify s \<Rightarrow> s = Cancelled
      | _ \<Rightarrow> True)"

lemma reports_cancelled_step:
  assumes d: "rlxd_doomed E k i r p" and c: "reports_cancelled i p" and st: "rlxd_step E e p = Some q"
  shows "reports_cancelled i q"
proof (cases "e = RStepTask i")
  case True
  with assms show ?thesis
    by (auto simp: rlxd_doomed_def reports_cancelled_def run_step_def set_run_def shard_finish_def Let_def
        split: run_pc.splits option.splits if_splits)
next
  case False
  with spawned_other [of E e p q i] assms show ?thesis by (simp add: rlxd_doomed_def reports_cancelled_def)
qed

interpretation cancelled_report: invariant "\<lambda>_. False" "rlxd_step E"
    "\<lambda>p. rlxd_doomed E k i r p \<and> reports_cancelled i p" for E k i r
  by unfold_locales (auto intro: rlxd_doomed_step reports_cancelled_step)

end
