(* ===== verification/RlxdExample.thy ===== *)
theory RlxdExample
  imports ManagerExample RlxdPool
begin

text \<open>
  Concrete runs of the relaxed pool on the concrete crates of \<open>Externals\<close>, for the witnesses:
  concurrency 1, queue capacity 2, one or two lanes.
\<close>

type_synonym example_rlxd =
  "(nat, nat set \<times> nat set, nat, nat queue_message list \<times> bool \<times> nat,
    internal_completion_message list \<times> bool \<times> nat, nat task_result option \<times> bool, bool) rlxd"

abbreviation rlxd_example_new :: "nat \<Rightarrow> example_rlxd" where
  "rlxd_example_new n \<equiv> rlxd_new example_env 1 2 n ''p''"

abbreviation rlxd_run :: "nat \<Rightarrow> (nat, bool) rlxd_event list \<Rightarrow> example_rlxd option" where
  "rlxd_run n es \<equiv> run (rlxd_step example_env) es (rlxd_example_new n)"

definition rlxd_after :: "nat \<Rightarrow> (nat, bool) rlxd_event list \<Rightarrow> example_rlxd" where
  "rlxd_after n es = (case rlxd_run n es of Some p \<Rightarrow> p | None \<Rightarrow> rlxd_example_new n)"

lemma rlxd_after_run: "rlxd_run n es \<noteq> None \<Longrightarrow> rlxd_run n es = Some (rlxd_after n es)"
  by (auto simp: rlxd_after_def)

lemma rlxd_reach_after: "rlxd_run n es \<noteq> None \<Longrightarrow> rlxd_reach example_env 1 2 n ''p'' (rlxd_after n es)"
  by (rule reach_run [OF reach_init rlxd_after_run]) simp_all

lemma rlxd_run_after:
  assumes "rlxd_run n es \<noteq> None" "rlxd_run n (es @ fs) \<noteq> None"
  shows "run (rlxd_step example_env) fs (rlxd_after n es) = Some (rlxd_after n (es @ fs))"
  using assms by (auto simp: rlxd_after_def run_append)

section \<open>Two lanes\<close>

text \<open>Task 0 is dispatched directly, into shard 0; task 1 is queued in lane 1.\<close>

definition both_submitted :: "(nat, bool) rlxd_event list" where
  "both_submitted = [RAddHandlerInit, RAddHandlerPush True] @
     RSubmit {''a''} (\<lambda>k. if k = 0 then Pending else Ready 7) # replicate 8 (RStepSubmit 0) @
     RSubmit {''b''} (\<lambda>k. Ready 8) # replicate 8 (RStepSubmit 1)"

text \<open>Task 0 has run to its end, and lane 1 has started task 1.\<close>

definition both_started :: "(nat, bool) rlxd_event list" where
  "both_started = both_submitted @ replicate 9 (RStepTask 0) @ replicate 9 (RStepDispatcher 1)"

text \<open>Task 0 has run to its end; its caller has its result and the notifier has handled its message.\<close>

definition first_reported :: "(nat, bool) rlxd_event list" where
  "first_reported = both_submitted @ replicate 9 (RStepTask 0) @ replicate 2 (RAwaitResult 0) @
     [RStepNotifier 5, RStepNotifier 6, RStepNotifier 7]"

definition label_cancelled :: "(nat, bool) rlxd_event list" where
  "label_cancelled = both_submitted @ [RCancelLabels {''a''}]"

definition first_doomed :: "(nat, bool) rlxd_event list" where
  "first_doomed = both_submitted @ [RStepTask 0, RCancelHandle 0]"

definition stop_begun :: "(nat, bool) rlxd_event list" where
  "stop_begun = both_submitted @ RShutdown ForcefulCancel # replicate 5 (RStepShutdown 0)"

text \<open>
  The submission through one clone has its permit when another clone is shut down forcefully; both
  dispatchers stop, \<open>shutdown\<close> returns, and the submission goes on.
\<close>

definition missed_by_shutdown :: "(nat, bool) rlxd_event list" where
  "missed_by_shutdown = RCloneManager # RSubmit {} (\<lambda>k. Pending) # replicate 4 (RStepSubmit 0) @
     RShutdown ForcefulCancel # replicate 14 (RStepShutdown 0) @
     replicate 2 (RStepDispatcher 0) @ replicate 2 (RStepDispatcher 1) @ replicate 6 (RStepShutdown 0) @
     replicate 4 (RStepSubmit 0)"

section \<open>One lane\<close>

text \<open>
  Task 0 is dispatched directly and task 1 is queued. The dispatcher takes task 1 out of its lane,
  task 0 ends, and the submission of task 2 finds an empty queue and a free permit.
\<close>

definition first_two :: "(nat, bool) rlxd_event list" where
  "first_two = RSubmit {} (\<lambda>k. Ready 7) # replicate 7 (RStepSubmit 0) @
     RSubmit {} (\<lambda>k. Ready 8) # replicate 7 (RStepSubmit 1)"

definition third_first :: "(nat, bool) rlxd_event list" where
  "third_first = replicate 2 (RStepDispatcher 0) @ replicate 6 (RStepTask 0) @
     RSubmit {} (\<lambda>k. Ready 9) # replicate 7 (RStepSubmit 2) @
     replicate 6 (RStepTask 1) @ replicate 7 (RStepDispatcher 0)"

lemma rlxd_example_runs:
  "rlxd_run 2 both_submitted \<noteq> None" "rlxd_run 2 both_started \<noteq> None" "rlxd_run 2 label_cancelled \<noteq> None"
  "rlxd_run 2 stop_begun \<noteq> None" "rlxd_run 1 first_two \<noteq> None" "rlxd_run 1 (first_two @ third_first) \<noteq> None"
  "rlxd_run 2 first_reported \<noteq> None" "rlxd_run 2 first_doomed \<noteq> None"
  by code_simp+

end
