(* ===== verification/RlxdAwait.thy ===== *)
theory RlxdAwait
  imports RlxdResult
begin

text \<open>
  What the outside sees of a finished task of the relaxed pool: the result that \<open>await_result\<close>
  returns through its handle, and at most one completion message.
\<close>

section \<open>Awaited results\<close>

definition rlxd_awaits ::
  "('r, 'n, 's, 'q, 'c, 'o, 'h) env \<Rightarrow> ('r, 'n, 's, 'q, 'c, 'o, 'h) rlxd \<Rightarrow> bool" where
  "rlxd_awaits E p \<longleftrightarrow>
     length (handles p) = length (cores p) \<and>
     (\<forall>r < length (handles p). th_core (hs_handle (handles p ! r)) = r \<and>
        handle_ok (rexplained p r) (closed_error E p r) (handles p ! r))"

lemma rlxd_submit_result_handle: "rlxd_submit_result p r = Some (Inr t) \<Longrightarrow> t = hs_handle (handles p ! r)"
  by (auto simp: rlxd_submit_result_def split: submit_pc.splits lane_send_pc.splits sum.splits)

lemma rlxd_with_handle_step:
  "rlxd_with_handle r f p = Some q \<Longrightarrow> f (hs_handle (handles p ! r)) = Some q"
  by (auto simp: rlxd_with_handle_def split: if_splits option.splits sum.splits dest: rlxd_submit_result_handle)

lemma rlxd_handles_frame:
  assumes L: "lawful E" and wf: "rlxd_wf E k p" and st: "rlxd_step E e p = Some q"
    and e: "\<forall>ls f. e \<noteq> RSubmit ls f" "\<forall>r. e \<noteq> RAwaitResult r" "\<forall>r. e \<noteq> RDetach r"
  shows "handles q = handles p \<and> length (cores q) = length (cores p)"
proof (cases "active_event e")
  case True
  then consider (sub) r where "e = RStepSubmit r" | (abandon) r where "e = RAbandonSubmit r"
    | (lane) i where "e = RStepDispatcher i" | (run) i where "e = RStepTask i"
    using e(1) by (auto simp: active_event_def)
  then show ?thesis
  proof cases
    case (sub r)
    then have "submission_step E r p = Some q" using st by simp
    then show ?thesis by (rule submission_step_cases [OF L wf]) (simp add: sub_frame_def)
  next
    case (abandon r)
    with st show ?thesis by (auto simp: submission_abandon_def set_submission_def split: if_splits)
  next
    case (lane i)
    then have "lane_step E i p = Some q" using st by simp
    then show ?thesis by (rule lane_step_cases [OF L wf]) (simp add: lane_frame_def)
  next
    case (run i)
    then have "run_step E i p = Some q" using st by simp
    then show ?thesis by (rule run_step_cases [OF L]) (use run_effect_cores in \<open>fastforce simp: run_frame_def\<close>)
  qed
next
  case False
  have "length (cores q) = length (cores p)"
    using quiet_step [OF L st False] by (simp add: quiet_def cores_kept_def)
  moreover have "handles q = handles p"
  proof (cases e)
    case (RStepShutdown i)
    with st show ?thesis
      by (auto simp: stop_step_def set_stop_def split: if_splits stop_pc.splits option.splits list.splits prod.splits)
  next
    case (RTimeoutShutdown i)
    with st show ?thesis
      by (auto simp: stop_timeout_def set_stop_def split: if_splits stop_pc.splits nat.splits list.splits)
  next
    case (RStepDrop i)
    with st show ?thesis by (auto simp: rlxd_drop_step_def Let_def split: if_splits drop_pc.splits)
  qed (use st e False in \<open>auto simp: active_event_def with_manager_def rlxd_with_handle_def label_sweep_step_def
      stop_abandon_def rlxd_cancel_tasks_by_labels_def gauge_defs dest!: gauge_step_frame
      split: if_splits option.splits sum.splits prod.splits\<close>)
  ultimately show ?thesis by simp
qed

lemma rlxd_handle_mono:
  assumes L: "lawful E" and wf: "rlxd_wf E k p" and addr: "rlxd_addresses p"
    and st: "rlxd_step E e p = Some q" and r: "r < length (cores p)"
    and ok: "handle_ok (rexplained p r) (closed_error E p r) h"
  shows "handle_ok (rexplained q r) (closed_error E q r) h"
proof -
  have "task_id (cores q ! r) = task_id (cores p ! r)"
    using rlxd_step_cores [OF L wf st] r by (simp add: cores_grow_def)
  then have "closed_error E q r = closed_error E p r" by (simp add: closed_error_def)
  then show ?thesis using handle_ok_weaken [OF ok rexplained_mono [OF L wf addr st]] by simp
qed

lemma rlxd_awaits_step:
  assumes L: "lawful E" and wf: "rlxd_wf E k p" and addr: "rlxd_addresses p" and res: "rlxd_results E p"
    and inv: "rlxd_awaits E p" and st: "rlxd_step E e p = Some q"
  shows "rlxd_awaits E q"
proof -
  have O1: "oneshot_laws (o_ops E)" using L by (simp add: lawful_def)
  have len: "length (handles p) = length (cores p)" using inv by (simp add: rlxd_awaits_def)
  have h: "th_core (hs_handle (handles p ! r)) = r" "handle_ok (rexplained p r) (closed_error E p r) (handles p ! r)"
    if "r < length (handles p)" for r using inv that by (simp_all add: rlxd_awaits_def)
  have mono: "handle_ok (rexplained q r) (closed_error E q r) x"
    if "r < length (handles p)" "handle_ok (rexplained p r) (closed_error E p r) x" for r x
    using rlxd_handle_mono [OF L wf addr st _ that(2)] that(1) len by simp
  have upd: ?thesis if "r < length (handles p)" "handles q = (handles p)[r := x]"
    "handle_ok (rexplained p r) (closed_error E p r) x" "th_core (hs_handle x) = r"
    "length (cores q) = length (cores p)" for r x
    using that len h mono by (simp add: rlxd_awaits_def nth_upd)
  consider (sub) ls f where "e = RSubmit ls f" | (aw) r where "e = RAwaitResult r" | (det) r where "e = RDetach r"
    | (other) "\<forall>ls f. e \<noteq> RSubmit ls f" "\<forall>r. e \<noteq> RAwaitResult r" "\<forall>r. e \<noteq> RDetach r" by blast
  then show ?thesis
  proof cases
    case sub
    show ?thesis
    proof (cases "shutting_down p \<or> lanes_is_closed (q_ops E) (lane_queue p)")
      case True
      with sub st inv show ?thesis by (simp add: with_manager_def rlxd_submit_begin_def split: if_splits)
    next
      case False
      with sub st have 2: "handles q = handles p @
          [\<lparr>hs_handle = handle_new (length (cores p)), hs_polling = False, hs_result = None\<rparr>]"
        "length (cores q) = Suc (length (cores p))"
        by (auto simp: with_manager_def rlxd_submit_begin_def Let_def split: if_splits)
      have new: "th_core (handle_new (length (cores p))) = length (handles p)" by (simp add: handle_new_def len)
      have old: "\<forall>i < length (handles p). th_core (hs_handle (handles p ! i)) = i \<and>
          handle_ok (rexplained q i) (closed_error E q i) (handles p ! i)" using h mono by simp
      show ?thesis unfolding rlxd_awaits_def 2 using old new len by (simp add: nth_append less_Suc_eq)
    qed
  next
    case (aw r)
    then have a: "await_step E r (hs_handle (handles p ! r)) p = Some q" using st by (auto dest: rlxd_with_handle_step)
    then have r: "r < length (handles p)" and c: "cores q = cores p"
      by (auto simp: await_step_def split: if_splits prod.splits)
    have "result_value E p r = Some v \<Longrightarrow> rexplained p r v" for v
      using res r len rlxd_lengths [OF addr] by (simp add: rlxd_results_def)
    from await_step_handle [OF O1 a h [OF r] this] show ?thesis using upd c by metis
  next
    case (det r)
    then have d: "detach_step E r (hs_handle (handles p ! r)) p = Some q" using st by (auto dest: rlxd_with_handle_step)
    then have r: "r < length (handles p)" and c: "cores q = cores p"
      by (auto simp: detach_step_def split: if_splits prod.splits)
    from detach_step_handle [OF d h(2) [OF r]] show ?thesis using upd c h(1) [OF r] by metis
  next
    case other
    from rlxd_handles_frame [OF L wf st this] h mono len show ?thesis by (simp add: rlxd_awaits_def)
  qed
qed

interpretation rlxd_awaited: relative_invariant "\<lambda>p. p = rlxd_new E limit cap n name" "rlxd_step E"
    "\<lambda>p. lawful E \<longrightarrow> rlxd_awaits E p" for E limit cap n name
proof unfold_locales
  show "p = rlxd_new E limit cap n name \<Longrightarrow> lawful E \<longrightarrow> rlxd_awaits E p" for p
    by (simp add: rlxd_awaits_def rlxd_new_def Let_def)
  fix p e q
  assume r: "rlxd_reach E limit cap n name p" and inv: "lawful E \<longrightarrow> rlxd_awaits E p"
    and st: "rlxd_step E e p = Some q"
  show "lawful E \<longrightarrow> rlxd_awaits E q"
  proof
    assume L: "lawful E"
    from inv L show "rlxd_awaits E q"
      by (intro rlxd_awaits_step [OF L rlxd_pool_wf [OF L r] rlxd_pool_addresses [OF L r] rlxd_pool_results [OF L r] _ st])
        simp
  qed
qed

lemma rlxd_pool_awaits: "lawful E \<Longrightarrow> rlxd_reach E limit cap n name p \<Longrightarrow> rlxd_awaits E p"
  using rlxd_awaited.reach_inv by blast

end
