(* ===== verification/RlxdDeliver.thy ===== *)
theory RlxdDeliver
  imports RlxdAwait
begin

text \<open>
  No result stays away in the relaxed pool either: every oneshot is settled unless the task is
  still on its way, being submitted, in a lane, in a dispatcher's hands, or running with its result
  not yet sent.
\<close>

section \<open>Tasks on their way\<close>

definition run_unsent :: "'r run_task \<Rightarrow> bool" where
  "run_unsent x \<longleftrightarrow> (case rt_pc x of RPollFuture \<Rightarrow> True | RReady _ \<Rightarrow> True | RPollCancel \<Rightarrow> True | RSend _ \<Rightarrow> True | _ \<Rightarrow> False)"

definition rlxd_on_its_way ::
  "('r, 'n, 's, 'q, 'c, 'o, 'h) env \<Rightarrow> ('r, 'n, 's, 'q, 'c, 'o, 'h) rlxd \<Rightarrow> core_ref \<Rightarrow> bool" where
  "rlxd_on_its_way E p r \<longleftrightarrow>
     (\<exists>s \<in> set (submissions p). unsettled (snd s) \<and> sub_core s = r) \<or>
     (\<exists>t. in_lanes (q_ops E) (lane_queue p) t \<and> mt_core t = r) \<or>
     (\<exists>d \<in> set (dispatchers p). r \<in> mt_core ` set (lane_hand d)) \<or>
     (\<exists>x \<in> set (spawned p). run_unsent x \<and> rt_core x = r)"

definition rlxd_delivers ::
  "('r, 'n, 's, 'q, 'c, 'o, 'h) env \<Rightarrow> ('r, 'n, 's, 'q, 'c, 'o, 'h) rlxd \<Rightarrow> bool" where
  "rlxd_delivers E p \<longleftrightarrow> (\<forall>r < length (oneshots p). rlxd_on_its_way E p r \<or> settled E p r)"

text \<open>A step keeps the invariant if it settles every oneshot whose task leaves the way.\<close>

lemma rlxd_deliver_keep:
  assumes "rlxd_delivers E p" "settles E R (oneshots p) (oneshots q)"
    and "\<And>r. rlxd_on_its_way E p r \<Longrightarrow> rlxd_on_its_way E q r \<or> r \<in> R"
    and "length (oneshots q) = length (oneshots p)"
  shows "rlxd_delivers E q"
  using assms unfolding rlxd_delivers_def settles_def by metis

section \<open>Submissions\<close>

lemma submission_settles:
  assumes R: "oneshot_resolves (o_ops E)" and st: "submission_step E r p = Some q"
  shows "settles E {} (oneshots p) (oneshots q)"
proof -
  have r: "r < length (submissions p)" using st by (auto simp: submission_step_def split: if_splits)
  have d: "settles E {} (oneshots p) (discard_oneshot E r (oneshots p))"
    by (rule settles_mono [OF settles_discard [OF R]]) simp
  show ?thesis
  proof (cases "snd (submissions p ! r)")
    case (SubSpawn k)
    with st r have "q = set_submission r SubDirect (spawn_future E True (fst (submissions p ! r)) k p)"
      by (simp add: submission_step_def)
    then show ?thesis using spawn_future_posted [of E True "fst (submissions p ! r)" k p]
      by (simp add: set_submission_def)
  next
    case (SubSend pc)
    with st r have "oneshots q = oneshots p \<or> oneshots q = discard_oneshot E r (oneshots p)"
      by (auto simp: submission_step_def rlxd_send_step_def set_submission_def
          split: option.splits lane_send_pc.splits sum.splits)
    with d show ?thesis by auto
  next
    case SubTry
    with st r show ?thesis by (auto simp: submission_step_def set_submission_def split: option.splits)
  next
    case SubRoute
    with st r show ?thesis by (auto simp: submission_step_def set_submission_def split: prod.splits)
  next
    case (SubCount k)
    with st r show ?thesis by (auto simp: submission_step_def set_submission_def shard_count_def split: sum.splits)
  next
    case (SubStore k)
    with st r show ?thesis by (auto simp: submission_step_def set_submission_def shard_store_def split: sum.splits)
  qed (use st r in \<open>auto simp: submission_step_def set_submission_def\<close>)
qed

lemma submission_ways:
  assumes C: "chan_laws (q_ops E)" and f: "sub_frame k r pc pc' p q"
    and e: "sub_effect E k (fst (submissions p ! r)) p q pc pc'" and w: "rlxd_on_its_way E p c"
  shows "rlxd_on_its_way E q c"
proof -
  let ?s = "submissions p ! r"
  have r: "r < length (submissions p)" and d: "dispatchers q = dispatchers p" and pc: "pc = snd ?s"
    and s: "submissions q = (submissions p)[r := (fst ?s, pc')]" using f by (auto simp: sub_frame_def)
  have new: "(fst ?s, pc') \<in> set (submissions q)" using r by (simp add: s set_update_memI)
  have sub: "(\<exists>x \<in> set (submissions q). unsettled (snd x) \<and> sub_core x = c) \<or> \<not> unsettled pc' \<and> sub_core ?s = c"
    if "\<exists>x \<in> set (submissions p). unsettled (snd x) \<and> sub_core x = c"
  proof -
    from that obtain x where x: "x \<in> set (submissions p)" "unsettled (snd x)" "sub_core x = c" by blast
    from set_update_keep [OF x(1), of r "(fst ?s, pc')"] x(2,3) new show ?thesis
      unfolding s [symmetric] by fastforce
  qed
  have kept: "(in_lanes (q_ops E) (lane_queue p) t \<longrightarrow> in_lanes (q_ops E) (lane_queue q) t) \<and>
      set (spawned p) \<subseteq> set (spawned q)" for t
    using e
  proof cases
    case sub_slot
    have "in_lanes (q_ops E) (lane_queue q) = in_lanes (q_ops E) (lane_queue p)"
      by (rule in_lanes_items) (simp_all add: sub_slot)
    with sub_slot show ?thesis by simp
  next
    case (sub_push i res)
    with lane_push_keeps [OF C sub_push(7)] show ?thesis by simp
  qed (auto simp: lanes_same_def)
  have gone: "in_lanes (q_ops E) (lane_queue q) (fst ?s) \<or>
      (\<exists>x \<in> set (spawned q). run_unsent x \<and> rt_core x = sub_core ?s)" if "\<not> unsettled pc'"
    using e
  proof cases
    case (sub_push i res)
    with that lane_push_keeps [OF C sub_push(7)] show ?thesis by auto
  qed (use that in \<open>auto simp: run_unsent_def RlxdCases.sub_quiet_def\<close>)
  consider "\<exists>x \<in> set (submissions p). unsettled (snd x) \<and> sub_core x = c"
    | t where "in_lanes (q_ops E) (lane_queue p) t" "mt_core t = c"
    | "\<exists>x \<in> set (dispatchers p). c \<in> mt_core ` set (lane_hand x)"
    | x where "x \<in> set (spawned p)" "run_unsent x" "rt_core x = c"
    using w unfolding rlxd_on_its_way_def by blast
  then show ?thesis
  proof cases
    case 1
    with sub gone show ?thesis unfolding rlxd_on_its_way_def by blast
  next
    case 2
    with kept show ?thesis unfolding rlxd_on_its_way_def by blast
  next
    case 3
    with d show ?thesis unfolding rlxd_on_its_way_def by simp
  next
    case 4
    with kept show ?thesis unfolding rlxd_on_its_way_def by blast
  qed
qed

section \<open>Dispatchers, tasks and the rest\<close>

lemma deliver_lane:
  assumes inv: "rlxd_delivers E p" and s: "settles E X (oneshots p) (oneshots q)"
    "length (oneshots q) = length (oneshots p)"
    and d: "dispatchers q = (dispatchers p)[i := pc]" "i < length (dispatchers p)" "submissions q = submissions p"
    and lanes: "\<And>t. in_lanes (q_ops E) (lane_queue p) t \<Longrightarrow>
        in_lanes (q_ops E) (lane_queue q) t \<or> t \<in> set (lane_hand pc) \<or> mt_core t \<in> X"
    and runs: "set (spawned p) \<subseteq> set (spawned q)"
    and hand: "\<And>t. t \<in> set (lane_hand (dispatchers p ! i)) \<Longrightarrow> t \<in> set (lane_hand pc) \<or> mt_core t \<in> X \<or>
        (\<exists>x \<in> set (spawned q). run_unsent x \<and> rt_core x = mt_core t)"
  shows "rlxd_delivers E q"
proof (rule rlxd_deliver_keep [OF inv s(1) _ s(2)])
  fix c assume "rlxd_on_its_way E p c"
  then consider "\<exists>x \<in> set (submissions p). unsettled (snd x) \<and> sub_core x = c"
    | t where "in_lanes (q_ops E) (lane_queue p) t" "mt_core t = c"
    | x t where "x \<in> set (dispatchers p)" "t \<in> set (lane_hand x)" "mt_core t = c"
    | x where "x \<in> set (spawned p)" "run_unsent x" "rt_core x = c"
    unfolding rlxd_on_its_way_def by blast
  moreover have pc: "pc \<in> set (dispatchers q)" using d by (simp add: set_update_memI)
  ultimately show "rlxd_on_its_way E q c \<or> c \<in> X"
  proof cases
    case 1
    with d show ?thesis unfolding rlxd_on_its_way_def by simp
  next
    case 2
    with lanes pc show ?thesis unfolding rlxd_on_its_way_def by blast
  next
    case (3 x t)
    from set_update_keep [OF 3(1), of i pc] d(1) consider "x \<in> set (dispatchers q)" | "x = dispatchers p ! i" by auto
    then show ?thesis
    proof cases
      case 1
      with 3 show ?thesis unfolding rlxd_on_its_way_def by blast
    next
      case 2
      with 3 hand pc show ?thesis unfolding rlxd_on_its_way_def by blast
    qed
  next
    case 4
    with runs show ?thesis unfolding rlxd_on_its_way_def by blast
  qed
qed

lemma deliver_lane_step:
  assumes L: "lawful E" and R: "oneshot_resolves (o_ops E)" and wf: "rlxd_wf E k p"
    and inv: "rlxd_delivers E p" and st: "lane_step E i p = Some q"
  shows "rlxd_delivers E q"
proof -
  have C: "chan_laws (q_ops E)" using L by (simp add: lawful_def)
  have i: "i < length (dispatchers p)" "i < k" "i < length (txs (lane_queue p))"
    using st wf rlxd_wf_lanes [OF wf] by (auto simp: lane_step_def rlxd_wf_def split: if_splits)
  note defs = lane_step_def rlxd_set_defs
  have rel: "in_lanes (q_ops E) (lane_release (s_ops E) x) = in_lanes (q_ops E) x" for x
    by (rule in_lanes_items) (simp_all add: lane_release_def)
  have drop: "settles E {c} (oneshots p) (drop_senders E [c] (oneshots p))" for c
    using settles_drop_senders [OF R, of "[c]" "oneshots p"] by simp
  show ?thesis
  proof (cases "dispatchers p ! i")
    case LTop
    with st i show ?thesis by (intro deliver_lane [OF inv, of "{}" q i]) (auto simp: defs)
  next
    case LPollRecv
    obtain x lq where x: "lane_recv (q_ops E) i (lane_queue p) = (x, lq)" by fastforce
    have "\<forall>t. in_lanes (q_ops E) (lane_queue p) t \<longrightarrow> in_lanes (q_ops E) lq t \<or> x = RecvOk t"
      using lane_recv_keeps [OF C x i(3)] by blast
    with LPollRecv st i x show ?thesis
      by (cases x; intro deliver_lane [OF inv, of "{}" q i]) (auto simp: defs)
  next
    case LPollRecvToken
    with st i show ?thesis by (intro deliver_lane [OF inv, of "{}" q i]) (auto simp: defs)
  next
    case (LReceived t)
    with st i rel drop [of "mt_core t"] show ?thesis
      by (cases "shutting_down p"; intro deliver_lane [OF inv, of "if shutting_down p then {mt_core t} else {}" q i])
        (auto simp: defs)
  next
    case (LGot t)
    with st i settles_send [OF R, of "mt_core t" "oneshots p" "Inl TaskCancelled"] show ?thesis
      by (cases "core_cancelled p (mt_core t)";
          intro deliver_lane [OF inv, of "if core_cancelled p (mt_core t) then {mt_core t} else {}" q i])
        (auto simp: defs)
  next
    case (LCancelled r)
    obtain b n where "sink_sender (c_ops E) (completion_notifier p) = (b, n)" by fastforce
    with LCancelled st i show ?thesis by (cases b; intro deliver_lane [OF inv, of "{}" q i]) (auto simp: defs)
  next
    case (LNotify r)
    with st i show ?thesis by (intro deliver_lane [OF inv, of "{}" q i]) (auto simp: defs Let_def)
  next
    case (LPollPermit t)
    obtain b g where "gate_poll_acquire (s_ops E) i (concurrency_gate p) = (b, g)" by fastforce
    with LPollPermit st i show ?thesis by (cases b; intro deliver_lane [OF inv, of "{}" q i]) (auto simp: defs)
  next
    case (LPollPermitToken t)
    with st i drop [of "mt_core t"] show ?thesis
      by (cases "shutting_down p"; intro deliver_lane [OF inv, of "if shutting_down p then {mt_core t} else {}" q i])
        (auto simp: defs)
  next
    case (LCheck t)
    with st i drop [of "mt_core t"] show ?thesis
      by (cases "shutting_down p"; intro deliver_lane [OF inv, of "if shutting_down p then {mt_core t} else {}" q i])
        (auto simp: defs)
  next
    case (LCount t)
    with st i shard_count_ok [OF wf i(2)] show ?thesis
      by (intro deliver_lane [OF inv, of "{}" q i]) (auto simp: defs)
  next
    case (LStore t)
    from shard_store_ok [OF wf i(2), of "mt_core t"] obtain d where
      "shard_store i (mt_core t) p = Inr (p\<lparr>shards := (shards p)[i := d]\<rparr>)" .
    with LStore st i show ?thesis by (intro deliver_lane [OF inv, of "{}" q i]) (auto simp: defs)
  next
    case (LSpawn t)
    obtain b n where "sink_sender (c_ops E) (completion_notifier p) = (b, n)" by fastforce
    with LSpawn st i show ?thesis
      by (intro deliver_lane [OF inv, of "{}" q i]) (auto simp: defs run_unsent_def)
  next
    case LExit
    obtain rs lq where x: "lane_drop_receiver (q_ops E) (s_ops E) i (lane_queue p) = (rs, lq)" by fastforce
    have "\<forall>t. in_lanes (q_ops E) (lane_queue p) t \<longrightarrow> in_lanes (q_ops E) lq t \<or> mt_core t \<in> set rs"
      using lane_drop_receiver_keeps [OF C x i(3)] by blast
    with LExit st i x settles_drop_senders [OF R, of rs "oneshots p"] show ?thesis
      by (intro deliver_lane [OF inv, of "set rs" q i]) (auto simp: defs)
  qed (use st i in \<open>simp_all add: lane_step_def\<close>)
qed

lemma deliver_run_step:
  assumes R: "oneshot_resolves (o_ops E)" and inv: "rlxd_delivers E p"
    and frame: "run_frame i x p q" and st: "run_step E i p = Some q"
  shows "rlxd_delivers E q"
proof -
  let ?y = "spawned p ! i"
  let ?X = "case rt_pc ?y of RSend _ \<Rightarrow> {rt_core ?y} | _ \<Rightarrow> {}"
  have i: "i < length (spawned p)" and s: "spawned q = (spawned p)[i := x]" and c: "rt_core x = rt_core ?y"
    using frame by (simp_all add: run_frame_def)
  have x: "run_unsent ?y \<Longrightarrow> run_unsent x \<or> rt_core ?y \<in> ?X"
    using st i arg_cong [OF s, of "\<lambda>xs. xs ! i"]
    by (auto simp: run_step_def Let_def rlxd_set_defs run_unsent_def split: run_pc.splits option.splits if_splits)
  have "settles E ?X (oneshots p) (oneshots q)"
    using st i settles_send [OF R]
    by (auto simp: run_step_def Let_def rlxd_set_defs split: run_pc.splits option.splits)
  then show ?thesis
  proof (rule rlxd_deliver_keep [OF inv])
    show "length (oneshots q) = length (oneshots p)" using frame by (simp add: run_frame_def)
    fix r assume w: "rlxd_on_its_way E p r"
    have "r \<in> ?X \<or> (\<exists>u \<in> set (spawned q). run_unsent u \<and> rt_core u = r)"
      if u: "u \<in> set (spawned p)" "run_unsent u" "rt_core u = r" for u
    proof -
      have "x \<in> set (spawned q)" using i by (simp add: s set_update_memI)
      with set_update_keep [OF u(1), of i x] u(2,3) x c show ?thesis unfolding s [symmetric] by blast
    qed
    with w frame show "rlxd_on_its_way E q r \<or> r \<in> ?X" unfolding rlxd_on_its_way_def run_frame_def by metis
  qed
qed

text \<open>What is no step of a submission, a dispatcher or a task.\<close>

lemma quiet_settles:
  assumes R: "oneshot_resolves (o_ops E)" and st: "rlxd_step E e p = Some q" and e: "\<not> active_event e"
  shows "settles E {} (oneshots p) (oneshots q)"
proof (cases e)
  case (RAwaitResult r)
  with st show ?thesis
    by (auto simp: rlxd_with_handle_def intro: await_step_settles [OF R] split: if_splits option.splits sum.splits)
next
  case (RDetach r)
  with st show ?thesis
    by (auto simp: rlxd_with_handle_def intro: detach_step_settles [OF R] split: if_splits option.splits sum.splits)
next
  case (RStepShutdown i)
  with st show ?thesis
    by (auto simp: stop_step_def set_stop_def split: if_splits stop_pc.splits option.splits list.splits prod.splits)
next
  case (RTimeoutShutdown i)
  with st show ?thesis
    by (auto simp: stop_timeout_def set_stop_def split: if_splits stop_pc.splits nat.splits list.splits)
next
  case (RStepDrop i)
  with st show ?thesis by (auto simp: rlxd_drop_step_def Let_def split: if_splits drop_pc.splits)
qed (use st e in \<open>auto simp: active_event_def with_manager_def rlxd_with_handle_def label_sweep_step_def
    stop_abandon_def rlxd_cancel_tasks_by_labels_def gauge_defs dest!: gauge_step_frame
    split: if_splits option.splits sum.splits prod.splits\<close>)

section \<open>The invariant\<close>

lemma rlxd_deliver_submit:
  assumes addr: "rlxd_addresses p" and inv: "rlxd_delivers E p"
    and new: "fresh_submission E ls f p q" and os: "oneshots q = oneshots p @ [c]"
  shows "rlxd_delivers E q"
proof -
  note way = new [unfolded fresh_submission_def]
  have "rlxd_on_its_way E q (length (oneshots p))"
    using way rlxd_lengths [OF addr] by (simp add: rlxd_on_its_way_def)
  moreover have "rlxd_on_its_way E p r \<Longrightarrow> rlxd_on_its_way E q r" for r
    using way by (auto simp: rlxd_on_its_way_def)
  ultimately show ?thesis
    using inv unfolding rlxd_delivers_def os by (auto simp: nth_append less_Suc_eq)
qed

lemma rlxd_deliver_step:
  assumes L: "lawful E" and R: "oneshot_resolves (o_ops E)" and wf: "rlxd_wf E k p" and addr: "rlxd_addresses p"
    and inv: "rlxd_delivers E p" and st: "rlxd_step E e p = Some q"
  shows "rlxd_delivers E q"
proof -
  have C: "chan_laws (q_ops E)" using L by (simp add: lawful_def)
  consider (new) ls f where "e = RSubmit ls f" | (sub) r where "e = RStepSubmit r" | (abandon) r where "e = RAbandonSubmit r"
    | (lane) i where "e = RStepDispatcher i" | (run) i where "e = RStepTask i" | (rest) "\<not> active_event e"
    unfolding active_event_def by blast
  then show ?thesis
  proof cases
    case new
    with st consider "q = p" | "fresh_submission E ls f p q" "oneshots q = oneshots p @ [os_new (o_ops E)]"
      by (auto simp: with_manager_def rlxd_submit_begin_def fresh_submission_def Let_def split: if_splits)
    then show ?thesis using inv rlxd_deliver_submit [OF addr inv] by cases simp_all
  next
    case sub
    with st have s: "submission_step E r p = Some q" by simp
    then obtain pc pc' where f: "sub_frame k r pc pc' p q" "sub_effect E k (fst (submissions p ! r)) p q pc pc'"
      by (rule submission_step_cases [OF L wf])
    show ?thesis
      by (rule rlxd_deliver_keep [OF inv submission_settles [OF R s]])
        (use f submission_ways [OF C f] in \<open>auto simp: sub_frame_def\<close>)
  next
    case abandon
    have d: "settles E {} (oneshots p) (discard_oneshot E r (oneshots p))"
      by (rule settles_mono [OF settles_discard [OF R]]) simp
    from abandon st have "oneshots q = discard_oneshot E r (oneshots p)"
      by (auto simp: submission_abandon_def set_submission_def split: if_splits)
    moreover obtain pc pc' where f: "sub_frame k r pc pc' p q" "sub_effect E k (fst (submissions p ! r)) p q pc pc'"
      using abandon st by (auto intro: submission_abandon_cases [OF L])
    moreover have "length (oneshots q) = length (oneshots p)" using f(1) by (simp add: sub_frame_def)
    ultimately show ?thesis using d submission_ways [OF C f] by (intro rlxd_deliver_keep [OF inv, of "{}"]) auto
  next
    case lane
    with st deliver_lane_step [OF L R wf inv] show ?thesis by simp
  next
    case (run i)
    with st have s: "run_step E i p = Some q" by simp
    then obtain x where "run_frame i x p q" by (rule run_step_cases [OF L])
    from deliver_run_step [OF R inv this s] show ?thesis .
  next
    case rest
    from quiet_step [OF L st rest] have "rlxd_on_its_way E q = rlxd_on_its_way E p" "length (oneshots q) = length (oneshots p)"
      by (simp_all add: quiet_def lanes_same_def rlxd_on_its_way_def fun_eq_iff)
    with rlxd_deliver_keep [OF inv quiet_settles [OF R st rest]] show ?thesis by simp
  qed
qed

interpretation rlxd_delivered: relative_invariant "\<lambda>p. p = rlxd_new E limit cap n name" "rlxd_step E"
    "\<lambda>p. lawful E \<longrightarrow> oneshot_resolves (o_ops E) \<longrightarrow> rlxd_delivers E p" for E limit cap n name
proof unfold_locales
  show "p = rlxd_new E limit cap n name \<Longrightarrow> lawful E \<longrightarrow> oneshot_resolves (o_ops E) \<longrightarrow> rlxd_delivers E p" for p
    by (simp add: rlxd_delivers_def rlxd_new_def Let_def)
  fix p e q
  assume r: "rlxd_reach E limit cap n name p" and st: "rlxd_step E e p = Some q"
    and inv: "lawful E \<longrightarrow> oneshot_resolves (o_ops E) \<longrightarrow> rlxd_delivers E p"
  show "lawful E \<longrightarrow> oneshot_resolves (o_ops E) \<longrightarrow> rlxd_delivers E q"
  proof (intro impI)
    assume L: "lawful E" and R: "oneshot_resolves (o_ops E)"
    with inv show "rlxd_delivers E q"
      by (intro rlxd_deliver_step [OF L R rlxd_pool_wf [OF L r] rlxd_pool_addresses [OF L r] _ st]) simp
  qed
qed

lemma rlxd_pool_delivers:
  "lawful E \<Longrightarrow> oneshot_resolves (o_ops E) \<Longrightarrow> rlxd_reach E limit cap n name p \<Longrightarrow> rlxd_delivers E p"
  using rlxd_delivered.reach_inv by blast

end
