(* ===== verification/RlxdNotes.thy ===== *)
theory RlxdNotes
  imports RlxdInv PoolResult
begin

text \<open>
  The completion notifier inside the relaxed pool: the clones of the sender are those held by the
  spawned tasks and the dispatchers, and the notifier's machine is a component of the pool's.
\<close>

section \<open>What a step does to the notifier\<close>

definition run_clone :: "'r run_task \<Rightarrow> bool" where
  "run_clone x \<longleftrightarrow> rt_notify x \<and> rt_pc x \<noteq> RMark \<and> rt_pc x \<noteq> RFinish \<and> rt_pc x \<noteq> RRelease \<and> rt_pc x \<noteq> RDone"

fun lane_clone :: "'r lane_pc \<Rightarrow> bool" where
  "lane_clone (LNotify _) = True"
| "lane_clone _ = False"

abbreviation lane_clones :: "('r, 'n, 's, 'q, 'c, 'o, 'h) rlxd \<Rightarrow> nat" where
  "lane_clones p \<equiv> count_if lane_clone (dispatchers p)"

text \<open>Operations that take and give back no clone.\<close>

definition cloneless :: "'h notifier_event list \<Rightarrow> bool" where
  "cloneless fs \<longleftrightarrow>
     set fs \<subseteq> {EnsureWorker, CloseSink, TakeJoinHandle} \<union> range PushHandler \<union> {WorkerStep l s t |l s t. True}"

inductive note_effect ::
  "('r, 'n, 's, 'q, 'c, 'o, 'h) env \<Rightarrow> ('r, 'n, 's, 'q, 'c, 'o, 'h) rlxd \<Rightarrow>
     ('r, 'n, 's, 'q, 'c, 'o, 'h) rlxd \<Rightarrow> bool" for E p q where
  calls: "cloneless fs \<Longrightarrow>
    run (notifier_step (c_ops E) (handler_panics E)) fs (completion_notifier p) = Some (completion_notifier q) \<Longrightarrow>
    spawned q = spawned p \<Longrightarrow> lane_clones q = lane_clones p \<Longrightarrow> note_effect E p q"
| spawn: "sink_sender (c_ops E) (completion_notifier p) = (b, completion_notifier q) \<Longrightarrow>
    spawned q = spawned p @ [x] \<Longrightarrow> rt_notify x = b \<Longrightarrow> rt_pc x = RPollFuture \<Longrightarrow>
    lane_clones q = lane_clones p \<Longrightarrow> note_effect E p q"
| sender: "sink_sender (c_ops E) (completion_notifier p) = (b, completion_notifier q) \<Longrightarrow>
    spawned q = spawned p \<Longrightarrow> lane_clones q = lane_clones p + of_bool b \<Longrightarrow> note_effect E p q"
| report: "completion_notifier q = send_completion (c_ops E) m (completion_notifier p) \<Longrightarrow>
    spawned q = spawned p \<Longrightarrow> lane_clones p = Suc (lane_clones q) \<Longrightarrow> note_effect E p q"
| advance: "i < length (spawned p) \<Longrightarrow> spawned q = (spawned p)[i := x] \<Longrightarrow> run_clone x = run_clone (spawned p ! i) \<Longrightarrow>
    (\<forall>s. rt_pc x = RNotify s \<longrightarrow> rt_notify x) \<Longrightarrow> completion_notifier q = completion_notifier p \<Longrightarrow>
    lane_clones q = lane_clones p \<Longrightarrow> note_effect E p q"
| notify: "i < length (spawned p) \<Longrightarrow> rt_pc (spawned p ! i) = RNotify s \<Longrightarrow>
    spawned q = (spawned p)[i := (spawned p ! i)\<lparr>rt_pc := RMark\<rparr>] \<Longrightarrow>
    completion_notifier q = send_completion (c_ops E) m (completion_notifier p) \<Longrightarrow>
    lane_clones q = lane_clones p \<Longrightarrow> note_effect E p q"

lemma note_same:
  "completion_notifier q = completion_notifier p \<Longrightarrow> spawned q = spawned p \<Longrightarrow> lane_clones q = lane_clones p \<Longrightarrow>
     note_effect E p q"
  by (rule note_effect.calls [of "[]"]) (simp_all add: cloneless_def)

lemma note_call:
  "cloneless [f] \<Longrightarrow> notifier_step (c_ops E) (handler_panics E) f (completion_notifier p) = Some (completion_notifier q) \<Longrightarrow>
     spawned q = spawned p \<Longrightarrow> lane_clones q = lane_clones p \<Longrightarrow> note_effect E p q"
  by (rule note_effect.calls [of "[f]"]) simp_all

lemma note_spawn:
  assumes "completion_notifier q = completion_notifier (spawn_future E d t k p)"
    and "spawned q = spawned (spawn_future E d t k p)" "lane_clones q = lane_clones p"
  shows "note_effect E p q"
proof -
  obtain b n where "sink_sender (c_ops E) (completion_notifier p) = (b, n)" by fastforce
  with assms show ?thesis by (intro note_effect.spawn) (auto simp: spawn_future_def)
qed

lemma note_release_sink:
  assumes "completion_notifier q = completion_notifier p" "spawned q = spawned p" "lane_clones q = lane_clones p"
  shows "note_effect E p (rlxd_release_sink E q)"
proof (cases "shutdown_guard q = 0 \<and> list_all lane_stopped (dispatchers q)")
  case True
  with assms show ?thesis by (intro note_call [of CloseSink]) (simp_all add: cloneless_def rlxd_release_sink_def)
next
  case False
  with assms show ?thesis by (intro note_same) (auto simp: rlxd_release_sink_def)
qed

lemma note_submission:
  assumes st: "submission_step E r p = Some q"
  shows "note_effect E p q"
proof (cases "\<exists>k. snd (submissions p ! r) = SubSpawn k")
  case True
  then obtain k where k: "snd (submissions p ! r) = SubSpawn k" by blast
  with st show ?thesis
    by (intro note_spawn [of q E True "fst (submissions p ! r)" k])
      (auto simp: submission_step_def set_submission_def spawn_future_def split: if_splits prod.splits)
next
  case False
  with st have "completion_notifier q = completion_notifier p \<and> spawned q = spawned p \<and>
      dispatchers q = dispatchers p"
    by (auto simp: submission_step_def rlxd_send_step_def set_submission_def shard_count_def shard_store_def
        split: if_splits submit_pc.splits option.splits prod.splits sum.splits)
  then show ?thesis by (simp add: note_same)
qed

lemma note_lane:
  assumes st: "lane_step E i p = Some q"
  shows "note_effect E p q"
proof -
  have i: "i < length (dispatchers p)" using st by (auto simp: lane_step_def split: if_splits)
  have keep: "lane_clones q = lane_clones p"
    if "dispatchers q = (dispatchers p)[i := d]" "\<not> lane_clone d" "\<not> lane_clone (dispatchers p ! i)" for d
    using count_if_update_same [OF i, of lane_clone d] that by simp
  show ?thesis
  proof (cases "dispatchers p ! i")
    case (LSpawn t)
    with st i have q: "q = set_lane i LTop (spawn_future E False t i p)" by (simp add: lane_step_def)
    have "lane_clones q = lane_clones p"
      by (rule keep [of LTop]) (simp_all add: q LSpawn set_lane_def spawn_future_def split: prod.splits)
    then show ?thesis by (intro note_spawn [of q E False t i]) (simp_all add: q set_lane_def)
  next
    case (LCancelled r)
    obtain b n where b: "sink_sender (c_ops E) (completion_notifier p) = (b, n)" by fastforce
    with st i LCancelled
    have q: "q = set_lane i (if b then LNotify r else LTop) (p\<lparr>completion_notifier := n\<rparr>)"
      by (simp add: lane_step_def)
    have "lane_clones q = lane_clones p + of_bool b"
      using count_if_update [OF i, of lane_clone "if b then LNotify r else LTop"] LCancelled
      by (simp add: q set_lane_def)
    with b show ?thesis by (intro note_effect.sender) (simp_all add: q set_lane_def)
  next
    case (LNotify r)
    with st i have q: "completion_notifier q = send_completion (c_ops E)
          \<lparr>cm_pool_name = pool_name p, cm_core = r, cm_status = Cancelled\<rparr> (completion_notifier p)"
        "spawned q = spawned p" "dispatchers q = (dispatchers p)[i := LTop]"
      by (auto simp: lane_step_def set_lane_def Let_def)
    have "lane_clones p = Suc (lane_clones q)"
      using count_if_update_lose [OF i, of lane_clone LTop] LNotify by (simp add: q(3))
    with q(1,2) show ?thesis by (rule note_effect.report)
  next
    case LPollRecv
    obtain x lq where x: "lane_recv (q_ops E) i (lane_queue p) = (x, lq)" by fastforce
    let ?d = "case x of RecvOk t \<Rightarrow> LReceived t | RecvDisconnected \<Rightarrow> LExit | RecvPending \<Rightarrow> LPollRecvToken"
    have q: "q = set_lane i ?d (p\<lparr>lane_queue := lq\<rparr>)" using st i LPollRecv x by (simp add: lane_step_def)
    have "lane_clones q = lane_clones p"
      by (rule keep [of ?d]) (simp_all add: q LPollRecv set_lane_def split: recv.splits)
    then show ?thesis by (simp add: note_same q set_lane_def)
  next
    case LExit
    obtain rs lq where "lane_drop_receiver (q_ops E) (s_ops E) i (lane_queue p) = (rs, lq)" by fastforce
    with LExit st i have "q = rlxd_release_sink E (set_lane i LStopped
        (p\<lparr>lane_queue := lq, oneshots := drop_senders E rs (oneshots p)\<rparr>))" by (simp add: lane_step_def)
    moreover from this have "lane_clones q = lane_clones p"
      by (intro keep [of LStopped]) (simp_all add: LExit set_lane_def)
    ultimately show ?thesis by (simp add: note_release_sink set_lane_def)
  qed (use st i keep in \<open>auto intro!: note_same simp: lane_step_def rlxd_set_defs shard_count_def shard_store_def
      split: if_splits prod.splits sum.splits\<close>)
qed

lemma note_run:
  assumes st: "run_step E i p = Some q"
  shows "note_effect E p q"
proof -
  let ?x = "spawned p ! i"
  have i: "i < length (spawned p)" using st by (auto simp: run_step_def split: if_splits)
  note defs = run_step_def set_run_def shard_finish_def Let_def run_clone_def
  show ?thesis
  proof (cases "rt_pc ?x")
    case RPollFuture
    with st i show ?thesis
      by (intro note_effect.advance [of i p q "?x\<lparr>rt_polls := Suc (rt_polls ?x), rt_pc := (case catch_unwind
            (mt_future (rt_task ?x) (rt_polls ?x)) of Some y \<Rightarrow> RReady y | None \<Rightarrow> RPollCancel)\<rparr>"])
        (auto simp: defs split: option.splits)
  next
    case (RReady y)
    with st i show ?thesis
      by (intro note_effect.advance [of i p q "?x\<lparr>rt_pc := RSend (ready_outcome (core_cancelled p (rt_core ?x)) y)\<rparr>"])
        (auto simp: defs)
  next
    case RPollCancel
    with st i show ?thesis
      by (intro note_effect.advance [of i p q "?x\<lparr>rt_pc := (if core_cancelled p (rt_core ?x)
            then RSend (Inl TaskCancelled) else RPollFuture)\<rparr>"])
        (auto simp: defs)
  next
    case (RSend res)
    with st i show ?thesis
      by (intro note_effect.advance [of i p q "?x\<lparr>rt_pc := (if rt_notify ?x then RNotify (status_from res) else RMark)\<rparr>"])
        (auto simp: defs)
  next
    case (RNotify s)
    with st i show ?thesis by (intro note_effect.notify [of i p s]) (auto simp: defs)
  next
    case RMark
    with st i show ?thesis by (intro note_effect.advance [of i p q "?x\<lparr>rt_pc := RFinish\<rparr>"]) (auto simp: defs)
  next
    case RFinish
    with st i show ?thesis by (intro note_effect.advance [of i p q "?x\<lparr>rt_pc := RRelease\<rparr>"]) (auto simp: defs)
  next
    case RRelease
    with st i show ?thesis by (intro note_effect.advance [of i p q "?x\<lparr>rt_pc := RDone\<rparr>"]) (auto simp: defs)
  qed (use st i in \<open>simp add: run_step_def\<close>)
qed

lemma note_stop:
  assumes st: "stop_step E i p = Some q"
  shows "note_effect E p q"
proof -
  have i: "i < length (stops p)" using st by (auto simp: stop_step_def split: if_splits)
  show ?thesis
  proof (cases "stops p ! i")
    case (StopSink a)
    with st i have q: "spawned q = spawned p" "completion_notifier q =
        (if a then completion_notifier p else sink_close (c_ops E) (completion_notifier p))"
        "dispatchers q = dispatchers p"
      by (auto simp: stop_step_def set_stop_def)
    then show ?thesis by (cases a) (simp_all add: note_same note_call [of CloseSink] cloneless_def)
  next
    case StopTakeNotifier
    with st i show ?thesis
      by (intro note_call [of TakeJoinHandle]) (auto simp: stop_step_def set_stop_def cloneless_def split: prod.splits)
  next
    case (StopJoin a ls)
    with st i show ?thesis
      by (cases ls) (auto simp: stop_step_def set_stop_def intro!: note_same split: if_splits)
  qed (use st i in \<open>auto simp: stop_step_def set_stop_def intro!: note_same split: if_splits option.splits\<close>)
qed

lemma note_drop:
  assumes st: "rlxd_drop_step E i p = Some q"
  shows "note_effect E p q"
proof -
  have i: "i < length (drops p)" using st by (auto simp: rlxd_drop_step_def split: if_splits)
  show ?thesis
  proof (cases "drops p ! i")
    case DropSink
    with st i show ?thesis
      by (intro note_call [of CloseSink]) (auto simp: rlxd_drop_step_def cloneless_def)
  qed (use st i in \<open>auto simp: rlxd_drop_step_def Let_def intro!: note_same note_release_sink\<close>)
qed

lemma note_step:
  assumes st: "rlxd_step E e p = Some q"
  shows "note_effect E p q"
proof (cases e)
  case (RStepSubmit r)
  with st show ?thesis by (auto intro: note_submission)
next
  case (RStepDispatcher i)
  with st show ?thesis by (auto intro: note_lane)
next
  case (RStepTask i)
  with st show ?thesis by (auto intro: note_run)
next
  case (RStepShutdown i)
  with st show ?thesis by (auto intro: note_stop)
next
  case (RStepDrop i)
  with st show ?thesis by (auto intro: note_drop)
next
  case RAddHandlerInit
  with st show ?thesis
    by (intro note_call [of EnsureWorker]) (auto simp: with_manager_def cloneless_def split: if_splits)
next
  case (RAddHandlerPush h)
  with st show ?thesis
    by (intro note_call [of "PushHandler h"]) (auto simp: with_manager_def cloneless_def split: if_splits)
next
  case (RStepNotifier now)
  with st show ?thesis
    by (intro note_call [of "WorkerStep (look_core p) (shutting_down p) now"]) (auto simp: cloneless_def)
qed (use st in \<open>auto intro!: note_same simp: with_manager_def rlxd_with_handle_def rlxd_submit_begin_def await_step_def
      detach_step_def submission_abandon_def set_submission_def label_sweep_step_def rlxd_cancel_tasks_by_labels_def
      stop_timeout_def stop_abandon_def set_stop_def gauge_defs Let_def dest!: gauge_step_frame
      split: if_splits option.splits sum.splits prod.splits stop_pc.splits nat.splits list.splits\<close>)

section \<open>Clones of the sender\<close>

definition rlxd_clones :: "('r, 'n, 's, 'q, 'c, 'o, 'h) rlxd \<Rightarrow> bool" where
  "rlxd_clones p \<longleftrightarrow>
     clones (completion_notifier p) = count_if run_clone (spawned p) + lane_clones p \<and>
     (\<forall>x \<in> set (spawned p). \<forall>s. rt_pc x = RNotify s \<longrightarrow> rt_notify x)"

lemma rlxd_clones_effect:
  assumes inv: "rlxd_clones p" and e: "note_effect E p q"
  shows "rlxd_clones q"
  using e
proof cases
  case (calls fs)
  with run_clones [OF calls(2)] inv show ?thesis by (simp add: rlxd_clones_def cloneless_def)
next
  case (spawn b x)
  with sink_sender_clones [of "c_ops E" "completion_notifier p"] inv show ?thesis
    by (auto simp: rlxd_clones_def run_clone_def)
next
  case (sender b)
  with sink_sender_clones [of "c_ops E" "completion_notifier p"] inv show ?thesis
    by (simp add: rlxd_clones_def)
next
  case (report m)
  with inv show ?thesis by (simp add: rlxd_clones_def)
next
  case (advance i x)
  with count_if_update_same [of i "spawned p" run_clone x] inv show ?thesis
    by (auto simp: rlxd_clones_def dest!: in_set_update)
next
  case (notify i s m)
  let ?x = "(spawned p ! i)\<lparr>rt_pc := RMark\<rparr>"
  have "run_clone (spawned p ! i)" "\<not> run_clone ?x"
    using notify(1,2) inv by (simp_all add: rlxd_clones_def run_clone_def)
  with count_if_update_lose [of i "spawned p" run_clone ?x] notify inv show ?thesis
    by (auto simp: rlxd_clones_def dest!: in_set_update)
qed

interpretation rlxd_clone: relative_invariant "\<lambda>p. p = rlxd_new E limit cap n name" "rlxd_step E" rlxd_clones
  for E limit cap n name
proof unfold_locales
  show "p = rlxd_new E limit cap n name \<Longrightarrow> rlxd_clones p" for p
    by (simp add: rlxd_clones_def rlxd_new_def Let_def notifier_new_def count_if_def)
qed (blast intro: rlxd_clones_effect note_step)

section \<open>The notifier as a component\<close>

lemma note_effect_run:
  assumes inv: "rlxd_clones p" and e: "note_effect E p q"
  shows "\<exists>fs. run (notifier_step (c_ops E) (handler_panics E)) fs (completion_notifier p) = Some (completion_notifier q)"
  using e
proof cases
  case (calls fs)
  then show ?thesis by blast
next
  case (spawn b x)
  then show ?thesis by (intro exI [of _ "[TakeSender]"]) simp
next
  case (sender b)
  then show ?thesis by (intro exI [of _ "[TakeSender]"]) simp
next
  case (report m)
  with inv show ?thesis by (intro exI [of _ "[SendCompletion m]"]) (simp add: rlxd_clones_def)
next
  case (advance i x)
  then show ?thesis by (intro exI [of _ "[]"]) simp
next
  case (notify i s m)
  have "run_clone (spawned p ! i)" using notify(1,2) inv by (simp add: rlxd_clones_def run_clone_def)
  with count_if_pos [OF notify(1), of run_clone] inv have "0 < clones (completion_notifier p)"
    by (simp add: rlxd_clones_def)
  with notify show ?thesis by (intro exI [of _ "[SendCompletion m]"]) simp
qed

interpretation rlxd_notes: component "\<lambda>p. p = rlxd_new E limit cap n name" "rlxd_step E"
    completion_notifier "\<lambda>n. n = notifier_new (c_ops E)" "notifier_step (c_ops E) (handler_panics E)"
  for E limit cap n name
proof unfold_locales
  show "p = rlxd_new E limit cap n name \<Longrightarrow> completion_notifier p = notifier_new (c_ops E)" for p
    by (simp add: rlxd_new_def Let_def)
  show "rlxd_reach E limit cap n name p \<Longrightarrow> rlxd_step E e p = Some q \<Longrightarrow>
      \<exists>fs. run (notifier_step (c_ops E) (handler_panics E)) fs (completion_notifier p) = Some (completion_notifier q)"
    for p e q
    by (rule note_effect_run [OF rlxd_clone.reach_inv note_step])
qed

lemma rlxd_notifier_reach:
  "rlxd_reach E limit cap n name p \<Longrightarrow>
     reach (\<lambda>n. n = notifier_new (c_ops E)) (notifier_step (c_ops E) (handler_panics E)) (completion_notifier p)"
  by (rule rlxd_notes.reach_proj)

end
