(* ===== verification/RlxdReports.thy ===== *)
theory RlxdReports
  imports RlxdNotes RlxdOnce
begin

text \<open>
  Completions of the relaxed pool are reported exactly: the messages posted are the results sent
  while a clone of the completion sender was in hand, each once, except those just being posted.
\<close>

section \<open>What is to be reported\<close>

definition rlxd_reports ::
  "('r, 'h) rlxd_event \<Rightarrow> ('r, 'n, 's, 'q, 'c, 'o, 'h) rlxd \<Rightarrow> internal_completion_message list" where
  "rlxd_reports e p =
     (case e of
        RStepTask i \<Rightarrow>
          (case rt_pc (spawned p ! i) of
             RSend res \<Rightarrow> if rt_notify (spawned p ! i) then [completion_of p (rt_core (spawned p ! i)) res] else []
           | _ \<Rightarrow> [])
      | RStepDispatcher i \<Rightarrow>
          (case dispatchers p ! i of
             LCancelled r \<Rightarrow> if sink_open p then [completion_of p r (Inl TaskCancelled)] else []
           | _ \<Rightarrow> [])
      | _ \<Rightarrow> [])"

definition rlxd_launches :: "('r, 'h) rlxd_event \<Rightarrow> ('r, 'n, 's, 'q, 'c, 'o, 'h) rlxd \<Rightarrow> (core_ref \<times> bool) list" where
  "rlxd_launches e p =
     (case e of
        RStepDispatcher i \<Rightarrow> (case dispatchers p ! i of LSpawn t \<Rightarrow> [(mt_core t, sink_open p)] | _ \<Rightarrow> [])
      | RStepSubmit r \<Rightarrow>
          (case snd (submissions p ! r) of SubSpawn k \<Rightarrow> [(mt_core (fst (submissions p ! r)), sink_open p)] | _ \<Rightarrow> [])
      | _ \<Rightarrow> [])"

definition run_unposted :: "string \<Rightarrow> 'r run_task \<Rightarrow> internal_completion_message list" where
  "run_unposted name x =
     (case rt_pc x of RNotify s \<Rightarrow> [\<lparr>cm_pool_name = name, cm_core = rt_core x, cm_status = s\<rparr>] | _ \<Rightarrow> [])"

definition lane_unposted :: "string \<Rightarrow> 'r lane_pc \<Rightarrow> internal_completion_message list" where
  "lane_unposted name d =
     (case d of LNotify r \<Rightarrow> [\<lparr>cm_pool_name = name, cm_core = r, cm_status = Cancelled\<rparr>] | _ \<Rightarrow> [])"

definition rlxd_unposted :: "('r, 'n, 's, 'q, 'c, 'o, 'h) rlxd \<Rightarrow> internal_completion_message list" where
  "rlxd_unposted p =
     concat (map (lane_unposted (pool_name p)) (dispatchers p)) @ concat (map (run_unposted (pool_name p)) (spawned p))"

section \<open>The accounts\<close>

definition rlxd_report_inv ::
  "internal_completion_message list \<Rightarrow> ('r, 'n, 's, 'q, 'c, 'o, 'h) rlxd \<Rightarrow> bool" where
  "rlxd_report_inv ms p \<longleftrightarrow> mset ms = mset (posted (completion_notifier p)) + mset (rlxd_unposted p)"

definition rlxd_launch_inv :: "(core_ref \<times> bool) list \<Rightarrow> ('r, 'n, 's, 'q, 'c, 'o, 'h) rlxd \<Rightarrow> bool" where
  "rlxd_launch_inv ls p \<longleftrightarrow> ls = map (\<lambda>x. (rt_core x, rt_notify x)) (spawned p)"

lemma rlxd_step_name:
  assumes "lawful E" "rlxd_wf E k p" "rlxd_step E e p = Some q"
  shows "pool_name q = pool_name p"
  using rlxd_step_cases [OF assms]
  by (auto simp: quiet_def fresh_submission_def sub_frame_def lane_frame_def run_frame_def)

lemma rlxd_report_run:
  assumes acc: "chan_accepts (c_ops E)" and reach: "rlxd_reach E limit cap n name p"
    and inv: "rlxd_report_inv ms p" and st: "run_step E i p = Some q"
  shows "rlxd_report_inv (ms @ rlxd_reports (RStepTask i) p) q"
proof -
  let ?x = "spawned p ! i" and ?n = "pool_name p"
  have i: "i < length (spawned p)" using st by (auto simp: run_step_def split: if_splits)
  from st obtain x where x: "spawned q = (spawned p)[i := x]" "rt_task x = rt_task ?x" "dispatchers q = dispatchers p"
      "pool_name q = pool_name p"
    and new: "rlxd_reports (RStepTask i) p = run_unposted ?n x"
    and sends: "completion_notifier q = (case rt_pc ?x of
       RNotify s \<Rightarrow> send_completion (c_ops E) \<lparr>cm_pool_name = ?n, cm_core = rt_core ?x, cm_status = s\<rparr> (completion_notifier p)
     | _ \<Rightarrow> completion_notifier p)"
    using i by (cases "rt_pc ?x")
      (auto simp: run_step_def rlxd_set_defs rlxd_reports_def run_unposted_def completion_of_def Let_def
        split: option.splits if_splits)
  have "posted (completion_notifier q) = posted (completion_notifier p) @ run_unposted ?n ?x"
    using sends send_completion_accepted [OF acc rlxd_notifier_reach [OF reach]]
    by (simp add: run_unposted_def split: run_pc.splits)
  moreover have "mset (rlxd_unposted q) + mset (run_unposted ?n ?x) = mset (rlxd_unposted p) + mset (run_unposted ?n x)"
    using mset_concat_update [OF i, of "run_unposted ?n" x] x by (simp add: rlxd_unposted_def)
  ultimately show ?thesis using inv new by (auto simp: rlxd_report_inv_def ac_simps)
qed

lemma lane_report_effect:
  assumes acc: "chan_accepts (c_ops E)" and reach: "rlxd_reach E limit cap n name p"
    and st: "lane_step E i p = Some q" and O1: "oneshot_laws (o_ops E)"
  obtains d where "i < length (dispatchers p)" "dispatchers q = (dispatchers p)[i := d]"
    "rlxd_reports (RStepDispatcher i) p = lane_unposted (pool_name p) d"
    "posted (completion_notifier q) = posted (completion_notifier p) @ lane_unposted (pool_name p) (dispatchers p ! i)"
    "spawned q = spawned p \<or> (\<exists>x. spawned q = spawned p @ [x] \<and> rt_pc x = RPollFuture)"
proof -
  from lane_step_report [OF O1 st] obtain d where i: "i < length (dispatchers p)"
    and d: "dispatchers q = (dispatchers p)[i := d]" and rep: "lane_report E p q (dispatchers p ! i) d" .
  from rep show ?thesis
  proof cases
    case lr_none
    then show ?thesis
      by (intro that [OF i d]) (auto simp: rlxd_reports_def lane_unposted_def split: lane_pc.splits)
  next
    case lr_cancel
    then show ?thesis by (intro that [OF i d]) (auto simp: rlxd_reports_def lane_unposted_def)
  next
    case (lr_sender r)
    have "dispatchers q ! i = (if sink_open p then LNotify r else LTop)"
      using st i lr_sender(1) sink_sender_open [of "c_ops E" p]
      by (auto simp: lane_step_def set_lane_def split: prod.splits)
    with d i have "d = (if sink_open p then LNotify r else LTop)" by simp
    with lr_sender show ?thesis
      by (intro that [OF i d]) (auto simp: rlxd_reports_def lane_unposted_def completion_of_def)
  next
    case (lr_post r)
    have "posted (completion_notifier q) = posted (completion_notifier p) @
        [\<lparr>cm_pool_name = pool_name p, cm_core = r, cm_status = Cancelled\<rparr>]"
      using st i lr_post(1) send_completion_accepted [OF acc rlxd_notifier_reach [OF reach]]
      by (auto simp: lane_step_def set_lane_def Let_def)
    with lr_post show ?thesis by (intro that [OF i d]) (auto simp: rlxd_reports_def lane_unposted_def)
  qed
qed

lemma rlxd_report_step:
  assumes L: "lawful E" and acc: "chan_accepts (c_ops E)" and reach: "rlxd_reach E limit cap n name p"
    and inv: "rlxd_report_inv ms p" and st: "rlxd_step E e p = Some q"
  shows "rlxd_report_inv (ms @ rlxd_reports e p) q"
proof -
  have O1: "oneshot_laws (o_ops E)" using L by (simp add: lawful_def)
  have name: "pool_name q = pool_name p" by (rule rlxd_step_name [OF L rlxd_pool_wf [OF L reach] st])
  have grow: "concat (map (run_unposted m) (spawned q)) = concat (map (run_unposted m) (spawned p))"
    if "spawned q = spawned p \<or> (\<exists>x. spawned q = spawned p @ [x] \<and> rt_pc x = RPollFuture)" for m
    using that by (auto simp: run_unposted_def)
  consider (lane) i where "e = RStepDispatcher i" | (run) i where "e = RStepTask i"
    | (silent) "\<forall>i. e \<noteq> RStepDispatcher i" "\<forall>i. e \<noteq> RStepTask i" by blast
  then show ?thesis
  proof cases
    case (run i)
    with st rlxd_report_run [OF acc reach inv] show ?thesis by simp
  next
    case silent
    then have s: "silent E p q" by (rule silent_step [OF L st])
    moreover have "rlxd_reports e p = []" using silent by (auto simp: rlxd_reports_def split: rlxd_event.splits)
    ultimately show ?thesis using inv name grow by (simp add: rlxd_report_inv_def rlxd_unposted_def silent_def)
  next
    case (lane i)
    with st have "lane_step E i p = Some q" by simp
    from lane_report_effect [OF acc reach this O1] obtain d where i: "i < length (dispatchers p)"
      and q: "dispatchers q = (dispatchers p)[i := d]" "rlxd_reports (RStepDispatcher i) p = lane_unposted (pool_name p) d"
        "posted (completion_notifier q) = posted (completion_notifier p) @ lane_unposted (pool_name p) (dispatchers p ! i)"
        "spawned q = spawned p \<or> (\<exists>x. spawned q = spawned p @ [x] \<and> rt_pc x = RPollFuture)" .
    have "mset (rlxd_unposted q) + mset (lane_unposted (pool_name p) (dispatchers p ! i)) =
        mset (rlxd_unposted p) + mset (lane_unposted (pool_name p) d)"
      using mset_concat_update [OF i, of "lane_unposted (pool_name p)" d] grow [OF q(4)]
      by (simp add: rlxd_unposted_def name q(1))
    with inv lane q(2,3) show ?thesis by (auto simp: rlxd_report_inv_def ac_simps)
  qed
qed

interpretation rlxd_reported: logged "\<lambda>p. p = rlxd_new E limit cap n name" "rlxd_step E" rlxd_reports
    "\<lambda>ms p. lawful E \<longrightarrow> chan_accepts (c_ops E) \<longrightarrow> rlxd_report_inv ms p" for E limit cap n name
proof unfold_locales
  show "p = rlxd_new E limit cap n name \<Longrightarrow> lawful E \<longrightarrow> chan_accepts (c_ops E) \<longrightarrow> rlxd_report_inv [] p" for p
    by (simp add: rlxd_report_inv_def rlxd_unposted_def lane_unposted_def rlxd_new_def Let_def notifier_new_def)
  show "rlxd_reach E limit cap n name p \<Longrightarrow> lawful E \<longrightarrow> chan_accepts (c_ops E) \<longrightarrow> rlxd_report_inv ms p \<Longrightarrow>
      rlxd_step E e p = Some q \<Longrightarrow> lawful E \<longrightarrow> chan_accepts (c_ops E) \<longrightarrow> rlxd_report_inv (ms @ rlxd_reports e p) q"
    for p ms e q
    using rlxd_report_step by blast
qed

section \<open>Who takes a clone\<close>

lemma spawn_future_launch:
  "map (\<lambda>x. (rt_core x, rt_notify x)) (spawned (spawn_future E d t k p)) =
     map (\<lambda>x. (rt_core x, rt_notify x)) (spawned p) @ [(mt_core t, sink_open p)]"
  using sink_sender_open [of "c_ops E" p]
  by (cases "sink_sender (c_ops E) (completion_notifier p)") (simp add: spawn_future_def)

lemma submission_launch:
  assumes L: "lawful E" and wf: "rlxd_wf E k p" and st: "submission_step E r p = Some q"
  shows "map (\<lambda>x. (rt_core x, rt_notify x)) (spawned q) =
    map (\<lambda>x. (rt_core x, rt_notify x)) (spawned p) @ rlxd_launches (RStepSubmit r) p"
proof (cases "\<exists>j. snd (submissions p ! r) = SubSpawn j")
  case True
  then obtain j where j: "snd (submissions p ! r) = SubSpawn j" by blast
  with st have "q = set_submission r SubDirect (spawn_future E True (fst (submissions p ! r)) j p)"
    by (simp add: submission_step_def split: if_splits)
  with j show ?thesis
    using spawn_future_launch [of E True "fst (submissions p ! r)" j p] by (simp add: set_submission_def rlxd_launches_def)
next
  case False
  from submission_step_cases [OF L wf st] obtain pc pc' where "sub_frame k r pc pc' p q"
    "sub_effect E k (fst (submissions p ! r)) p q pc pc'" .
  then have "spawned q = spawned p" using False by (auto simp: sub_frame_def elim!: sub_effect.cases)
  with False show ?thesis by (auto simp: rlxd_launches_def split: submit_pc.splits)
qed

lemma lane_launch:
  assumes L: "lawful E" and wf: "rlxd_wf E k p" and st: "lane_step E i p = Some q"
  shows "map (\<lambda>x. (rt_core x, rt_notify x)) (spawned q) =
    map (\<lambda>x. (rt_core x, rt_notify x)) (spawned p) @ rlxd_launches (RStepDispatcher i) p"
proof (cases "\<exists>t. dispatchers p ! i = LSpawn t")
  case True
  then obtain t where t: "dispatchers p ! i = LSpawn t" by blast
  with st have "q = set_lane i LTop (spawn_future E False t i p)" by (simp add: lane_step_def split: if_splits)
  with t show ?thesis
    using spawn_future_launch [of E False t i p] by (simp add: set_lane_def rlxd_launches_def)
next
  case False
  from lane_step_cases [OF L wf st] obtain pc pc' where "lane_frame i pc pc' p q" "lane_effect E i p q pc pc'" .
  then have "spawned q = spawned p" using False by (auto simp: lane_frame_def elim!: lane_effect.cases)
  with False show ?thesis by (auto simp: rlxd_launches_def split: lane_pc.splits)
qed

lemma rlxd_launch_step:
  assumes L: "lawful E" and wf: "rlxd_wf E k p" and st: "rlxd_step E e p = Some q"
  shows "map (\<lambda>x. (rt_core x, rt_notify x)) (spawned q) =
    map (\<lambda>x. (rt_core x, rt_notify x)) (spawned p) @ rlxd_launches e p"
proof (cases "active_event e")
  case False
  with quiet_step [OF L st False] show ?thesis
    by (auto simp: quiet_def rlxd_launches_def active_event_def split: rlxd_event.splits)
next
  case True
  then consider (new) ls f where "e = RSubmit ls f" | (sub) r where "e = RStepSubmit r"
    | (abandon) r where "e = RAbandonSubmit r" | (lane) i where "e = RStepDispatcher i" | (run) i where "e = RStepTask i"
    by (auto simp: active_event_def)
  then show ?thesis
  proof cases
    case new
    with st show ?thesis
      by (auto simp: with_manager_def rlxd_submit_begin_def rlxd_launches_def Let_def split: if_splits)
  next
    case sub
    with st submission_launch [OF L wf] show ?thesis by simp
  next
    case abandon
    with st show ?thesis by (auto simp: submission_abandon_def set_submission_def rlxd_launches_def split: if_splits)
  next
    case lane
    with st lane_launch [OF L wf] show ?thesis by simp
  next
    case (run i)
    with st have "run_step E i p = Some q" by simp
    then obtain x where "run_frame i x p q" by (rule run_step_cases [OF L])
    then show ?thesis by (simp add: run run_frame_def rlxd_launches_def map_id_update)
  qed
qed

interpretation rlxd_launched: logged "\<lambda>p. p = rlxd_new E limit cap n name" "rlxd_step E" rlxd_launches
    "\<lambda>ls p. lawful E \<longrightarrow> rlxd_launch_inv ls p" for E limit cap n name
proof unfold_locales
  show "p = rlxd_new E limit cap n name \<Longrightarrow> lawful E \<longrightarrow> rlxd_launch_inv [] p" for p
    by (simp add: rlxd_launch_inv_def rlxd_new_def Let_def)
  fix p ls e q
  assume r: "rlxd_reach E limit cap n name p" and inv: "lawful E \<longrightarrow> rlxd_launch_inv ls p"
    and st: "rlxd_step E e p = Some q"
  show "lawful E \<longrightarrow> rlxd_launch_inv (ls @ rlxd_launches e p) q"
  proof
    assume L: "lawful E"
    with rlxd_launch_step [OF L rlxd_pool_wf [OF L r] st] inv show "rlxd_launch_inv (ls @ rlxd_launches e p) q"
      by (simp add: rlxd_launch_inv_def)
  qed
qed

section \<open>No task is left out\<close>

lemma spawned_grows:
  assumes "lawful E" "rlxd_step E e p = Some q" "\<forall>i. e \<noteq> RStepTask i"
  shows "spawned q = spawned p \<or> (\<exists>x. spawned q = spawned p @ [x] \<and> rt_pc x = RPollFuture)"
proof (cases "\<exists>i. e = RStepDispatcher i")
  case True
  then obtain i where "lane_step E i p = Some q" using assms(2) by auto
  moreover have "oneshot_laws (o_ops E)" using assms(1) by (simp add: lawful_def)
  ultimately obtain d where "lane_report E p q (dispatchers p ! i) d" using lane_step_report by blast
  then show ?thesis by cases auto
next
  case False
  with assms have "silent E p q" by (intro silent_step) auto
  then show ?thesis by (simp add: silent_def)
qed

fun run_past_send :: "'r run_pc \<Rightarrow> bool" where
  "run_past_send (RNotify _) = True"
| "run_past_send RMark = True"
| "run_past_send RFinish = True"
| "run_past_send RRelease = True"
| "run_past_send RDone = True"
| "run_past_send _ = False"

definition rlxd_told :: "internal_completion_message list \<Rightarrow> ('r, 'n, 's, 'q, 'c, 'o, 'h) rlxd \<Rightarrow> bool" where
  "rlxd_told ms p \<longleftrightarrow> (\<forall>x \<in> set (spawned p). rt_notify x \<and> run_past_send (rt_pc x) \<longrightarrow> rt_core x \<in> cm_core ` set ms)"

lemma rlxd_told_run:
  assumes inv: "rlxd_told ms p" and st: "run_step E i p = Some q"
  shows "rlxd_told (ms @ rlxd_reports (RStepTask i) p) q"
proof -
  from st have i: "i < length (spawned p)" by (auto simp: run_step_def split: if_splits)
  then have mem: "spawned p ! i \<in> set (spawned p)" by simp
  from st obtain t where q: "spawned q = (spawned p)[i := t]" "rt_task t = rt_task (spawned p ! i)"
      "rt_notify t = rt_notify (spawned p ! i)"
    and past: "rt_notify t \<and> run_past_send (rt_pc t) \<longrightarrow>
      run_past_send (rt_pc (spawned p ! i)) \<or> rt_core t \<in> cm_core ` set (rlxd_reports (RStepTask i) p)"
    using i by (cases "rt_pc (spawned p ! i)")
      (auto simp: run_step_def rlxd_set_defs rlxd_reports_def completion_of_def Let_def split: option.splits if_splits)
  have "rt_notify x \<and> run_past_send (rt_pc x) \<longrightarrow> rt_core x \<in> cm_core ` set (ms @ rlxd_reports (RStepTask i) p)"
    if "x \<in> set (spawned q)" for x
  proof (cases "x \<in> set (spawned p)")
    case True
    with inv show ?thesis by (auto simp: rlxd_told_def)
  next
    case False
    with that q(1) set_update_subset_insert [of "spawned p" i t] have x: "x = t" by auto
    show ?thesis unfolding x using past inv mem q(2,3) by (auto simp: rlxd_told_def)
  qed
  then show ?thesis by (simp add: rlxd_told_def)
qed

interpretation rlxd_told: logged "\<lambda>p. p = rlxd_new E limit cap n name" "rlxd_step E" rlxd_reports
    "\<lambda>ms p. lawful E \<longrightarrow> rlxd_told ms p" for E limit cap n name
proof unfold_locales
  show "p = rlxd_new E limit cap n name \<Longrightarrow> lawful E \<longrightarrow> rlxd_told [] p" for p
    by (simp add: rlxd_told_def rlxd_new_def Let_def)
  fix p ms e q
  assume inv: "lawful E \<longrightarrow> rlxd_told ms p" and r: "rlxd_reach E limit cap n name p" and st: "rlxd_step E e p = Some q"
  show "lawful E \<longrightarrow> rlxd_told (ms @ rlxd_reports e p) q"
  proof
    assume L: "lawful E"
    show "rlxd_told (ms @ rlxd_reports e p) q"
    proof (cases "\<exists>i. e = RStepTask i")
      case True
      then obtain i where e: "e = RStepTask i" by blast
      have "run_step E i p = Some q" "rlxd_told ms p" using e st inv L by simp_all
      then show ?thesis unfolding e by (intro rlxd_told_run)
    next
      case False
      then have "spawned q = spawned p \<or> (\<exists>x. spawned q = spawned p @ [x] \<and> rt_pc x = RPollFuture)"
        using spawned_grows [OF L st] by blast
      with inv L show ?thesis by (auto simp: rlxd_told_def)
    qed
  qed
qed

section \<open>No task is reported twice\<close>

lemma run_unposted_cores:
  "map cm_core (concat (map (run_unposted m) xs)) = map rt_core (filter (\<lambda>x. \<exists>s. rt_pc x = RNotify s) xs)"
  by (induction xs) (auto simp: run_unposted_def split: run_pc.splits)

lemma lane_unposted_cores:
  "map cm_core (concat (map (lane_unposted m) ds)) = concat (map (\<lambda>d. if lane_clone d then lane_cores d else []) ds)"
  by (induction ds) (auto simp: lane_unposted_def split: lane_pc.splits)

lemma subseq_concat_map: "(\<And>x. subseq (f x) (g x)) \<Longrightarrow> subseq (concat (map f xs)) (concat (map g xs))"
  by (induction xs) (auto intro: list_emb_append_mono)

lemma rlxd_reports_distinct:
  assumes L: "lawful E" and r: "rlxd_reach E limit cap n name p" and inv: "rlxd_report_inv ms p"
  shows "distinct (map cm_core ms)"
proof -
  let ?d = "concat (map (\<lambda>d. if lane_clone d then lane_cores d else []) (dispatchers p))"
  let ?r = "map rt_core (filter (\<lambda>x. \<exists>s. rt_pc x = RNotify s) (spawned p))"
  have dist: "distinct (map rt_core (spawned p) @ in_hands p)"
    using located_distinct(1) [OF rlxd_pool_wf [OF L r] rlxd_pool_order [OF L r] rlxd_pool_addresses [OF L r]]
    unfolding located_def distinct_append set_append by blast
  have "in_hands p = concat (map lane_cores (dispatchers p))"
    unfolding in_hands_def map_through_indices ..
  moreover have "subseq ?d (concat (map lane_cores (dispatchers p)))" by (rule subseq_concat_map) simp
  ultimately have sub: "subseq ?d (in_hands p)" by simp
  then have d: "distinct ?d" "set ?d \<subseteq> set (in_hands p)"
    using dist subseq_set [OF sub] subseq_distinct [OF sub] unfolding distinct_append by blast+
  have t: "distinct ?r" "set ?r \<subseteq> set (map rt_core (spawned p))" using dist by (auto simp: distinct_map_filter)
  note once = rlxd_pool_once [OF L r, unfolded rlxd_once_def]
  have "unreported E p c" if "c \<in> set ?d \<or> c \<in> set ?r" for c
    using that
  proof
    assume "c \<in> set ?d"
    then have "\<exists>x \<in> set (dispatchers p). c \<in> set (lane_cores x)" by (auto split: if_splits)
    then show ?thesis unfolding unreported_def by blast
  next
    assume "c \<in> set ?r"
    then obtain x s where "x \<in> set (spawned p)" "rt_pc x = RNotify s" "rt_core x = c" by auto
    then have "\<exists>x \<in> set (spawned p). before_report x \<and> rt_core x = c" by (intro bexI [of _ x]) (simp_all add: before_report_def)
    then show ?thesis unfolding unreported_def by blast
  qed
  with once have "set (rlxd_posted p) \<inter> (set ?d \<union> set ?r) = {}" by blast
  moreover have "set ?d \<inter> set ?r = {}" using d t dist unfolding distinct_append by blast
  ultimately have all: "distinct (rlxd_posted p @ ?d @ ?r)"
    using once d t unfolding distinct_append set_append by blast
  have "mset (map cm_core ms) = image_mset cm_core (mset (posted (completion_notifier p) @ rlxd_unposted p))"
    using inv by (simp add: rlxd_report_inv_def)
  also have "\<dots> = mset (rlxd_posted p @ ?d @ ?r)"
    unfolding mset_map [symmetric] rlxd_unposted_def map_append run_unposted_cores lane_unposted_cores ..
  finally show ?thesis using all mset_eq_imp_distinct_iff by blast
qed

end
