(* ===== verification/RlxdSpec.thy ===== *)
theory RlxdSpec
  imports RlxdPlaces
begin

text \<open>
  What the relaxed pool promises, as a small machine: a list of waiting tasks per lane and a set of
  running ones. The code refines it.
\<close>

section \<open>The abstract pool\<close>

record lanes_spec =
  lanes_waiting :: "core_ref list list"
  lanes_running :: "core_ref set"

datatype lanes_event =
    Enqueue nat core_ref \<comment> \<open>a new task is queued behind the others of a lane\<close>
  | Bypass core_ref      \<comment> \<open>a new task starts at once, if the limit allows\<close>
  | StartLane nat        \<comment> \<open>the oldest task of a lane starts, if the limit allows\<close>
  | Skip nat             \<comment> \<open>the oldest task of a lane is cancelled or dropped\<close>
  | End core_ref         \<comment> \<open>a running task ends\<close>

definition lanes_spec_new :: "nat \<Rightarrow> lanes_spec" where
  "lanes_spec_new k = \<lparr>lanes_waiting = replicate k [], lanes_running = {}\<rparr>"

definition unknown :: "core_ref \<Rightarrow> lanes_spec \<Rightarrow> bool" where
  "unknown r s \<longleftrightarrow> r \<notin> set (concat (lanes_waiting s)) \<union> lanes_running s"

fun lanes_spec_step :: "nat \<Rightarrow> lanes_event \<Rightarrow> lanes_spec \<Rightarrow> lanes_spec option" where
  "lanes_spec_step n (Enqueue i r) s =
     (if i < length (lanes_waiting s) \<and> unknown r s
      then Some (s\<lparr>lanes_waiting := (lanes_waiting s)[i := lanes_waiting s ! i @ [r]]\<rparr>) else None)"
| "lanes_spec_step n (Bypass r) s =
     (if unknown r s \<and> card (lanes_running s) < n
      then Some (s\<lparr>lanes_running := insert r (lanes_running s)\<rparr>) else None)"
| "lanes_spec_step n (StartLane i) s =
     (if i < length (lanes_waiting s) \<and> lanes_waiting s ! i \<noteq> [] \<and> card (lanes_running s) < n
      then Some \<lparr>lanes_waiting = (lanes_waiting s)[i := tl (lanes_waiting s ! i)],
                 lanes_running = insert (hd (lanes_waiting s ! i)) (lanes_running s)\<rparr> else None)"
| "lanes_spec_step n (Skip i) s =
     (if i < length (lanes_waiting s) \<and> lanes_waiting s ! i \<noteq> []
      then Some (s\<lparr>lanes_waiting := (lanes_waiting s)[i := tl (lanes_waiting s ! i)]\<rparr>) else None)"
| "lanes_spec_step n (End r) s =
     (if r \<in> lanes_running s then Some (s\<lparr>lanes_running := lanes_running s - {r}\<rparr>) else None)"

text \<open>What the abstract pool guarantees: the limit, and no task in two places.\<close>

definition lanes_spec_ok :: "nat \<Rightarrow> lanes_spec \<Rightarrow> bool" where
  "lanes_spec_ok n s \<longleftrightarrow>
     finite (lanes_running s) \<and> card (lanes_running s) \<le> n \<and> distinct (concat (lanes_waiting s)) \<and>
     set (concat (lanes_waiting s)) \<inter> lanes_running s = {}"

lemma mset_concat_tl:
  assumes "i < length xss" "xss ! i \<noteq> []"
  shows "mset (concat xss) = add_mset (hd (xss ! i)) (mset (concat (xss[i := tl (xss ! i)])))"
proof -
  have "mset (concat (xss[i := ys])) + mset (xss ! i) = mset (concat xss) + mset ys" for ys :: "'a list"
    using assms(1) by (induction xss arbitrary: i) (auto split: nat.splits)
  from this [of "tl (xss ! i)"] show ?thesis using assms(2) by (cases "xss ! i") auto
qed

lemma distinct_concat_tl:
  assumes "i < length xss" "xss ! i \<noteq> []" "distinct (concat xss)"
  shows "distinct (concat (xss[i := tl (xss ! i)]))"
    "set (concat xss) = insert (hd (xss ! i)) (set (concat (xss[i := tl (xss ! i)])))"
    "hd (xss ! i) \<notin> set (concat (xss[i := tl (xss ! i)]))"
proof -
  let ?ys = "xss[i := tl (xss ! i)]"
  have m: "mset (concat xss) = mset (hd (xss ! i) # concat ?ys)" using mset_concat_tl [OF assms(1,2)] by simp
  from mset_eq_imp_distinct_iff [OF m] assms(3) have "distinct (hd (xss ! i) # concat ?ys)" by blast
  then show "distinct (concat ?ys)" "hd (xss ! i) \<notin> set (concat ?ys)" by simp_all
  from arg_cong [OF m, of set_mset] show "set (concat xss) = insert (hd (xss ! i)) (set (concat ?ys))" by simp
qed

lemma distinct_concat_snoc:
  assumes "i < length xss" "distinct (concat xss)" "r \<notin> set (concat xss)"
  shows "distinct (concat (xss[i := xss ! i @ [r]]))"
    "set (concat (xss[i := xss ! i @ [r]])) = insert r (set (concat xss))"
proof -
  let ?ys = "xss[i := xss ! i @ [r]]"
  have m: "mset (concat ?ys) = mset (r # concat xss)"
    using mset_concat_update_append [OF assms(1), of "[r]"] by simp
  from mset_eq_imp_distinct_iff [OF m] assms(2,3) show "distinct (concat ?ys)" by simp
  from arg_cong [OF m, of set_mset] show "set (concat ?ys) = insert r (set (concat xss))" by simp
qed

interpretation abstract_lanes: invariant "\<lambda>s. s = lanes_spec_new k" "lanes_spec_step n" "lanes_spec_ok n" for k n
proof unfold_locales
  show "s = lanes_spec_new k \<Longrightarrow> lanes_spec_ok n s" for s by (simp add: lanes_spec_ok_def lanes_spec_new_def)
  fix s e t
  assume ok: "lanes_spec_ok n s" and st: "lanes_spec_step n e s = Some t"
  show "lanes_spec_ok n t"
  proof (cases e)
    case (Enqueue i r)
    with ok st distinct_concat_snoc [of i "lanes_waiting s" r] show ?thesis
      by (auto simp: lanes_spec_ok_def unknown_def simp del: set_concat split: if_splits)
  next
    case (Bypass r)
    with ok st show ?thesis by (auto simp: lanes_spec_ok_def unknown_def card_insert_if simp del: set_concat split: if_splits)
  next
    case (StartLane i)
    with st have i: "i < length (lanes_waiting s)" "lanes_waiting s ! i \<noteq> []" by (auto split: if_splits)
    with distinct_concat_tl [OF i] ok st StartLane show ?thesis
      by (auto simp: lanes_spec_ok_def card_insert_if simp del: set_concat split: if_splits)
  next
    case (Skip i)
    with st have i: "i < length (lanes_waiting s)" "lanes_waiting s ! i \<noteq> []" by (auto split: if_splits)
    with distinct_concat_tl [OF i] ok st Skip show ?thesis
      by (auto simp: lanes_spec_ok_def simp del: set_concat split: if_splits)
  next
    case (End r)
    with ok st show ?thesis by (auto simp: lanes_spec_ok_def card_Diff_singleton_if simp del: set_concat split: if_splits)
  qed
qed

lemma run_skip:
  "i < length (lanes_waiting s) \<Longrightarrow> lanes_waiting s ! i = rs @ w \<Longrightarrow>
     run (lanes_spec_step n) (replicate (length rs) (Skip i)) s = Some (s\<lparr>lanes_waiting := (lanes_waiting s)[i := w]\<rparr>)"
proof (induction rs arbitrary: s)
  case Nil
  then show ?case using list_update_id [of "lanes_waiting s" i] by simp
next
  case (Cons r rs)
  from Cons.IH [of "s\<lparr>lanes_waiting := (lanes_waiting s)[i := rs @ w]\<rparr>"] Cons.prems show ?case by simp
qed

section \<open>The abstraction of the relaxed pool\<close>

text \<open>A lane's tasks: the one in its dispatcher's hands, then the queued ones.\<close>

definition lane_tasks ::
  "('r, 'n, 's, 'q, 'c, 'o, 'h) env \<Rightarrow> ('r, 'n, 's, 'q, 'c, 'o, 'h) rlxd \<Rightarrow> nat \<Rightarrow> core_ref list" where
  "lane_tasks E p i = in_hand_of p i @ lane_items (q_ops E) (lane_queue p) ! i"

definition running_tasks :: "('r, 'n, 's, 'q, 'c, 'o, 'h) rlxd \<Rightarrow> core_ref set" where
  "running_tasks p = rt_core ` set (filter run_holds (spawned p))"

definition abs_rlxd ::
  "('r, 'n, 's, 'q, 'c, 'o, 'h) env \<Rightarrow> ('r, 'n, 's, 'q, 'c, 'o, 'h) rlxd \<Rightarrow> lanes_spec" where
  "abs_rlxd E p = \<lparr>lanes_waiting = map (lane_tasks E p) [0..<length (dispatchers p)],
     lanes_running = running_tasks p\<rparr>"

lemma running_tasks_card:
  "card (running_tasks p) \<le> count_if run_holds (spawned p)"
  using card_length [of "map rt_core (filter run_holds (spawned p))"]
  by (simp add: running_tasks_def count_if_def)

lemma abs_waiting_nth [simp]:
  "i < length (dispatchers p) \<Longrightarrow> lanes_waiting (abs_rlxd E p) ! i = lane_tasks E p i"
  "length (lanes_waiting (abs_rlxd E p)) = length (dispatchers p)"
  "lanes_running (abs_rlxd E p) = running_tasks p"
  by (simp_all add: abs_rlxd_def)

text \<open>Two states in which one lane at most differs.\<close>

lemma abs_rlxd_update:
  assumes "length (dispatchers q) = length (dispatchers p)" "i < length (dispatchers p)"
    and "\<And>j. j < length (dispatchers p) \<Longrightarrow> j \<noteq> i \<Longrightarrow> lane_tasks E q j = lane_tasks E p j"
  shows "abs_rlxd E q = \<lparr>lanes_waiting = (lanes_waiting (abs_rlxd E p))[i := lane_tasks E q i],
    lanes_running = running_tasks q\<rparr>"
proof -
  have "map (lane_tasks E q) [0..<length (dispatchers q)] =
      (map (lane_tasks E p) [0..<length (dispatchers p)])[i := lane_tasks E q i]"
    by (rule nth_equalityI) (use assms in \<open>auto simp: nth_upd\<close>)
  then show ?thesis by (simp add: abs_rlxd_def)
qed

lemma abs_rlxd_same:
  assumes "length (dispatchers q) = length (dispatchers p)" "running_tasks q = running_tasks p"
    and "\<And>j. j < length (dispatchers p) \<Longrightarrow> lane_tasks E q j = lane_tasks E p j"
  shows "abs_rlxd E q = abs_rlxd E p"
  using assms by (simp add: abs_rlxd_def)

text \<open>What a lane still holds, by the histories of the lane.\<close>

lemma lane_items_histories:
  "lanes_inv C k q \<Longrightarrow> i < k \<Longrightarrow> lane_items C q ! i = drop (length (lane_received q ! i)) (lane_sent q ! i)"
  by (simp add: lanes_inv_def)

text \<open>A task on its way into the pool is nowhere in it.\<close>

lemma unsettled_unknown:
  assumes dist: "distinct (places E p)" and k: "lanes_inv (q_ops E) (length (dispatchers p)) (lane_queue p)"
    and r: "r < length (submissions p)" "unsettled (snd (submissions p ! r))"
  shows "unknown (sub_core (submissions p ! r)) (abs_rlxd E p)"
proof -
  let ?c = "sub_core (submissions p ! r)"
  have "?c \<in> set (map sub_core (filter (\<lambda>s. unsettled (snd s)) (submissions p)))"
    using r nth_mem [OF r(1)] by force
  then have n: "?c \<notin> set (map rt_core (spawned p))" "?c \<notin> set (in_hands p)"
    "?c \<notin> set (concat (lane_items (q_ops E) (lane_queue p)))"
    using dist unfolding places_def located_def distinct_append set_append by blast+
  have "?c \<notin> set (lane_tasks E p i)" if i: "i < length (dispatchers p)" for i
  proof -
    have "i < length (lane_items (q_ops E) (lane_queue p))" using k i by (simp add: lanes_inv_def)
    then have "set (lane_items (q_ops E) (lane_queue p) ! i) \<subseteq> set (concat (lane_items (q_ops E) (lane_queue p)))"
      using nth_mem by fastforce
    moreover have "set (in_hand_of p i) \<subseteq> set (in_hands p)" using i by (auto simp: in_hands_def)
    ultimately show ?thesis using n(2,3) unfolding lane_tasks_def set_append by blast
  qed
  moreover have "?c \<notin> running_tasks p" using n(1) by (auto simp: running_tasks_def)
  ultimately show ?thesis by (auto simp: unknown_def abs_rlxd_def)
qed

section \<open>The refinement\<close>

lemma lanes_stutter: "abs_rlxd E q = abs_rlxd E p \<Longrightarrow> \<exists>fs. run (lanes_spec_step n) fs (abs_rlxd E p) = Some (abs_rlxd E q)"
  by (intro exI [of _ "[]"]) simp

lemma lanes_one:
  "lanes_spec_step n f (abs_rlxd E p) = Some (abs_rlxd E q) \<Longrightarrow>
     \<exists>fs. run (lanes_spec_step n) fs (abs_rlxd E p) = Some (abs_rlxd E q)"
  by (intro exI [of _ "[f]"]) simp

lemma lanes_skip:
  assumes "length (dispatchers q) = length (dispatchers p)" "i < length (dispatchers p)"
    and "\<And>j. j < length (dispatchers p) \<Longrightarrow> j \<noteq> i \<Longrightarrow> lane_tasks E q j = lane_tasks E p j"
    and "lane_tasks E p i = rs @ lane_tasks E q i" "running_tasks q = running_tasks p"
  shows "\<exists>fs. run (lanes_spec_step n) fs (abs_rlxd E p) = Some (abs_rlxd E q)"
  using run_skip [of i "abs_rlxd E p" rs "lane_tasks E q i" n] assms(2,4,5) abs_rlxd_update [OF assms(1-3)]
  by (intro exI [of _ "replicate (length rs) (Skip i)"]) (simp add: abs_rlxd_def)

lemma sub_refines:
  assumes L: "lawful E" and wf: "rlxd_wf E k p" and wf': "rlxd_wf E k q" and dist: "distinct (places E p)"
    and perm: "rlxd_permits E n p"
    and f: "sub_frame k r pc pc' p q" and e: "sub_effect E k (fst (submissions p ! r)) p q pc pc'"
  shows "\<exists>fs. run (lanes_spec_step n) fs (abs_rlxd E p) = Some (abs_rlxd E q)"
proof -
  have C: "chan_laws (q_ops E)" and S: "sem_laws (s_ops E)" using L by (auto simp: lawful_def)
  have d: "dispatchers q = dispatchers p" and r: "r < length (submissions p)" "unsettled (snd (submissions p ! r))"
    and pc: "pc = snd (submissions p ! r)" using f by (auto simp: sub_frame_def)
  have len: "length (dispatchers p) = k" and li: "lanes_inv (q_ops E) k (lane_queue p)"
    and li': "lanes_inv (q_ops E) k (lane_queue q)" using wf wf' by (simp_all add: rlxd_wf_def)
  let ?c = "sub_core (submissions p ! r)"
  have new: "unknown ?c (abs_rlxd E p)" by (rule unsettled_unknown [OF dist _ r]) (simp add: len li)
  have same: ?thesis if "spawned q = spawned p" "lane_items (q_ops E) (lane_queue q) = lane_items (q_ops E) (lane_queue p)"
    by (rule lanes_stutter, rule abs_rlxd_same) (use that d in \<open>simp_all add: running_tasks_def lane_tasks_def\<close>)
  from e show ?thesis
  proof cases
    case (sub_spawn j b)
    have "sub_holds (snd (submissions p ! r))" unfolding pc [symmetric] sub_spawn(1) by simp
    then have "0 < count_if (sub_holds \<circ> snd) (submissions p)" using count_if_pos [OF r(1), of "sub_holds \<circ> snd"] by simp
    then have "card (running_tasks p) < n" using perm running_tasks_card [of p] by (simp add: rlxd_permits_def)
    moreover have "running_tasks q = insert ?c (running_tasks p)"
      by (simp add: running_tasks_def sub_spawn run_holds_def)
    ultimately have "lanes_spec_step n (Bypass ?c) (abs_rlxd E p) = Some (abs_rlxd E q)"
      using new by (simp add: abs_rlxd_def lane_tasks_def [abs_def] d sub_spawn(6))
    then show ?thesis by (rule lanes_one)
  next
    case (sub_push i res)
    have run: "running_tasks q = running_tasks p" by (simp add: running_tasks_def sub_push(6))
    have ls: "length (lane_sent (lane_queue p)) = k" using li by (simp add: lanes_inv_def)
    from lane_push_effect [OF C S li sub_push(3), of "fst (submissions p ! r)"] sub_push(7)
    consider (sent) "lane_received (lane_queue q) = lane_received (lane_queue p)"
        "lane_sent (lane_queue q) = (lane_sent (lane_queue p))[i := lane_sent (lane_queue p) ! i @ [?c]]"
      | (failed) "lane_received (lane_queue q) = lane_received (lane_queue p)"
        "lane_sent (lane_queue q) = lane_sent (lane_queue p)" by auto
    then show ?thesis
    proof cases
      case sent
      have old: "lane_sent (lane_queue p) ! i = lane_received (lane_queue p) ! i @ lane_items (q_ops E) (lane_queue p) ! i"
        using li sub_push(3) by (simp add: lanes_inv_def)
      have items: "lane_items (q_ops E) (lane_queue q) ! j =
          lane_items (q_ops E) (lane_queue p) ! j @ (if j = i then [?c] else [])" if "j < k" for j
        using lane_items_histories [OF li' that] lane_items_histories [OF li that] old ls that
        by (cases "j = i") (simp_all add: sent)
      have tasks: "lane_tasks E q j = lane_tasks E p j @ (if j = i then [?c] else [])" if "j < k" for j
        by (simp add: lane_tasks_def d items [OF that])
      have "abs_rlxd E q = \<lparr>lanes_waiting = (lanes_waiting (abs_rlxd E p))[i := lane_tasks E q i],
          lanes_running = running_tasks q\<rparr>"
        by (rule abs_rlxd_update) (use tasks d len sub_push(3) in simp_all)
      then have "lanes_spec_step n (Enqueue i ?c) (abs_rlxd E p) = Some (abs_rlxd E q)"
        using new tasks [OF sub_push(3)] sub_push(3) len run by simp
      then show ?thesis by (rule lanes_one)
    next
      case failed
      have "lane_tasks E q j = lane_tasks E p j" if "j < k" for j
        using lane_items_histories [OF li' that] lane_items_histories [OF li that]
        by (simp add: lane_tasks_def d failed)
      then show ?thesis by (intro lanes_stutter abs_rlxd_same) (simp_all add: d run len)
    qed
  qed (auto intro: same simp: lanes_same_def)
qed

lemma lane_refines:
  assumes L: "lawful E" and wf: "rlxd_wf E k p" and wf': "rlxd_wf E k q" and perm: "rlxd_permits E n p"
    and f: "lane_frame i pc pc' p q" and e: "lane_effect E i p q pc pc'"
  shows "\<exists>fs. run (lanes_spec_step n) fs (abs_rlxd E p) = Some (abs_rlxd E q)"
proof -
  have C: "chan_laws (q_ops E)" and S: "sem_laws (s_ops E)" using L by (auto simp: lawful_def)
  have i: "i < length (dispatchers p)" and pc: "pc = dispatchers p ! i" and d: "dispatchers q = (dispatchers p)[i := pc']"
    using f by (auto simp: lane_frame_def)
  have len: "length (dispatchers p) = k" "length (dispatchers q) = length (dispatchers p)"
    and li: "lanes_inv (q_ops E) k (lane_queue p)" and li': "lanes_inv (q_ops E) k (lane_queue q)"
    using wf wf' by (simp_all add: rlxd_wf_def)
  have ik: "i < k" using i len by simp
  have hands: "in_hand_of q j = (if j = i then lane_cores pc' else in_hand_of p j)" if "j < k" for j
    using that i by (simp add: d nth_upd)
  have lens: "length (lane_sent (lane_queue p)) = k" "length (lane_received (lane_queue p)) = k"
    and ord: "lane_sent (lane_queue p) ! i =
      lane_received (lane_queue p) ! i @ lane_items (q_ops E) (lane_queue p) ! i"
    using li ik by (simp_all add: lanes_inv_def)
  note hist = lane_items_histories [OF li] lane_items_histories [OF li']
  text \<open>Nothing moves between the lanes and the hands but, perhaps, out of the hands.\<close>
  have keep: ?thesis if "lane_items (q_ops E) (lane_queue q) = lane_items (q_ops E) (lane_queue p)"
    "spawned q = spawned p" "lane_cores pc = rs @ lane_cores pc'" for rs
    by (rule lanes_skip [OF len(2) i, of E rs])
      (use that hands i in \<open>simp_all add: lane_tasks_def running_tasks_def len(1) pc\<close>)
  have quiet: ?thesis if "lane_items (q_ops E) (lane_queue q) = lane_items (q_ops E) (lane_queue p)"
    "spawned q = spawned p" "lane_cores pc' = lane_cores pc \<or> lane_cores pc' = []"
    using keep [OF that(1,2), of "[]"] keep [OF that(1,2), of "lane_cores pc"] that(3) by auto
  from e show ?thesis
  proof cases
    case lane_quiet
    then show ?thesis by (intro quiet) (auto simp: lane_quiet_def)
  next
    case (lane_recv x)
    note eff = lane_recv_effect [OF C li ik lane_recv(2)]
    have run: "running_tasks q = running_tasks p" by (simp add: running_tasks_def lane_recv)
    have hand: "lane_cores pc = []" by (simp add: lane_recv(1))
    have "lane_tasks E q j = lane_tasks E p j" if j: "j < k" for j
    proof (cases x)
      case (RecvOk t)
      with eff have rec: "lane_sent (lane_queue q) = lane_sent (lane_queue p)"
        "lane_received (lane_queue q) = (lane_received (lane_queue p))[i := lane_received (lane_queue p) ! i @ [mt_core t]]"
        by simp_all
      have "lane_sent (lane_queue q) ! i = lane_received (lane_queue q) ! i @ lane_items (q_ops E) (lane_queue q) ! i"
        using li' ik by (simp add: lanes_inv_def)
      then have "lane_items (q_ops E) (lane_queue p) ! i = mt_core t # lane_items (q_ops E) (lane_queue q) ! i"
        using ord lens ik by (simp add: rec)
      moreover have "lane_items (q_ops E) (lane_queue q) ! j = lane_items (q_ops E) (lane_queue p) ! j" if "j \<noteq> i"
        using that j by (simp add: hist rec)
      ultimately show ?thesis using hands [OF j] hand lane_recv(6) RecvOk by (simp add: lane_tasks_def pc)
    next
      case RecvPending
      with eff have "lane_sent (lane_queue q) = lane_sent (lane_queue p)"
        "lane_received (lane_queue q) = lane_received (lane_queue p)" by simp_all
      then show ?thesis using hands [OF j] hand lane_recv(6) RecvPending j by (simp add: lane_tasks_def pc hist)
    next
      case RecvDisconnected
      with eff have "lane_sent (lane_queue q) = lane_sent (lane_queue p)"
        "lane_received (lane_queue q) = lane_received (lane_queue p)" by simp_all
      then show ?thesis using hands [OF j] hand lane_recv(6) RecvDisconnected j by (simp add: lane_tasks_def pc hist)
    qed
    then show ?thesis by (intro lanes_stutter abs_rlxd_same) (simp_all add: len run)
  next
    case (lane_take u)
    then show ?thesis by (intro quiet) (auto simp: lane_release_def)
  next
    case (lane_spawn t b)
    have h: "lane_holds (dispatchers p ! i)" "lane_cores (dispatchers p ! i) = [mt_core t]"
      unfolding pc [symmetric] lane_spawn(1) by simp_all
    then have "0 < count_if lane_holds (dispatchers p)" using count_if_pos [OF i, of lane_holds] by simp
    then have lt: "card (running_tasks p) < n" using perm running_tasks_card [of p] by (simp add: rlxd_permits_def)
    have tasks: "lane_tasks E p i = mt_core t # lane_tasks E q i" "j < k \<Longrightarrow> j \<noteq> i \<Longrightarrow> lane_tasks E q j = lane_tasks E p j" for j
      using h(2) hands ik lane_spawn by (simp_all add: lane_tasks_def)
    have "running_tasks q = insert (mt_core t) (running_tasks p)"
      by (simp add: running_tasks_def lane_spawn run_holds_def)
    moreover have "abs_rlxd E q = \<lparr>lanes_waiting = (lanes_waiting (abs_rlxd E p))[i := lane_tasks E q i],
        lanes_running = running_tasks q\<rparr>"
      by (rule abs_rlxd_update [OF len(2) i]) (simp add: tasks len)
    ultimately have "lanes_spec_step n (StartLane i) (abs_rlxd E p) = Some (abs_rlxd E q)"
      using lt i tasks(1) by simp
    then show ?thesis by (rule lanes_one)
  next
    case (lane_exit rs)
    note eff = lane_drop_receiver_effect [OF C S li ik lane_exit(3)]
    have h: "lane_cores (dispatchers p ! i) = []" unfolding pc [symmetric] lane_exit(1) by simp
    have rec: "lane_sent (lane_queue q) = lane_sent (lane_queue p)"
      "lane_received (lane_queue q) = (lane_received (lane_queue p))[i := lane_received (lane_queue p) ! i @ rs]"
      using eff by simp_all
    have "lane_sent (lane_queue q) ! i = lane_received (lane_queue q) ! i @ lane_items (q_ops E) (lane_queue q) ! i"
      using li' ik by (simp add: lanes_inv_def)
    then have it: "lane_items (q_ops E) (lane_queue p) ! i = rs @ lane_items (q_ops E) (lane_queue q) ! i"
      using ord lens ik by (simp add: rec)
    have other: "lane_tasks E q j = lane_tasks E p j" if "j < length (dispatchers p)" "j \<noteq> i" for j
      using that hands [of j] len by (simp add: lane_tasks_def hist rec)
    show ?thesis
    proof (rule lanes_skip [OF len(2) i other, of rs])
      show "lane_tasks E p i = rs @ lane_tasks E q i"
        using h hands [OF ik] it lane_exit(2) by (simp add: lane_tasks_def)
      show "running_tasks q = running_tasks p" by (simp add: running_tasks_def lane_exit)
    qed
  qed (auto intro: quiet)
qed

lemma run_refines:
  assumes dist: "distinct (map rt_core (spawned p))" and f: "run_frame i x p q"
    and e: "run_effect E (spawned p ! i) p q (rt_pc (spawned p ! i)) (rt_pc x)"
  shows "\<exists>fs. run (lanes_spec_step n) fs (abs_rlxd E p) = Some (abs_rlxd E q)"
proof -
  have i: "i < length (spawned p)" and q: "spawned q = (spawned p)[i := x]" "dispatchers q = dispatchers p"
    "lane_queue q = lane_queue p" and x: "rt_core x = rt_core (spawned p ! i)"
    using f by (simp_all add: run_frame_def)
  have tasks: "lane_tasks E q = lane_tasks E p" by (simp add: lane_tasks_def [abs_def] q)
  show ?thesis
  proof (cases "run_holds x = run_holds (spawned p ! i)")
    case True
    from filter_image_same [where f = rt_core, OF i x True] show ?thesis
      by (intro lanes_stutter abs_rlxd_same) (simp_all add: q tasks running_tasks_def)
  next
    case False
    then have h: "run_holds (spawned p ! i)" "\<not> run_holds x"
      using e by (auto simp: run_holds_def elim!: run_effect.cases)
    have "rt_core (spawned p ! i) \<in> running_tasks p" using i h(1) by (force simp: running_tasks_def)
    moreover have "running_tasks q = running_tasks p - {rt_core (spawned p ! i)}"
      using filter_nth_distinct [OF dist i x h] by (simp add: running_tasks_def q)
    ultimately have "lanes_spec_step n (End (rt_core (spawned p ! i))) (abs_rlxd E p) = Some (abs_rlxd E q)"
      by (simp add: abs_rlxd_def q tasks)
    then show ?thesis by (rule lanes_one)
  qed
qed

lemma rlxd_step_refines:
  assumes L: "lawful E" and r: "rlxd_reach E limit cap m name p" and st: "rlxd_step E e p = Some q"
  shows "\<exists>fs. run (lanes_spec_step (max limit 1)) fs (abs_rlxd E p) = Some (abs_rlxd E q)"
proof -
  note wf = rlxd_pool_wf [OF L r] and wf' = rlxd_pool_wf [OF L reach_step [OF r st]]
  have dist: "distinct (places E p)"
    by (rule places_distinct [OF wf rlxd_pool_order [OF L r] rlxd_pool_addresses [OF L r]])
  have perm: "rlxd_permits E (max limit 1) p" using rlxd_pool_running [OF L r] by (simp add: rlxd_running_def)
  from L wf st show ?thesis
  proof (cases rule: rlxd_step_cases)
    case quiet
    then show ?thesis
      by (intro lanes_stutter abs_rlxd_same)
        (simp_all add: quiet_def running_tasks_def lane_tasks_def lanes_same_def)
  next
    case (new ls f)
    then show ?thesis
      by (intro lanes_stutter abs_rlxd_same) (simp_all add: fresh_submission_def running_tasks_def lane_tasks_def)
  next
    case (sub s pc pc')
    then show ?thesis by (rule sub_refines [OF L wf wf' dist perm])
  next
    case (lane i pc pc')
    then show ?thesis by (rule lane_refines [OF L wf wf' perm])
  next
    case (run i x)
    have "distinct (map rt_core (spawned p))" using dist by (simp add: places_def located_def)
    from run_refines [OF this run] show ?thesis .
  qed
qed

interpretation rlxd_refinement: component "\<lambda>p. lawful E \<and> p = rlxd_new E limit cap m name" "rlxd_step E"
    "abs_rlxd E" "\<lambda>s. s = lanes_spec_new (max m 1)" "lanes_spec_step (max limit 1)" for E limit cap m name
proof unfold_locales
  show "lawful E \<and> p = rlxd_new E limit cap m name \<Longrightarrow> abs_rlxd E p = lanes_spec_new (max m 1)" for p
    by (auto simp: abs_rlxd_def lanes_spec_new_def lane_tasks_def running_tasks_def rlxd_new_def Let_def lanes_new_def
        lane_items_def lawful_def ch_new_items intro: nth_equalityI)
  fix p e q
  assume r: "reach (\<lambda>p. lawful E \<and> p = rlxd_new E limit cap m name) (rlxd_step E) p"
    and st: "rlxd_step E e p = Some q"
  have L: "lawful E" using r by (induction rule: reach.induct) simp_all
  with r have "rlxd_reach E limit cap m name p" by simp
  from rlxd_step_refines [OF L this st]
  show "\<exists>fs. run (lanes_spec_step (max limit 1)) fs (abs_rlxd E p) = Some (abs_rlxd E q)" .
qed

end
