(* ===== verification/RlxdGauge.thy ===== *)
theory RlxdGauge
  imports RlxdSweep
begin

text \<open>
  The counts of the relaxed pool. \<open>active_task_count\<close> reads one shard's counter after another, so
  what it returns while the pool goes on need not have been the number at any moment: each read is
  exact, the sum of the first \<open>k\<close> reads is at most \<open>k\<close> times the limit, and a call that nothing
  interrupts returns the exact number.
\<close>

lemma counter_exact:
  "counters_inv p \<Longrightarrow> j < length (shards p) \<Longrightarrow> deferred_len (shards p ! j) = of_nat (in_shard j p)"
  by (simp add: counters_inv_def deferred_len_def)

lemma rlxd_gauges_cases:
  assumes st: "rlxd_step E e p = Some q"
  obtains (same) "gauges q = gauges p" | (active) "gauges q = gauges p @ [GaugeActive 0 0]"
    | (queued) "gauges q = gauges p @ [GaugeQueued 0 0]" | (step) i where "gauge_step E i p = Some q"
proof (cases "active_event e")
  case True
  with same active_others [OF st] show ?thesis by (simp add: others_same_def)
next
  case False
  show ?thesis
  proof (cases e)
    case RActiveCount
    with st active show ?thesis by (auto simp: with_manager_def gauge_defs split: if_splits)
  next
    case RQueuedCount
    with st queued show ?thesis by (auto simp: with_manager_def gauge_defs split: if_splits)
  next
    case (RStepGauge i)
    with st step show ?thesis by simp
  next
    case (RStepShutdown k)
    with st have "gauges q = gauges p"
      by (auto simp: stop_step_def rlxd_set_defs split: if_splits stop_pc.splits option.splits prod.splits list.splits)
    then show ?thesis by (rule same)
  next
    case (RTimeoutShutdown k)
    with st have "gauges q = gauges p"
      by (auto simp: stop_timeout_def rlxd_set_defs split: if_splits stop_pc.splits nat.splits list.splits)
    then show ?thesis by (rule same)
  next
    case (RStepDrop k)
    with st have "gauges q = gauges p"
      by (auto simp: rlxd_drop_step_def Let_def split: if_splits drop_pc.splits)
    then show ?thesis by (rule same)
  next
    case (RCancelLabels ls)
    with st have "gauges q = gauges p"
      by (auto simp: with_manager_def rlxd_cancel_tasks_by_labels_def split: if_splits)
    then show ?thesis by (rule same)
  next
    case (RStepCancel k)
    with st have "gauges q = gauges p" by (auto simp: label_sweep_step_def split: if_splits option.splits)
    then show ?thesis by (rule same)
  qed (use st False in \<open>auto simp: active_event_def with_manager_def rlxd_with_handle_def await_step_def
      detach_step_def stop_abandon_def split: if_splits option.splits sum.splits prod.splits intro: same\<close>)
qed

section \<open>What a count may read\<close>

definition gauges_bounded :: "nat \<Rightarrow> ('r, 'n, 's, 'q, 'c, 'o, 'h) rlxd \<Rightarrow> bool" where
  "gauges_bounded b p \<longleftrightarrow>
     (\<forall>k n. GaugeActive k n \<in> set (gauges p) \<longrightarrow> k \<le> length (shards p) \<and> unat n \<le> k * b)"

lemma unat_plus_le: "unat m \<le> a \<Longrightarrow> unat n \<le> b \<Longrightarrow> unat (m + n) \<le> a + b" for m n :: "'a::len word"
  by (simp add: unat_word_ariths) (meson add_mono le_trans mod_less_eq_dividend)

lemma gauge_step_bounded:
  assumes inv: "gauges_bounded b p" and st: "gauge_step E i p = Some q"
    and le: "\<And>j. j < length (shards p) \<Longrightarrow> unat (deferred_len (shards p ! j)) \<le> b"
  shows "gauges_bounded b q"
proof -
  have shards: "shards q = shards p" using gauge_step_frame [OF st] by auto
  have i: "i < length (gauges p)" using st by (auto simp: gauge_step_def split: if_splits)
  then have mem: "gauges p ! i \<in> set (gauges p)" by simp
  have "k \<le> length (shards p) \<and> unat n \<le> k * b" if g: "GaugeActive k n \<in> set (gauges q)" for k n
  proof -
    consider "GaugeActive k n \<in> set (gauges p)"
      | k' n' where "gauges p ! i = GaugeActive k' n'" "k' < length (shards p)"
          "k = Suc k'" "n = n' + deferred_len (shards p ! k')"
      using st g
      by (auto simp: gauge_step_def Let_def split: if_splits gauge_pc.splits dest!: set_update_subset_insert [THEN subsetD])
    then show ?thesis
    proof cases
      case 1
      with inv show ?thesis by (simp add: gauges_bounded_def)
    next
      case 2
      with inv mem have "unat n' \<le> k' * b" by (auto simp: gauges_bounded_def)
      from unat_plus_le [OF this le [OF 2(2)]] 2 show ?thesis by (simp add: add.commute)
    qed
  qed
  then show ?thesis by (simp add: shards gauges_bounded_def)
qed

lemma rlxd_step_length_shards:
  assumes "lawful E" "rlxd_reach E limit cap n name p" "rlxd_step E e p = Some q"
  shows "length (shards q) = length (shards p)"
  using rlxd_pool_wf [OF assms(1,2)] rlxd_pool_wf [OF assms(1) reach_step [OF assms(2,3)]] by (simp add: rlxd_wf_def)

lemma rlxd_counter_le:
  assumes "lawful E" "rlxd_reach E limit cap n name p" "j < length (shards p)"
  shows "unat (deferred_len (shards p ! j)) \<le> max limit 1"
proof -
  have perm: "rlxd_permits E (max limit 1) p" and cnt: "counters_inv p"
    using rlxd_pool_running [OF assms(1,2)] by (simp_all add: rlxd_running_def)
  have "length (dispatchers p) = length (shards p)" using rlxd_pool_wf [OF assms(1,2)] by (simp add: rlxd_wf_def)
  note total = in_shard_total [OF this]
  have "in_shard j p \<le> (\<Sum>j < length (shards p). in_shard j p)" using assms(3) by (intro member_le_sum) auto
  with total perm have "in_shard j p \<le> max limit 1" by (simp add: rlxd_permits_def)
  with unat_of_nat_le show ?thesis unfolding counter_exact [OF cnt assms(3)] by (rule le_trans)
qed

interpretation rlxd_gauges: relative_invariant "\<lambda>p. p = rlxd_new E limit cap n name" "rlxd_step E"
  "\<lambda>p. lawful E \<longrightarrow> gauges_bounded (max limit 1) p" for E limit cap n name
proof
  fix p show "p = rlxd_new E limit cap n name \<Longrightarrow> lawful E \<longrightarrow> gauges_bounded (max limit 1) p"
    by (simp add: rlxd_new_def Let_def gauges_bounded_def)
next
  fix p e q
  assume r: "rlxd_reach E limit cap n name p" and inv: "lawful E \<longrightarrow> gauges_bounded (max limit 1) p"
    and st: "rlxd_step E e p = Some q"
  show "lawful E \<longrightarrow> gauges_bounded (max limit 1) q"
  proof
    assume L: "lawful E"
    with inv have b: "gauges_bounded (max limit 1) p" by blast
    note len = rlxd_step_length_shards [OF L r st]
    from st show "gauges_bounded (max limit 1) q"
    proof (cases rule: rlxd_gauges_cases)
      case (step i)
      from gauge_step_bounded [OF b this rlxd_counter_le [OF L r]] show ?thesis .
    qed (use b len in \<open>auto simp: gauges_bounded_def\<close>)
  qed
qed

section \<open>A call that nothing interrupts\<close>

lemma gauge_run:
  assumes "i < length (gauges p)" "gauges p ! i = GaugeActive k n" "k + m \<le> length (shards p)"
  shows "run (rlxd_step E) (replicate m (RStepGauge i)) p =
    Some (p\<lparr>gauges := (gauges p)[i := GaugeActive (k + m) (n + (\<Sum>j \<leftarrow> [k..<k + m]. deferred_len (shards p ! j)))]\<rparr>)"
  using assms
proof (induction m arbitrary: k n p)
  case 0
  then have "(gauges p)[i := GaugeActive k n] = gauges p" by (metis list_update_id)
  then show ?case by simp
next
  case (Suc m)
  let ?p = "p\<lparr>gauges := (gauges p)[i := GaugeActive (Suc k) (n + deferred_len (shards p ! k))]\<rparr>"
  have "rlxd_step E (RStepGauge i) p = Some ?p" using Suc.prems by (simp add: gauge_step_def)
  with Suc.IH [of ?p "Suc k" "n + deferred_len (shards p ! k)"] Suc.prems show ?case
    by (simp add: upt_rec [of k] add.assoc)
qed

lemma active_count_alone:
  assumes "0 < idle_managers p"
  shows "\<exists>q. run (rlxd_step E) (RActiveCount # replicate (length (shards p)) (RStepGauge (length (gauges p)))) p = Some q \<and>
    active_task_count_result q (length (gauges p)) = Some (\<Sum>d \<leftarrow> shards p. deferred_len d)"
proof -
  let ?p = "rlxd_active_task_count p"
  have "rlxd_step E RActiveCount p = Some ?p" using assms by (simp add: with_manager_def)
  moreover from gauge_run [of "length (gauges p)" ?p 0 0 "length (shards p)" E]
  have "run (rlxd_step E) (replicate (length (shards p)) (RStepGauge (length (gauges p)))) ?p =
      Some (?p\<lparr>gauges := gauges p @ [GaugeActive (length (shards p)) (\<Sum>d \<leftarrow> shards p. deferred_len d)]\<rparr>)"
    by (simp add: gauge_defs map_through_indices nth_append)
  ultimately show ?thesis by (simp add: active_task_count_result_def gauge_defs nth_append)
qed

end
