(* ===== verification/RlxdProps.thy ===== *)
theory RlxdProps
  imports RlxdStop RlxdExample RlxdDeliver RlxdReports RlxdSpec RlxdGauge
begin

text \<open>
  The properties of the relaxed pool. Each is a few steps over the invariants of \<open>RlxdInv\<close>,
  \<open>RlxdOrder\<close>, \<open>RlxdPlaces\<close> and \<open>RlxdShards\<close>, those of the results and messages in \<open>RlxdResult\<close>,
  \<open>RlxdAwait\<close>, \<open>RlxdOnce\<close>, \<open>RlxdNotes\<close> and \<open>RlxdReports\<close>, the counts of \<open>RlxdGauge\<close>, the sweeps of \<open>RlxdSweep\<close> and the ranks of \<open>RlxdLive\<close>
  and \<open>RlxdStop\<close>, the abstract pool of \<open>RlxdSpec\<close>; the witnesses are runs of \<open>RlxdExample\<close>.
\<close>

section \<open>Well-formed pools\<close>

text \<open>
  C8. No thread of the relaxed pool ever panics on an index, a remainder or a slot array, and
  none is stuck: as many lanes, shards and dispatchers as the clamped parameter says, every stored
  index below it, and every dispatcher that has not stopped and every submission that has not
  returned or been dropped has a next step.
\<close>

theorem rlxd_never_panics:
  assumes "lawful E" "rlxd_reach E limit cap n name p"
  shows "length (shards p) = max n 1 \<and> length (dispatchers p) = max n 1 \<and>
         length (txs (lane_queue p)) = max n 1 \<and> (\<forall>t \<in> set (spawned p). rt_shard t < max n 1) \<and>
         (\<forall>i < max n 1. dispatchers p ! i \<noteq> LPanicked \<and>
            (dispatchers p ! i = LStopped \<or> rlxd_step E (RStepDispatcher i) p \<noteq> None)) \<and>
         (\<forall>r < length (submissions p). sub_ok (max n 1) (snd (submissions p ! r)) \<and>
            (rlxd_submit_result p r \<noteq> None \<or> snd (submissions p ! r) = SubSend LaneDropped \<or>
             rlxd_step E (RStepSubmit r) p \<noteq> None))"
proof -
  note wf = rlxd_pool_wf [OF assms]
  have d: "dispatchers p ! i \<noteq> LPanicked \<and>
      (dispatchers p ! i = LStopped \<or> rlxd_step E (RStepDispatcher i) p \<noteq> None)" if "i < max n 1" for i
    using wf that lane_enabled [of i p E] lane_rank_zero [of "dispatchers p ! i"]
    by (auto simp: rlxd_wf_def)
  have ok: "sub_ok (max n 1) (snd (submissions p ! r))" if "r < length (submissions p)" for r
    using wf that by (simp add: rlxd_wf_def)
  have s: "sub_ok (max n 1) (snd (submissions p ! r)) \<and>
      (rlxd_submit_result p r \<noteq> None \<or> snd (submissions p ! r) = SubSend LaneDropped \<or>
       rlxd_step E (RStepSubmit r) p \<noteq> None)" if "r < length (submissions p)" for r
    using ok [OF that] submission_next [OF that ok [OF that], of E] by simp
  from d s wf rlxd_wf_lanes [OF wf] show ?thesis by (simp add: rlxd_wf_def)
qed

lemma rlxd_never_panics_witness:
  "length (dispatchers (rlxd_after 2 both_started)) = 2 \<and>
   rlxd_step example_env (RStepDispatcher 0) (rlxd_after 2 both_started) \<noteq> None"
proof -
  have "\<not> lane_stopped (dispatchers (rlxd_after 2 both_started) ! 0)" by code_simp
  with rlxd_never_panics [OF example_lawful rlxd_reach_after [OF rlxd_example_runs(2)]] show ?thesis
    by (auto elim!: allE [of _ 0])
qed

section \<open>Refinement\<close>

text \<open>
  C2. The relaxed pool implements its abstract one: every run of the pool from a reachable state
  is a run of the specification, in which a new task joins the end of a lane or starts at once,
  each lane starts and discards its tasks oldest first, every start finds fewer than
  \<open>max limit 1\<close> tasks running, and no task is in two places.
\<close>

theorem rlxd_refines_spec:
  assumes "lawful E" "rlxd_reach E limit cap n name p" "run (rlxd_step E) es p = Some q"
  shows "\<exists>fs. run (lanes_spec_step (max limit 1)) fs (abs_rlxd E p) = Some (abs_rlxd E q) \<and>
           lanes_spec_ok (max limit 1) (abs_rlxd E q) \<and> length (lanes_waiting (abs_rlxd E q)) = max n 1"
proof -
  have r: "reach (\<lambda>p. lawful E \<and> p = rlxd_new E limit cap n name) (rlxd_step E) p"
    using assms(1,2) by simp
  have "lanes_spec_ok (max limit 1) (abs_rlxd E q)"
    using abstract_lanes.reach_inv [OF rlxd_refinement.reach_proj [OF reach_run [OF r assms(3)]]] .
  moreover have "length (dispatchers q) = max n 1"
    using rlxd_pool_wf [OF assms(1) reach_run [OF assms(2,3)]] by (simp add: rlxd_wf_def)
  ultimately show ?thesis using rlxd_refinement.run_proj [OF r assms(3)] by simp
qed

lemma rlxd_refines_spec_witness:
  "\<exists>fs. run (lanes_spec_step 1) fs (abs_rlxd example_env (rlxd_after 2 both_submitted)) =
          Some (abs_rlxd example_env (rlxd_after 2 both_started)) \<and>
        lanes_waiting (abs_rlxd example_env (rlxd_after 2 both_submitted)) = [[], [1]] \<and>
        lanes_running (abs_rlxd example_env (rlxd_after 2 both_started)) = {1}"
proof -
  have "run (rlxd_step example_env) (replicate 9 (RStepTask 0) @ replicate 9 (RStepDispatcher 1))
      (rlxd_after 2 both_submitted) = Some (rlxd_after 2 both_started)"
    using rlxd_run_after [where n = 2 and es = both_submitted and fs = "replicate 9 (RStepTask 0) @ replicate 9 (RStepDispatcher 1)"]
      rlxd_example_runs(1,2) unfolding both_started_def by blast
  from rlxd_refines_spec [OF example_lawful rlxd_reach_after this, OF rlxd_example_runs(1)]
  have "\<exists>fs. run (lanes_spec_step 1) fs (abs_rlxd example_env (rlxd_after 2 both_submitted)) =
      Some (abs_rlxd example_env (rlxd_after 2 both_started))" by auto
  moreover have "lanes_waiting (abs_rlxd example_env (rlxd_after 2 both_submitted)) = [[], [1]]" by code_simp
  moreover have "lanes_running (abs_rlxd example_env (rlxd_after 2 both_started)) = {1}" by code_simp
  ultimately show ?thesis by blast
qed

section \<open>Bounds\<close>

text \<open>
  C9. The concurrency limit of the relaxed pool, and what \<open>active_task_count\<close> tells of it. Every
  permit is free or held by exactly one dispatcher, direct submission or unfinished task, so at
  most \<open>max limit 1\<close> tasks run at once. Each shard's counter is the number of tasks counted in
  that shard and not yet finished there, and all of them together are never more than the limit. A
  call of \<open>active_task_count\<close> reads the counters one after another: its sum after \<open>k\<close> reads is at
  most \<open>k\<close> times the limit, whatever ran between the reads, and a call between whose reads nothing
  runs returns the exact number.
\<close>

theorem rlxd_concurrency_limited:
  assumes "lawful E" "rlxd_reach E limit cap n name p"
  shows "gate_get_permits (s_ops E) (concurrency_gate p) + count_if lane_holds (dispatchers p) +
           count_if (sub_holds \<circ> snd) (submissions p) + count_if run_holds (spawned p) = max limit 1 \<and>
         count_if run_holds (spawned p) \<le> max limit 1 \<and>
         (\<forall>j < length (shards p). deferred_len (shards p ! j) = of_nat (in_shard j p)) \<and>
         (\<Sum>j < length (shards p). in_shard j p) \<le> max limit 1 \<and>
         (\<forall>k m. GaugeActive k m \<in> set (gauges p) \<longrightarrow> k \<le> length (shards p) \<and> unat m \<le> k * max limit 1) \<and>
         (0 < idle_managers p \<longrightarrow>
           (\<exists>q. run (rlxd_step E) (RActiveCount # replicate (length (shards p)) (RStepGauge (length (gauges p)))) p = Some q \<and>
              active_task_count_result q (length (gauges p)) = Some (of_nat (\<Sum>j < length (shards p). in_shard j p))))"
proof -
  have perm: "rlxd_permits E (max limit 1) p" and cnt: "counters_inv p"
    using rlxd_pool_running [OF assms] by (simp_all add: rlxd_running_def)
  have len: "length (dispatchers p) = length (shards p)" using rlxd_pool_wf [OF assms] by (simp add: rlxd_wf_def)
  have "(\<Sum>j < length (shards p). in_shard j p) \<le> max limit 1"
    using in_shard_total [OF len] perm by (simp add: rlxd_permits_def)
  moreover have "(\<Sum>d \<leftarrow> shards p. deferred_len d) = of_nat (\<Sum>j < length (shards p). in_shard j p)"
    by (simp add: sum_list_sum_nth atLeast0LessThan counter_exact [OF cnt])
  ultimately show ?thesis
    using perm counter_exact [OF cnt] active_count_alone [of p E] rlxd_gauges.reach_inv [OF assms(2)] assms(1)
    unfolding rlxd_permits_def gauges_bounded_def by auto
qed

text \<open>Task 1 starts between the two reads of a count, and task 0 ends; each is counted once.\<close>

definition counted_twice :: "(nat, bool) rlxd_event list" where
  "counted_twice = both_submitted @ [RActiveCount, RStepGauge 0] @ replicate 9 (RStepTask 0) @
     replicate 9 (RStepDispatcher 1) @ [RStepGauge 0]"

lemma counted_twice_run: "rlxd_run 2 counted_twice \<noteq> None"
  by code_simp

lemma rlxd_concurrency_limited_witness:
  "let p = rlxd_after 2 counted_twice in
   count_if run_holds (spawned p) = 1 \<and> gate_get_permits (s_ops example_env) (concurrency_gate p) = 0 \<and>
   gauges p = [GaugeActive 2 2] \<and> (\<Sum>j < length (shards p). in_shard j p) \<le> 1 \<and>
   (\<exists>q. run (rlxd_step example_env) [RActiveCount, RStepGauge 1, RStepGauge 1] p = Some q)"
proof -
  let ?p = "rlxd_after 2 counted_twice"
  note C = rlxd_concurrency_limited [OF example_lawful rlxd_reach_after [OF counted_twice_run]]
  have c: "count_if run_holds (spawned ?p) = 1" "gauges ?p = [GaugeActive 2 2]" "0 < idle_managers ?p"
    "length (shards ?p) = 2" by code_simp+
  with C have "\<exists>q. run (rlxd_step example_env) (RActiveCount # replicate 2 (RStepGauge 1)) ?p = Some q" by auto
  with C c show ?thesis by (simp add: Let_def numeral_2_eq_2)
qed

text \<open>
  With a limit of 1 and two dispatchers, a call of \<open>active_task_count\<close> that nothing but a task's
  end and the next task's start interrupts may return 2.
\<close>

lemma active_count_can_exceed_limit:
  "active_task_count_result (rlxd_after 2 counted_twice) 0 = Some 2"
  by code_simp

text \<open>
  C20. The queue of the relaxed pool is bounded over all its lanes: the queued tasks, the
  senders about to add a task and the messages just received are at most the capacity, which is
  clamped to 1, plus one for each send that failed.
\<close>

theorem rlxd_queue_bounded:
  assumes "lawful E" "rlxd_reach E limit cap n name p"
  shows "lanes_len (q_ops E) (lane_queue p) + count_if (sub_slot \<circ> snd) (submissions p) +
           count_if lane_slot (dispatchers p) \<le> max cap 1 + count_if (sub_failed \<circ> snd) (submissions p)"
proof -
  have "chan_laws (q_ops E)" using assms(1) by (simp add: lawful_def)
  with rlxd_pool_running [OF assms] show ?thesis
    by (simp add: rlxd_running_def queue_permits_def lanes_len_queued)
qed

lemma rlxd_queue_bounded_witness:
  "lanes_len (q_ops example_env) (lane_queue (rlxd_after 2 both_submitted)) \<le> 2"
proof -
  have "count_if (sub_failed \<circ> snd) (submissions (rlxd_after 2 both_submitted)) = 0" by code_simp
  with rlxd_queue_bounded [OF example_lawful rlxd_reach_after [OF rlxd_example_runs(1)]] show ?thesis by simp
qed

section \<open>Order\<close>

text \<open>
  C10. Order is strict within a lane, and no task starts twice. What the dispatcher of a lane
  spawned is a subsequence of what left that lane, in the order in which the sends to it
  succeeded; no task is sent to two lanes, or both sent and dispatched directly, and every started
  task is started once.
\<close>

theorem rlxd_lanes_in_order:
  assumes "lawful E" "rlxd_reach E limit cap n name p"
  shows "(\<forall>i < max n 1. subseq (lane_starts p i) (lane_received (lane_queue p) ! i) \<and>
            lane_sent (lane_queue p) ! i =
              lane_received (lane_queue p) ! i @ lane_items (q_ops E) (lane_queue p) ! i) \<and>
         distinct (direct_starts p @ concat (lane_sent (lane_queue p))) \<and>
         distinct (map rt_core (spawned p))"
proof -
  note wf = rlxd_pool_wf [OF assms] and ord = rlxd_pool_order [OF assms] and addr = rlxd_pool_addresses [OF assms]
  have len: "length (dispatchers p) = max n 1" and inv: "lanes_inv (q_ops E) (max n 1) (lane_queue p)"
    using wf by (simp_all add: rlxd_wf_def)
  have sub: "subseq (lane_starts p i) (lane_received (lane_queue p) ! i)" if "i < max n 1" for i
    using ord that len by (auto simp: order_inv_def intro: subseq_drop_last)
  have "distinct (direct_starts p @ concat (lane_sent (lane_queue p)))"
    by (rule distinct_settled [OF ord addr])
  moreover have "distinct (map rt_core (spawned p))"
    using located_distinct(1) [OF wf ord addr] by (simp add: located_def)
  ultimately show ?thesis using sub inv by (simp add: lanes_inv_def)
qed

lemma rlxd_lanes_in_order_witness:
  "subseq (lane_starts (rlxd_after 2 both_started) 1) [1] \<and> lane_starts (rlxd_after 2 both_started) 1 = [1] \<and>
   map rt_core (spawned (rlxd_after 2 both_started)) = [0, 1]"
proof -
  have "lane_received (lane_queue (rlxd_after 2 both_started)) ! 1 = [1]" by code_simp
  moreover have "lane_starts (rlxd_after 2 both_started) 1 = [1]" by code_simp
  moreover have "map rt_core (spawned (rlxd_after 2 both_started)) = [0, 1]" by code_simp
  moreover have "subseq (lane_starts (rlxd_after 2 both_started) 1)
      (lane_received (lane_queue (rlxd_after 2 both_started)) ! 1)"
    using rlxd_lanes_in_order [OF example_lawful rlxd_reach_after [OF rlxd_example_runs(2)]] by simp
  ultimately show ?thesis by simp
qed

text \<open>
  Even with one lane the start order is not the order of submission: when the dispatcher has
  taken a task out of its lane and not yet acquired a permit for it, a later submission finds
  an empty queue, takes the permit and starts first, although the earlier one had been accepted.
\<close>

theorem rlxd_overtakes_queued_task:
  "\<exists>p q. rlxd_run 1 first_two = Some p \<and> length (submissions p) = 2 \<and>
     rlxd_submit_result p 1 = Some (Inr (hs_handle (handles p ! 1))) \<and>
     run (rlxd_step example_env) third_first p = Some q \<and>
     map rt_core (spawned q) = [0, 2, 1] \<and> lane_starts q 0 = [1] \<and> direct_starts q = [0, 2]"
proof -
  let ?p = "rlxd_after 1 first_two" and ?q = "rlxd_after 1 (first_two @ third_first)"
  have p: "length (submissions ?p) = 2" "snd (submissions ?p ! 1) = SubSend (LaneDone (Inr ()))"
    "map rt_core (spawned ?q) = [0, 2, 1]" "lane_starts ?q 0 = [1]" "direct_starts ?q = [0, 2]"
    by code_simp+
  then have "rlxd_submit_result ?p 1 = Some (Inr (hs_handle (handles ?p ! 1)))"
    by (simp add: rlxd_submit_result_def)
  note facts = p this rlxd_after_run [OF rlxd_example_runs(5)] rlxd_run_after [OF rlxd_example_runs(5,6)]
  show ?thesis by (intro exI [of _ ?p] exI [of _ ?q] conjI) (fact facts)+
qed

section \<open>Results\<close>

text \<open>
  C11. Results of the relaxed pool are never mixed up or invented, whichever way a task came to
  run: \<open>await_result\<close> returns a value that a poll of that task's own future returned,
  \<open>TaskPanicked\<close> where a poll of it panicked, \<open>TaskCancelled\<close> where that task was cancelled, or
  \<open>ResultChannelError\<close> with the task's id.
\<close>

theorem rlxd_awaited_results_sound:
  assumes "lawful E" "rlxd_reach E limit cap n name p" "r < length (handles p)"
    and "hs_result (handles p ! r) = Some res"
  shows "(\<exists>v k. res = Inr v \<and> mt_future (rlxd_submission p r) k = Ready v) \<or>
         (\<exists>k. res = Inl TaskPanicked \<and> mt_future (rlxd_submission p r) k = Panics) \<or>
         res = Inl TaskCancelled \<and> core_cancelled p r \<or>
         res = Inl (ResultChannelError (channel_closed_message (of_nat r) (recv_error_text E)))"
proof -
  note aw = rlxd_pool_awaits [OF assms(1,2)]
  have r: "r < length (cores p)" using aw assms(3) by (simp add: rlxd_awaits_def)
  have m: "map task_id (cores p) = map of_nat [0..<length (cores p)]"
    using rlxd_pool_addresses [OF assms(1,2)] by (simp add: rlxd_addresses_def)
  from arg_cong [OF m, of "\<lambda>xs. xs ! r"] r have "task_id (cores p ! r) = of_nat r" by simp
  then have "closed_error E p r = Inl (ResultChannelError (channel_closed_message (of_nat r) (recv_error_text E)))"
    by (simp add: closed_error_def)
  moreover have "rexplained p r res \<or> res = closed_error E p r"
    using aw assms(3,4) by (simp add: rlxd_awaits_def handle_ok_def)
  ultimately show ?thesis by (auto simp: rexplained_def explains_def split: sum.splits)
qed

lemma rlxd_awaited_results_sound_witness:
  "\<exists>k. mt_future (rlxd_submission (rlxd_after 2 first_reported) 0) k = Ready 7"
proof -
  have h: "0 < length (handles (rlxd_after 2 first_reported))"
    "hs_result (handles (rlxd_after 2 first_reported) ! 0) = Some (Inr 7)" by code_simp+
  from rlxd_awaited_results_sound [OF example_lawful rlxd_reach_after [OF rlxd_example_runs(7)] h]
  show ?thesis by auto
qed

text \<open>
  C12. No result stays away in the relaxed pool. When the task of a returned handle is no longer on
  its way (being submitted, in a lane, in a dispatcher's hands, or running with its result not yet
  sent), two polls of \<open>await_result\<close> at most return, whatever became of the task.
\<close>

theorem rlxd_awaited_results_arrive:
  assumes L: "lawful E" and R: "oneshot_resolves (o_ops E)" and reach: "rlxd_reach E limit cap n name p"
    and r: "r < length (handles p)" and ret: "rlxd_submit_result p r = Some (Inr t)"
    and h: "\<not> is_detached t" "hs_result (handles p ! r) = None" and way: "\<not> rlxd_on_its_way E p r"
  shows "\<exists>k q. k \<le> 2 \<and> run (rlxd_step E) (replicate k (RAwaitResult r)) p = Some q \<and>
           hs_result (handles q ! r) \<noteq> None"
proof -
  have "r < length (oneshots p)"
    using rlxd_pool_awaits [OF L reach] rlxd_lengths [OF rlxd_pool_addresses [OF L reach]] r
    by (simp add: rlxd_awaits_def)
  with rlxd_pool_delivers [OF L R reach] way have "settled E p r" by (auto simp: rlxd_delivers_def)
  from r this h show ?thesis
  proof (cases rule: await_arrives)
    case (once q)
    with ret r show ?thesis by (intro exI [of _ 1] exI [of _ q]) (simp add: rlxd_with_handle_def)
  next
    case (twice x q)
    let ?p = "p\<lparr>handles := (handles p)[r := x]\<rparr>"
    have "rlxd_submit_result ?p r = Some (Inr (hs_handle x))"
      using ret r by (auto simp: rlxd_submit_result_def split: submit_pc.splits lane_send_pc.splits sum.splits)
    with twice ret r show ?thesis
      by (intro exI [of _ 2] exI [of _ q]) (simp add: rlxd_with_handle_def numeral_2_eq_2)
  qed
qed

lemma rlxd_awaited_results_arrive_witness:
  "\<exists>k q. k \<le> 2 \<and> run (rlxd_step example_env) (replicate k (RAwaitResult 0)) (rlxd_after 2 both_started) = Some q \<and>
     hs_result (handles q ! 0) \<noteq> None"
proof -
  let ?p = "rlxd_after 2 both_started"
  have p: "0 < length (handles ?p)" "rlxd_submit_result ?p 0 = Some (Inr (handle_new 0))" "\<not> is_detached (handle_new 0)"
    "hs_result (handles ?p ! 0) = None"
    "list_all (\<lambda>s. mt_core (fst s) = 0 \<longrightarrow> snd s = SubDirect) (submissions ?p)"
    "list_all (\<lambda>c. ch_items (q_ops example_env) c = []) (txs (lane_queue ?p))"
    "list_all (\<lambda>d. 0 \<notin> mt_core ` set (lane_hand d)) (dispatchers ?p)"
    "list_all (\<lambda>x. rt_core x = 0 \<longrightarrow> \<not> run_unsent x) (spawned ?p)"
    by code_simp+
  have "\<not> rlxd_on_its_way example_env ?p 0"
    using p(5-8) by (auto simp: rlxd_on_its_way_def in_lanes_def list_all_iff)
  from rlxd_awaited_results_arrive [OF example_lawful example_resolves rlxd_reach_after [OF rlxd_example_runs(2)] p(1-4) this]
  show ?thesis .
qed

text \<open>
  C13. Completion messages of the relaxed pool are sound and unique. Each task has at most one
  accepted message, from its own end or from the dispatcher that found it cancelled; a message
  says \<open>Success\<close> only where the task's future returned a value, \<open>Panicked\<close> only where it panicked
  and \<open>Cancelled\<close> only where the task was cancelled.
\<close>

theorem rlxd_completion_messages_sound:
  assumes "lawful E" "rlxd_reach E limit cap n name p"
  shows "distinct (map cm_core (posted (completion_notifier p))) \<and>
    (\<forall>m \<in> set (posted (completion_notifier p)).
       cm_status m = Success \<and> (\<exists>v k. mt_future (rlxd_submission p (cm_core m)) k = Ready v) \<or>
       cm_status m = Panicked \<and> (\<exists>k. mt_future (rlxd_submission p (cm_core m)) k = Panics) \<or>
       cm_status m = Cancelled \<and> core_cancelled p (cm_core m))" (is "_ \<and> (\<forall>m \<in> _. ?status m)")
proof -
  have "distinct (map cm_core (posted (completion_notifier p)))"
    using rlxd_pool_once [OF assms] by (simp add: rlxd_once_def)
  moreover have "?status m" if m: "m \<in> set (posted (completion_notifier p))" for m
  proof -
    have "message_explained p m" using rlxd_pool_results [OF assms] m unfolding rlxd_results_def by blast
    then obtain res where "cm_status m = status_from res"
      "explains (rlxd_submission p (cm_core m)) (core_cancelled p (cm_core m)) res"
      by (auto simp: message_explained_def rexplained_def)
    with explains_status [OF this(2)] show ?thesis by simp
  qed
  ultimately show ?thesis by blast
qed

lemma rlxd_completion_messages_sound_witness:
  "\<exists>v k. mt_future (rlxd_submission (rlxd_after 2 first_reported) 0) k = Ready v"
proof -
  let ?p = "rlxd_after 2 first_reported"
  have m: "\<lparr>cm_pool_name = ''p'', cm_core = 0, cm_status = Success\<rparr> \<in> set (posted (completion_notifier ?p))"
    by code_simp
  show ?thesis
    using bspec [OF conjunct2 [OF rlxd_completion_messages_sound
          [OF example_lawful rlxd_reach_after [OF rlxd_example_runs(7)]]] m] by simp
qed

text \<open>
  C14. Every completion of the relaxed pool reaches the handlers, once. Along a run, let the log be
  the outcomes of the tasks that sent a result while holding a clone of the completion sender
  and of the cancelled tasks for which a dispatcher took one. The messages processed, in the
  notifier's hands, queued and about to be posted are exactly the log; the handler calls made and
  still owed are one per processed message and handler; no task is logged twice; a task holds a clone
  exactly if the sink was open when it was spawned, and every task that holds one and is past
  its result is in the log.
\<close>

theorem rlxd_completions_reach_handlers:
  assumes "lawful E" "chan_accepts (c_ops E)" "run (rlxd_step E) es (rlxd_new E limit cap n name) = Some p"
  shows "let note = completion_notifier p;
             log = run_log rlxd_reports (rlxd_step E) es (rlxd_new E limit cap n name) in
    mset log = mset (map fst (processed note) @ in_hand (nworker note) @ ch_items (c_ops E) (nchan note)) +
      mset (rlxd_unposted p) \<and>
    calls note @ owed (nworker note) = due_calls (processed note) \<and>
    distinct (map cm_core log) \<and>
    run_log rlxd_launches (rlxd_step E) es (rlxd_new E limit cap n name) =
      map (\<lambda>x. (rt_core x, rt_notify x)) (spawned p) \<and>
    (\<forall>x \<in> set (spawned p). rt_notify x \<and> run_past_send (rt_pc x) \<longrightarrow> rt_core x \<in> cm_core ` set log)"
proof -
  let ?new = "rlxd_new E limit cap n name"
  let ?log = "run_log rlxd_reports (rlxd_step E) es ?new"
  have r: "rlxd_reach E limit cap n name p" by (rule reach_run [OF reach_init assms(3)]) simp
  have "chan_laws (c_ops E)" using assms(1) by (simp add: lawful_def)
  note note_inv = reach_notifier_inv [OF this rlxd_notifier_reach [OF r], unfolded notifier_inv_def]
  have rep: "rlxd_report_inv ?log p" using rlxd_reported.run_logged [OF refl assms(3)] assms(1,2) by blast
  then have acc: "mset ?log = mset (map fst (processed (completion_notifier p)) @
      in_hand (nworker (completion_notifier p)) @ ch_items (c_ops E) (nchan (completion_notifier p))) + mset (rlxd_unposted p)"
    using note_inv unfolding rlxd_report_inv_def by simp
  have told: "rlxd_told ?log p" using rlxd_told.run_logged [OF refl assms(3)] assms(1) by blast
  have launch: "rlxd_launch_inv (run_log rlxd_launches (rlxd_step E) es ?new) p"
    using rlxd_launched.run_logged [OF refl assms(3)] assms(1) by blast
  show ?thesis
    unfolding Let_def using acc note_inv rlxd_reports_distinct [OF assms(1) r rep]
      launch [unfolded rlxd_launch_inv_def] told [unfolded rlxd_told_def] by (intro conjI) blast+
qed

lemma rlxd_completions_reach_handlers_witness:
  "let p = rlxd_after 2 first_reported; m = \<lparr>cm_pool_name = ''p'', cm_core = 0, cm_status = Success\<rparr> in
   run_log rlxd_reports (rlxd_step example_env) first_reported (rlxd_example_new 2) = [m] \<and>
   map fst (processed (completion_notifier p)) = [m] \<and> rt_core (spawned p ! 0) = 0 \<and>
   map fst (due_calls (processed (completion_notifier p))) = [True]"
proof -
  let ?p = "rlxd_after 2 first_reported" and ?m = "\<lparr>cm_pool_name = ''p'', cm_core = 0, cm_status = Success\<rparr>"
  let ?n = "completion_notifier ?p"
  note C = rlxd_completions_reach_handlers
    [OF example_lawful example_accepts rlxd_after_run [OF rlxd_example_runs(7)], unfolded Let_def]
  have c: "map fst (calls ?n @ owed (nworker ?n)) = [True]" "in_hand (nworker ?n) = []"
    "ch_items (c_ops example_env) (nchan ?n) = []" "rlxd_unposted ?p = []" "map fst (processed ?n) = [?m]"
    "map rt_core (spawned ?p) = [0]" by code_simp+
  have "mset (run_log rlxd_reports (rlxd_step example_env) first_reported (rlxd_example_new 2)) = {#?m#}"
    using conjunct1 [OF C] unfolding c by simp
  moreover have "map fst (due_calls (processed ?n)) = [True]" using C c(1) by metis
  ultimately show ?thesis using c(5,6) by (auto simp: Let_def)
qed

section \<open>Cancellation\<close>

text \<open>
  C15. Cancellation by labels in the relaxed pool, whose shards are read one after another while
  the pool goes on. When the call has returned, every task that was in a shard when it began and
  shares a label is cancelled or has finished; and every step of it cancels only tasks
  that were in a shard and share a label.
\<close>

theorem rlxd_label_cancellation:
  assumes "lawful E" "rlxd_reach E limit cap n name p"
    and "run (rlxd_step E) (RCancelLabels ls # es) p = Some q"
    and "snd (label_sweeps q ! length (label_sweeps p)) = SweepDone"
    and "j < length (shards p)" "placed p j r" "labels (cores p ! r) \<inter> ls \<noteq> {}"
  shows "(core_cancelled q r \<or> core_finished q r) \<and>
    (\<forall>i q' x. i < length (label_sweeps q) \<longrightarrow> rlxd_step E (RStepCancel i) q = Some q' \<longrightarrow> x < length (cores q) \<longrightarrow>
       core_cancelled q' x \<longrightarrow> core_cancelled q x \<or> wanted (fst (label_sweeps q ! i)) x q)"
proof
  obtain m where m: "rlxd_step E (RCancelLabels ls) p = Some m" "run (rlxd_step E) es m = Some q"
    using assms(3) by (auto split: option.splits)
  note reach_m = reach_step [OF assms(2) m(1)]
  have "label_track (length (label_sweeps p)) ls j r m"
    using label_track_begin [OF assms(1,2) m(1) assms(5-7)] .
  from label_track_run [OF assms(1) reach_m this m(2)] assms(4)
  show "core_cancelled q r \<or> core_finished q r" by (auto simp: label_track_def)
  show "\<forall>i q' x. i < length (label_sweeps q) \<longrightarrow> rlxd_step E (RStepCancel i) q = Some q' \<longrightarrow> x < length (cores q) \<longrightarrow>
       core_cancelled q' x \<longrightarrow> core_cancelled q x \<or> wanted (fst (label_sweeps q ! i)) x q"
    using label_sweep_sound [OF assms(1) reach_run [OF reach_m m(2)]] by blast
qed

lemma rlxd_label_cancellation_witness:
  "let q = rlxd_after 2 (label_cancelled @ replicate 5 (RStepCancel 0)) in
   core_cancelled q 0 \<and> \<not> core_finished q 0 \<and> \<not> core_cancelled q 1"
proof -
  let ?p = "rlxd_after 2 both_submitted" and ?es = "replicate 5 (RStepCancel 0)"
  let ?q = "rlxd_after 2 (label_cancelled @ ?es)"
  have ex: "rlxd_run 2 (both_submitted @ RCancelLabels {''a''} # ?es) \<noteq> None" by code_simp
  have eq: "both_submitted @ RCancelLabels {''a''} # ?es = label_cancelled @ ?es" by (simp add: label_cancelled_def)
  have n: "length (label_sweeps ?p) = 0" "0 < length (shards ?p)" by code_simp+
  have pl: "placed ?p 0 0" unfolding placed_def by code_simp
  have ls: "labels (cores ?p ! 0) \<inter> {''a''} \<noteq> {}" by code_simp
  have d: "snd (label_sweeps ?q ! 0) = SweepDone" "\<not> core_finished ?q 0" "\<not> core_cancelled ?q 1" by code_simp+
  from rlxd_label_cancellation [OF example_lawful rlxd_reach_after [OF rlxd_example_runs(1)]
      rlxd_run_after [OF rlxd_example_runs(1) ex, unfolded eq] _ n(2) pl ls] n(1) d
  show ?thesis by simp
qed

text \<open>
  C16. A forceful shutdown cancels every task that is in a shard when its sweep begins and has not
  finished by its end.
\<close>

theorem rlxd_forceful_shutdown_cancels:
  assumes "lawful E" "rlxd_reach E limit cap n name p"
    and "i < length (stops p)" "stops p ! i = StopSweep (SweepRead 0 [])"
    and "j < length (shards p)" "placed p j r"
    and "run (rlxd_step E) es p = Some q" "\<not> sweeping (stops q ! i)"
  shows "core_cancelled q r \<or> core_finished q r"
proof -
  have "stop_track i j r p"
    using assms(3-6) placed_pool [OF assms(1,2,5,6)] by (simp add: stop_track_def)
  from stop_track_run [OF assms(1,2) this assms(7)] assms(8) show ?thesis
    by (cases "stops q ! i") (auto simp: stop_track_def)
qed

lemma rlxd_forceful_shutdown_cancels_witness:
  "core_cancelled (rlxd_after 2 (stop_begun @ replicate 6 (RStepShutdown 0))) 0"
proof -
  let ?p = "rlxd_after 2 stop_begun" and ?es = "replicate 6 (RStepShutdown 0)"
  let ?q = "rlxd_after 2 (stop_begun @ ?es)"
  have ex: "rlxd_run 2 (stop_begun @ ?es) \<noteq> None" by code_simp
  have n: "0 < length (stops ?p)" "stops ?p ! 0 = StopSweep (SweepRead 0 [])" "0 < length (shards ?p)" by code_simp+
  have pl: "placed ?p 0 0" unfolding placed_def by code_simp
  have d: "\<not> core_finished ?q 0" "\<not> sweeping (stops ?q ! 0)" by code_simp+
  from rlxd_forceful_shutdown_cancels [OF example_lawful rlxd_reach_after [OF rlxd_example_runs(4)] n pl
      rlxd_run_after [OF rlxd_example_runs(4) ex] d(2)] d(1)
  show ?thesis by simp
qed

text \<open>
  C18. A cancelled task of the relaxed pool ends, whatever its future does. From the moment a
  running task is cancelled at most 7 of its own steps are left and it is never blocked; if its
  outcome was undecided then, it can only be reported as cancelled.
\<close>

theorem rlxd_cancelled_task_finishes:
  assumes "lawful E" "rlxd_reach E limit cap n name p" "i < length (spawned p)"
    and "core_cancelled p (rt_core (spawned p ! i))" "run (rlxd_step E) es p = Some q"
  shows "run_rank (rt_pc (spawned q ! i)) + count_list es (RStepTask i) \<le> 7 \<and>
         (rt_pc (spawned q ! i) = RDone \<or> rlxd_step E (RStepTask i) q \<noteq> None) \<and>
         ((\<forall>res s. rt_pc (spawned p ! i) \<noteq> RSend res \<and> rt_pc (spawned p ! i) \<noteq> RNotify s) \<longrightarrow>
            (\<forall>res. rt_pc (spawned q ! i) = RSend res \<longrightarrow> res = Inl TaskCancelled) \<and>
            (\<forall>s. rt_pc (spawned q ! i) = RNotify s \<longrightarrow> s = Cancelled))"
proof -
  note wf = rlxd_pool_wf [OF assms(1,2)]
  have "rt_core (spawned p ! i) < length (cores p)"
    using located_distinct(2) [OF wf rlxd_pool_order [OF assms(1,2)] rlxd_pool_addresses [OF assms(1,2)]]
      located_spawned [OF nth_mem [OF assms(3)]] by blast
  with wf assms(1,3,4) have d: "rlxd_doomed E (max n 1) i (rt_core (spawned p ! i)) p"
    by (simp add: rlxd_doomed_def)
  have "reports_cancelled i q"
    if "\<forall>res s. rt_pc (spawned p ! i) \<noteq> RSend res \<and> rt_pc (spawned p ! i) \<noteq> RNotify s"
  proof -
    have "reports_cancelled i p" using that by (simp add: reports_cancelled_def split: run_pc.splits)
    with cancelled_report.run_inv [OF _ assms(5)] d show ?thesis by blast
  qed
  then show ?thesis
    using cancelled_run.progress [OF d assms(5)] run_rank_le [of "rt_pc (spawned p ! i)"]
    by (auto simp: run_rank_zero reports_cancelled_def)
qed

lemma rlxd_cancelled_task_finishes_witness:
  "rt_pc (spawned (rlxd_after 2 (first_doomed @ replicate 6 (RStepTask 0))) ! 0) = RDone"
proof -
  let ?p = "rlxd_after 2 first_doomed" and ?es = "replicate 6 (RStepTask 0) :: (nat, bool) rlxd_event list"
  let ?q = "rlxd_after 2 (first_doomed @ ?es)"
  have ex: "rlxd_run 2 (first_doomed @ ?es) \<noteq> None" by code_simp
  have c: "0 < length (spawned ?p)" "core_cancelled ?p (rt_core (spawned ?p ! 0))" by code_simp+
  have "rlxd_step example_env (RStepTask 0) ?q = None" unfolding Option.is_none_def [symmetric] by code_simp
  with rlxd_cancelled_task_finishes [OF example_lawful rlxd_reach_after [OF rlxd_example_runs(8)] c
      rlxd_run_after [OF rlxd_example_runs(8) ex]] show ?thesis by blast
qed

section \<open>Progress\<close>

text \<open>
  C17. Once the flag is set the relaxed pool settles, whatever else happens: every dispatcher stops
  within 5 of its own steps and every pending submission returns within as many as there are lanes
  plus 6; neither is ever blocked, and no step of anything else sets one back.
\<close>

theorem rlxd_shutdown_settles:
  assumes "lawful E" "rlxd_reach E limit cap n name p" "shutting_down p"
    and "run (rlxd_step E) es p = Some q"
  shows "(\<forall>i < max n 1. lane_rank (dispatchers q ! i) + count_list es (RStepDispatcher i) \<le> 5 \<and>
            (dispatchers q ! i = LStopped \<or> rlxd_step E (RStepDispatcher i) q \<noteq> None)) \<and>
         (\<forall>r < length (submissions p).
            submit_rank (max n 1) (snd (submissions q ! r)) + count_list es (RStepSubmit r) \<le> max n 1 + 6 \<and>
            (rlxd_submit_result q r \<noteq> None \<or> snd (submissions q ! r) = SubSend LaneDropped \<or>
             rlxd_step E (RStepSubmit r) q \<noteq> None))"
proof (intro conjI allI impI)
  note wf = rlxd_pool_wf [OF assms(1,2)] and wf' = rlxd_pool_wf [OF assms(1) reach_run [OF assms(2,4)]]
  fix i assume i: "i < max n 1"
  have "lane_stopping E (max n 1) i p" using assms wf i by (simp add: lane_stopping_def)
  note pr = lane_stops.progress [OF this assms(4)]
  have "dispatchers q ! i \<noteq> LPanicked" using wf' i by (auto simp: rlxd_wf_def)
  with pr lane_rank_le [of "dispatchers p ! i"] lane_rank_zero [of "dispatchers q ! i"]
  show "lane_rank (dispatchers q ! i) + count_list es (RStepDispatcher i) \<le> 5"
    "dispatchers q ! i = LStopped \<or> rlxd_step E (RStepDispatcher i) q \<noteq> None" by auto
next
  note wf = rlxd_pool_wf [OF assms(1,2)] and wf' = rlxd_pool_wf [OF assms(1) reach_run [OF assms(2,4)]]
  fix r assume r: "r < length (submissions p)"
  have c: "submission_closing E (max n 1) r p" using assms wf r by (simp add: submission_closing_def)
  from rlxd_submission_ends.progress [OF this assms(4)] submit_rank_le [of "max n 1" "snd (submissions p ! r)"]
  show "submit_rank (max n 1) (snd (submissions q ! r)) + count_list es (RStepSubmit r) \<le> max n 1 + 6" by linarith
  have r': "r < length (submissions q)"
    using rlxd_submission_ends.steps_bounded [OF c assms(4)] by (simp add: submission_closing_def)
  then have "sub_ok (max n 1) (snd (submissions q ! r))" using wf' by (simp add: rlxd_wf_def)
  from submission_next [OF r' this, of E]
  show "rlxd_submit_result q r \<noteq> None \<or> snd (submissions q ! r) = SubSend LaneDropped \<or>
      rlxd_step E (RStepSubmit r) q \<noteq> None" by simp
qed

lemma rlxd_shutdown_settles_witness:
  "lane_rank (dispatchers (rlxd_after 2 (stop_begun @ replicate 2 (RStepDispatcher 1))) ! 1) + 2 \<le> 5 \<and>
   lane_stopped (dispatchers (rlxd_after 2 (stop_begun @ replicate 2 (RStepDispatcher 1))) ! 1)"
proof -
  let ?p = "rlxd_after 2 stop_begun" and ?es = "replicate 2 (RStepDispatcher 1)"
  have ex: "rlxd_run 2 (stop_begun @ ?es) \<noteq> None" by code_simp
  have p: "shutting_down ?p" by code_simp
  have s: "lane_stopped (dispatchers (rlxd_after 2 (stop_begun @ ?es)) ! 1)" by code_simp
  have n: "(1::nat) < max 2 1" "count_list ?es (RStepDispatcher 1) = 2" by (simp_all add: numeral_2_eq_2)
  from rlxd_shutdown_settles [OF example_lawful rlxd_reach_after [OF rlxd_example_runs(4)] p
      rlxd_run_after [OF rlxd_example_runs(4) ex], THEN conjunct1, rule_format, OF n(1)] s n(2)
  show ?thesis by simp
qed

text \<open>
  C19. \<open>shutdown\<close> of the relaxed pool always returns. From any point of the call, with the timers,
  at most \<open>call_rank\<close> of its own steps (linear in the lanes, shards, listed tasks and dispatchers to
  be joined) bring it to its end, even if no task, dispatcher or handler ever moves again.
\<close>

theorem rlxd_shutdown_returns:
  assumes "i < length (stops p)" "stops p ! i \<noteq> StopAbandoned"
  shows "\<exists>es q. set es \<subseteq> {RStepShutdown i, RTimeoutShutdown i} \<and> length es \<le> call_rank i p \<and>
           run (rlxd_step E) es p = Some q \<and> stops q ! i = StopDone"
proof -
  have "range (stop_event i) \<subseteq> {RStepShutdown i, RTimeoutShutdown i}"
    by (auto simp: stop_event_def split: stop_pc.splits nat.splits list.splits)
  with stop_call.finishes [OF conjI [OF assms], of E] show ?thesis by blast
qed

lemma rlxd_shutdown_returns_witness:
  "\<exists>es q. run (rlxd_step example_env) es (rlxd_after 2 stop_begun) = Some q \<and> stops q ! 0 = StopDone"
proof -
  have "0 < length (stops (rlxd_after 2 stop_begun))" "stops (rlxd_after 2 stop_begun) ! 0 \<noteq> StopAbandoned"
    by code_simp+
  from rlxd_shutdown_returns [OF this] show ?thesis by blast
qed

text \<open>
  A forceful shutdown can miss a task: a submission that holds its permit when the flag is set is
  in no shard yet. It registers and spawns its task after \<open>shutdown\<close> has returned.
\<close>

lemma rlxd_shutdown_can_miss_a_task:
  "\<exists>p. rlxd_run 2 missed_by_shutdown = Some p \<and> stops p = [StopDone] \<and>
     map rt_core (spawned p) = [0] \<and> \<not> core_cancelled p 0 \<and> \<not> core_finished p 0"
proof -
  let ?p = "rlxd_after 2 missed_by_shutdown"
  have run: "rlxd_run 2 missed_by_shutdown \<noteq> None" by code_simp
  have facts: "stops ?p = [StopDone]" "map rt_core (spawned ?p) = [0]" "\<not> core_cancelled ?p 0"
    "\<not> core_finished ?p 0" by code_simp+
  show ?thesis by (intro exI [of _ ?p] conjI rlxd_after_run [OF run]) (fact facts)+
qed

end
