(* ===== verification/RegistryEquiv.thy ===== *)
theory RegistryEquiv
  imports Active
begin

text \<open>
  The two registries of \<open>active.rs\<close> compared: the strict pool removes a task's slot when it ends,
  the relaxed pool marks the task finished and reclaims slots later. Whatever tasks come and go,
  a reader of the one sees what a reader of the other sees.
\<close>

section \<open>The registries under the same tasks\<close>

text \<open>
  A task is registered when it is spawned and deregistered when it ends. The strict task
  keeps the slot it was given; the relaxed one marks its core and then calls \<open>finish\<close>.
\<close>

datatype task_op = Register core_ref | Deregister core_ref

fun eager_run :: "task_op list \<Rightarrow> active_slots \<times> (core_ref \<rightharpoonup> nat) \<Rightarrow> (active_slots \<times> (core_ref \<rightharpoonup> nat)) outcome" where
  "eager_run [] s = Inr s"
| "eager_run (Register r # ops) (a, keys) =
     (case slots_insert r a of Inl e \<Rightarrow> Inl e | Inr (i, a') \<Rightarrow> eager_run ops (a', keys(r \<mapsto> i)))"
| "eager_run (Deregister r # ops) (a, keys) =
     eager_run ops (case keys r of Some i \<Rightarrow> (slots_remove i a, keys(r := None)) | None \<Rightarrow> (a, keys))"

fun lazy_run :: "task_op list \<Rightarrow> 'n heap \<times> deferred_registry \<Rightarrow> ('n heap \<times> deferred_registry) outcome" where
  "lazy_run [] s = Inr s"
| "lazy_run (Register r # ops) (h, d) =
     (case deferred_insert h r d of Inl e \<Rightarrow> Inl e | Inr d' \<Rightarrow> lazy_run ops (h, d'))"
| "lazy_run (Deregister r # ops) (h, d) = lazy_run ops (heap_mark_finished r h, deferred_finish d)"

text \<open>A task is registered once, and deregistered once, after that; \<open>n\<close> cores exist.\<close>

fun tasks_ok :: "nat \<Rightarrow> core_ref set \<Rightarrow> core_ref set \<Rightarrow> task_op list \<Rightarrow> bool" where
  "tasks_ok n seen act [] \<longleftrightarrow> True"
| "tasks_ok n seen act (Register r # ops) \<longleftrightarrow>
     r < n \<and> r \<notin> seen \<and> tasks_ok n (insert r seen) (insert r act) ops"
| "tasks_ok n seen act (Deregister r # ops) \<longleftrightarrow> r \<in> act \<and> tasks_ok n seen (act - {r}) ops"

section \<open>The simulation\<close>

definition eager_ok :: "core_ref set \<Rightarrow> active_slots \<Rightarrow> (core_ref \<rightharpoonup> nat) \<Rightarrow> bool" where
  "eager_ok act a keys \<longleftrightarrow>
     slots_wf a \<and> dom keys = act \<and> (\<forall>r i. keys r = Some i \<longleftrightarrow> slot_map a i = Some r)"

definition lazy_ok :: "core_ref set \<Rightarrow> core_ref set \<Rightarrow> 'n heap \<Rightarrow> deferred_registry \<Rightarrow> bool" where
  "lazy_ok seen act h d \<longleftrightarrow>
     slots_wf (entries d) \<and> act \<subseteq> seen \<and> seen \<subseteq> {..<length h} \<and> live h (entries d) = act \<and>
     (\<forall>r < length h. core_is_finished (h ! r) \<longleftrightarrow> r \<in> seen - act)"

lemma eager_ok_ran: "eager_ok act a keys \<Longrightarrow> ran (slot_map a) = act"
  by (auto simp: eager_ok_def ran_def dom_def)

lemma eager_register:
  assumes "eager_ok act a keys" "r \<notin> act"
  obtains i a' where "slots_insert r a = Inr (i, a')" "eager_ok (insert r act) a' (keys(r \<mapsto> i))"
    "occupied a' = Suc (occupied a)"
proof -
  have wf: "slots_wf a" and keys: "\<And>s j. keys s = Some j \<longleftrightarrow> slot_map a j = Some s" and dom: "dom keys = act"
    using assms(1) by (auto simp: eager_ok_def)
  from slots_insert_spec [OF wf, of r] obtain i a' where
    i: "slots_insert r a = Inr (i, a')" "slots_wf a'" "slot_map a i = None"
      "slot_map a' = (slot_map a)(i \<mapsto> r)" "occupied a' = Suc (occupied a)" by blast
  have fresh: "keys s \<noteq> Some i" "slot_map a j \<noteq> Some r" for s j
    using keys [of s i] i(3) keys [of r j] dom assms(2) by (auto simp: dom_def)
  have "(keys(r \<mapsto> i)) s = Some j \<longleftrightarrow> slot_map a' j = Some s" for s j
    using keys [of s j] fresh(1) [of s] fresh(2) [of j] by (auto simp: i(4))
  with i(2) dom have "eager_ok (insert r act) a' (keys(r \<mapsto> i))" by (simp add: eager_ok_def)
  with that i show ?thesis by blast
qed

lemma eager_deregister:
  assumes "eager_ok act a keys" "r \<in> act"
  obtains i where "keys r = Some i" "eager_ok (act - {r}) (slots_remove i a) (keys(r := None))"
    "occupied a = Suc (occupied (slots_remove i a))"
proof -
  have wf: "slots_wf a" and keys: "\<And>s j. keys s = Some j \<longleftrightarrow> slot_map a j = Some s" and dom: "dom keys = act"
    using assms(1) by (auto simp: eager_ok_def)
  obtain i where i: "keys r = Some i" using dom assms(2) by blast
  then have ri: "slot_map a i = Some r" using keys by blast
  have "(keys(r := None)) s = Some j \<longleftrightarrow> slot_map (slots_remove i a) j = Some s" for s j
    using keys [of s j] keys [of r j] keys [of s i] ri i by (auto simp: slots_remove_spec [OF wf])
  then have "eager_ok (act - {r}) (slots_remove i a) (keys(r := None))"
    using dom slots_remove_spec(1) [OF wf] by (auto simp: eager_ok_def)
  with that i occupied_remove [of a i] ri show ?thesis by simp
qed

lemma lazy_register:
  assumes ok: "lazy_ok seen act h d" and r: "r < length h" "r \<notin> seen"
  obtains d' where "deferred_insert h r d = Inr d'" "lazy_ok (insert r seen) (insert r act) h d'"
    "in_flight d' = in_flight d + 1"
proof -
  have nf: "\<not> core_is_finished (h ! r)" using ok r by (simp add: lazy_ok_def)
  have wf: "slots_wf (entries (deferred_count d))" using ok by (simp add: lazy_ok_def deferred_count_def)
  from deferred_store_spec [OF wf nf] obtain d' where
    d': "deferred_insert h r d = Inr d'" "slots_wf (entries d')" "in_flight d' = in_flight d + 1"
      "live h (entries d') = insert r (live h (entries d))"
    by (auto simp: deferred_insert_def deferred_count_def)
  have "lazy_ok (insert r seen) (insert r act) h d'" using ok r d' by (auto simp: lazy_ok_def)
  with that d' show ?thesis by blast
qed

lemma lazy_deregister:
  assumes ok: "lazy_ok seen act h d" and r: "r \<in> act"
  shows "lazy_ok seen (act - {r}) (heap_mark_finished r h) (deferred_finish d)"
proof -
  have r': "r < length h" using ok r by (auto simp: lazy_ok_def)
  have "live (heap_mark_finished r h) (entries d) = act - {r}"
    using ok r' by (simp add: live_mark lazy_ok_def)
  moreover have "core_is_finished (heap_mark_finished r h ! x) \<longleftrightarrow> x \<in> seen - (act - {r})" if "x < length h" for x
    using ok r r' that by (cases "x = r") (auto simp: lazy_ok_def)
  ultimately show ?thesis using ok by (auto simp: lazy_ok_def deferred_finish_def)
qed

lemma registries_agree:
  assumes "tasks_ok (length h) seen act ops" "eager_ok act a keys" "lazy_ok seen act h d"
    and "in_flight d = of_nat (occupied a)"
  shows "\<exists>a' keys' h' d' seen' act'. eager_run ops (a, keys) = Inr (a', keys') \<and>
    lazy_run ops (h, d) = Inr (h', d') \<and> eager_ok act' a' keys' \<and> lazy_ok seen' act' h' d' \<and>
    in_flight d' = of_nat (occupied a')"
  using assms
proof (induction ops arbitrary: seen act a keys h d)
  case Nil
  then show ?case by auto
next
  case (Cons op ops)
  show ?case
  proof (cases op)
    case (Register r)
    have r: "r < length h" "r \<notin> seen" "r \<notin> act" "tasks_ok (length h) (insert r seen) (insert r act) ops"
      using Cons.prems(1,3) Register by (auto simp: lazy_ok_def)
    from eager_register [OF Cons.prems(2) r(3)] obtain i b where
      b: "slots_insert r a = Inr (i, b)" "eager_ok (insert r act) b (keys(r \<mapsto> i))" "occupied b = Suc (occupied a)" .
    from lazy_register [OF Cons.prems(3) r(1,2)] obtain e where
      e: "deferred_insert h r d = Inr e" "lazy_ok (insert r seen) (insert r act) h e" "in_flight e = in_flight d + 1" .
    have "in_flight e = of_nat (occupied b)" using Cons.prems(4) b(3) e(3) by simp
    from Cons.IH [OF r(4) b(2) e(2) this] show ?thesis
      unfolding Register eager_run.simps lazy_run.simps b(1) e(1) sum.case prod.case .
  next
    case (Deregister r)
    have r: "r \<in> act" "tasks_ok (length h) seen (act - {r}) ops" using Cons.prems(1) Deregister by auto
    from eager_deregister [OF Cons.prems(2) r(1)] obtain i where
      i: "keys r = Some i" "eager_ok (act - {r}) (slots_remove i a) (keys(r := None))"
        "occupied a = Suc (occupied (slots_remove i a))" .
    have len: "tasks_ok (length (heap_mark_finished r h)) seen (act - {r}) ops" using r(2) by simp
    have "in_flight (deferred_finish d) = of_nat (occupied (slots_remove i a))"
      using Cons.prems(4) i(3) by (simp add: deferred_finish_def)
    from Cons.IH [OF len i(2) lazy_deregister [OF Cons.prems(3) r(1)] this] show ?thesis
      unfolding Deregister eager_run.simps lazy_run.simps i(1) option.case .
  qed
qed

section \<open>Properties\<close>

text \<open>
  C39. Deferred removal cannot be observed. For any tasks that are registered and deregistered, in
  any order, on two new registries, neither panics, \<open>all_tokens\<close> and \<open>tokens_matching\<close> list
  the same tasks, and \<open>len\<close> returns the same count (as a \<open>usize\<close>).
\<close>

theorem registries_equivalent:
  assumes "tasks_ok (length h) {} {} ops" "\<forall>c \<in> set h. \<not> core_is_finished c"
  shows "\<exists>a keys h' d k. eager_run ops (slots_with_capacity n, Map.empty) = Inr (a, keys) \<and>
    lazy_run ops (h, deferred_with_capacity n) = Inr (h', d) \<and>
    set (slots_all_tokens a) = set (deferred_all_tokens h' d) \<and>
    (\<forall>ls. set (slots_tokens_matching h' ls a) = set (deferred_tokens_matching h' ls d)) \<and>
    slots_len a = Inr k \<and> deferred_len d = of_nat k"
proof -
  let ?a = "slots_with_capacity n" and ?d = "deferred_with_capacity n"
  have "eager_ok {} ?a Map.empty" by (simp add: eager_ok_def)
  moreover have "lazy_ok {} {} h ?d"
    using assms(2) by (auto simp: lazy_ok_def deferred_with_capacity_def live_def)
  moreover have "in_flight ?d = of_nat (occupied ?a)" by (simp add: deferred_with_capacity_def)
  ultimately obtain a keys h' d seen act where
    run: "eager_run ops (?a, Map.empty) = Inr (a, keys)" "lazy_run ops (h, ?d) = Inr (h', d)"
    and ok: "eager_ok act a keys" "lazy_ok seen act h' d" "in_flight d = of_nat (occupied a)"
    using registries_agree [OF assms(1)] by blast
  have ran: "ran (slot_map a) = act" "live h' (entries d) = act" "slots_wf a"
    using ok eager_ok_ran by (auto simp: lazy_ok_def eager_ok_def)
  have "set (slots_all_tokens a) = set (deferred_all_tokens h' d)"
    unfolding strict_registry.set_all deferred_registry.set_all ran ..
  moreover have "set (slots_tokens_matching h' ls a) = set (deferred_tokens_matching h' ls d)" for ls
    unfolding strict_registry.set_matching deferred_registry.set_matching ran ..
  ultimately show ?thesis
    using run ok(3) slots_len_occupied [OF ran(3)] unfolding deferred_len_def by blast
qed

lemma registries_equivalent_witness:
  "\<exists>a keys h d. eager_run [Register 0, Register 1, Deregister 0, Register 2]
       (slots_with_capacity 2, Map.empty) = Inr (a, keys) \<and>
     lazy_run [Register 0, Register 1, Deregister 0, Register 2]
       (replicate 3 (core_new set_notify 0 {}), deferred_with_capacity 2) = Inr (h, d) \<and>
     set (slots_all_tokens a) = set (deferred_all_tokens h d) \<and> slots_len a = Inr 2 \<and> deferred_len d = 2"
proof -
  let ?h = "replicate 3 (core_new set_notify 0 {})"
  let ?ops = "[Register 0, Register 1, Deregister 0, Register 2]"
  have ok: "tasks_ok (length ?h) {} {} ?ops" by simp
  have nf: "\<forall>c \<in> set ?h. \<not> core_is_finished c" by code_simp
  have "slots_len (fst (projr (eager_run ?ops (slots_with_capacity 2, Map.empty)))) = Inr 2" by code_simp
  with registries_equivalent [OF ok nf, of 2] show ?thesis by force
qed

end
