(* ===== verification/Spec2Isabelle.thy ===== *)
theory Spec2Isabelle
  imports ManagerShutdown RlxdProps RegistryEquiv
begin

text \<open>
  A model of \<open>futures_orchestra\<close>, a Rust library of task pools on tokio, and the theorems that
  make it correct.

  \<^bold>\<open>The program.\<close> A pool accepts futures with labels, keeps at most \<open>queue_capacity\<close> of them
  waiting and at most \<open>concurrency_limit\<close> running, cancels them by handle or label, hands each
  result to the submitter through a oneshot channel, reports each completion to registered
  handlers, and shuts down gracefully or forcefully. \<open>manager.rs\<close> is the strict pool (one worker
  loop, first in first out); \<open>rlxd.rs\<close> is the relaxed pool (several dispatchers with a lane
  each, and direct dispatch from \<open>submit\<close>). Both are built from \<open>token.rs\<close> (cancellation),
  \<open>task.rs\<close> (the core shared by handle, registry and task), \<open>handle.rs\<close>, \<open>capacity_gate.rs\<close>,
  \<open>task_queue.rs\<close>, \<open>active.rs\<close> (the registries of running tasks), \<open>notifier.rs\<close> and \<open>error.rs\<close>.

  \<^bold>\<open>How concurrency is modelled.\<close> Every activity (a submission, a dispatcher, a spawned task, an
  awaiting handle, the notification worker, a label cancellation, a call of \<open>shutdown\<close>, a drop of
  a clone, a call of the relaxed pool's \<open>active_task_count\<close> or \<open>queued_task_count\<close>) has a program counter, a datatype whose constructors are the points of the code
  between which another thread may run: awaits, and the gaps between two accesses to shared state.
  A step function moves one activity on and returns \<open>None\<close> when it is blocked or over. \<open>pool_step\<close>
  (strict) and \<open>rlxd_step\<close> (relaxed) take an event, which names the activity, so a run is a list
  of events and a theorem about \<open>reach\<close> or \<open>run\<close> holds for every interleaving. Panics and errors
  are values: \<open>outcome\<close> for Rust panics, \<open>pool_error\<close> for the errors of \<open>error.rs\<close>.

  \<^bold>\<open>Correspondence.\<close>
  \<^item> \<open>Prelude\<close>: machine integers, panics, counting lemmas, transition systems, and the locales
    \<open>invariant\<close>, \<open>relative_invariant\<close>, \<open>component\<close>, \<open>ranked\<close>, \<open>solo\<close> and \<open>logged\<close> (an account of what
    \<open>run_log\<close> writes down along a run) that the other theories interpret on the machines of the code.
  \<^item> \<open>Externals\<close>: the crates, which are not in the repository, as records of operations with
    their documented laws (tokio's semaphore and \<open>Notify\<close>, fibre's channels and oneshot), and a
    concrete instance of each, on which the witnesses run.
  \<^item> \<open>Errors\<close>, \<open>Token\<close>, \<open>Task\<close>, \<open>Handle\<close>, \<open>Gate\<close>, \<open>TaskQueue\<close>, \<open>Active\<close>, \<open>Notifier\<close>: the file of
    the same name. Cores live in a heap, a list indexed by their addresses, since a handle, a
    registry entry and a task share one. A submitted future is the sequence of its polls.
  \<^item> \<open>Pool\<close>: what the two managers share: the environment \<open>env\<close> of crates and handlers,
    the fields both structs have, and the steps of a returned handle. \<open>PoolResult\<close> has the lemmas
    on it: which outcomes a future or a cancellation explains, and what a handle can hold.
  \<^item> \<open>Manager\<close>: \<open>FuturePoolManager\<close> with \<open>submit\<close>, \<open>run_worker_loop\<close>, the spawned tasks,
    \<open>cancel_tasks_by_labels\<close>, \<open>shutdown\<close>, \<open>Clone\<close> and \<open>Drop\<close>.
  \<^item> \<open>LaneQueue\<close>, \<open>Rlxd\<close>, \<open>RlxdPool\<close>: \<open>RlxdQueueProducer\<close> with its lanes; the state of
    \<open>FuturePoolManagerRlxd\<close>, \<open>submit_inner\<close>, the dispatchers and \<open>spawn_task\<close>; label
    cancellation, \<open>shutdown\<close>, \<open>Drop\<close> and the machine \<open>rlxd_step\<close>.

  \<^bold>\<open>What the lemmas show.\<close>
  \<^item> Components: a wakeup is never lost (\<open>Token\<close>); the queue is bounded and first in first out
    (\<open>TaskQueue\<close>); the slot array refines a finite map, never panics, and the registry with
    deferred removal is equivalent to it (\<open>Active\<close>, \<open>RegistryEquiv\<close>); handlers are called once and in
    order, whichever of them panics (\<open>Notifier\<close>); an error text names its task (\<open>Handle\<close>).
  \<^item> Strict pool: \<open>ManagerFrame\<close> says which step writes what; \<open>ManagerInv\<close>, \<open>ManagerOrder\<close>,
    \<open>ManagerNotes\<close>, \<open>ManagerResult\<close> and \<open>ManagerAwait\<close> hold the invariants (permits, registry,
    order, notifications, results); \<open>ManagerReports\<close> that every completion is reported, once;
    \<open>ManagerDeliver\<close> that no result stays away; \<open>ManagerSpec\<close> an abstract pool that the code refines;
    \<open>ManagerCancel\<close> the calls of \<open>cancel_tasks_by_labels\<close>; \<open>ManagerLive\<close> the ranks;
    \<open>ManagerProps\<close> and \<open>ManagerShutdown\<close> the properties.
  \<^item> Relaxed pool: \<open>RlxdFrame\<close> and \<open>RlxdCases\<close> split a step into its effects; \<open>RlxdInv\<close> holds
    well-formedness, the permits of both gates and the counters of the shards; \<open>RlxdOrder\<close> and
    \<open>RlxdPlaces\<close> say where every task is; \<open>RlxdShards\<close> that a shard lists its running tasks;
    \<open>RlxdSweep\<close> what a sweep over the shards cancels; \<open>RlxdSpec\<close> has an abstract pool of lanes that
    the code refines; \<open>RlxdResult\<close> and \<open>RlxdAwait\<close> say where results come from, \<open>RlxdDeliver\<close>
    that none stays away, \<open>RlxdOnce\<close> that a task is reported once, \<open>RlxdNotes\<close> that the notifier's
    machine is a component of the pool's, \<open>RlxdReports\<close> that every completion is reported;
    \<open>RlxdGauge\<close> what \<open>active_task_count\<close> may return;
    \<open>RlxdLive\<close> and \<open>RlxdStop\<close> hold the ranks; \<open>RlxdProps\<close> the properties.
    \<open>ManagerExample\<close> and \<open>RlxdExample\<close> hold the runs of the witnesses.

  \<^bold>\<open>Bounds.\<close> No definition uses fuel: every step function is total. Counters are words of the code's
  width and wrap as the atomics do. Termination is stated through ranks: the worker loop stops
  within 6 of its own steps after the flag, a dispatcher within 5, a cancelled task ends within 6
  (7 in the relaxed pool), and \<open>shutdown\<close> returns within a bound that counts its timers, which are
  events of their own.

  \<^bold>\<open>Hypotheses.\<close> \<open>lawful E\<close> collects the laws of the crates. The two theorems that an awaited
  result arrives need one more, \<open>oneshot_resolves\<close>: a oneshot whose sender has sent or was dropped
  does not keep its receiver pending. It lets the oneshot lose a value, as long as it then reports
  the disconnection, which is what \<open>tests/result_delivery.rs\<close> observes; a lost value comes out of
  \<open>await_result\<close> as \<open>ResultChannelError\<close>. The two theorems that every completion reaches the handlers
  need \<open>chan_accepts\<close>: an unbounded channel accepts every message until its receiver closes it or
  is dropped.

  \<^bold>\<open>Not modelled.\<close> The inside of a submitted future beyond the outcomes of its polls; \<open>Debug\<close> and
  \<open>Display\<close> output other than the channel error, and logging; \<open>lib.rs\<close>, which only re-exports; tests,
  benches and examples, which are clients; the 2^64 wrap of a sum of lane lengths. Some
  accesses are one step where nothing can tell the difference: a call of \<open>submit\<close> reads the flag,
  finds the queue open and takes its id; a message and its queue permit leave the strict queue
  together, as nobody else receives; \<open>Drop\<close> of the relaxed pool closes all lanes. Memory
  orderings weaker than sequential consistency are outside the model: a step acts on the whole
  state at once.
\<close>

end
